(* ===== verification/Prelude.thy ===== *)
theory Prelude
  imports Main "HOL-Library.Word" "HOL-Library.Monad_Syntax"
begin

text \<open>
  Shared vocabulary of the development.

  \<^item> Machine types: \<open>u32\<close> and \<open>u64\<close> are the fixed-width unsigned integers of the
    source (\<open>size_t\<close> is 64 bits wide); signed 64-bit values are \<open>int\<close> with the range
    \<open>i64\<close> stated where an operation could leave it. A byte is a \<open>char\<close>, a
    \<open>std::string_view\<close> is a \<open>string\<close>.
  \<^item> Undefined behaviour: an operation that dereferences memory, or that the source
    guards with \<open>assert\<close>, has an \<open>option\<close> result; \<open>None\<close> is an access outside a live
    object, a failed assertion, or a loop that does not return. Theorems that an operation
    yields \<open>Some\<close> are therefore memory-safety and termination statements.
  \<^item> \<open>read_at\<close> and \<open>write_at\<close> are \<open>memcpy\<close> out of and into one block of bytes.
\<close>

unbundle bit_operations_syntax

section \<open>Types\<close>

type_synonym u32 = "32 word"
type_synonym u64 = "64 word"

abbreviation INT64_MAX :: int where
  "INT64_MAX \<equiv> 9223372036854775807"

abbreviation INT64_MIN :: int where
  "INT64_MIN \<equiv> - 9223372036854775808"

definition i64 :: "int \<Rightarrow> bool" where
  "i64 x \<longleftrightarrow> INT64_MIN \<le> x \<and> x \<le> INT64_MAX"

abbreviation CR :: char where "CR \<equiv> CHR 0x0D"
abbreviation LF :: char where "LF \<equiv> CHR 0x0A"
abbreviation TAB :: char where "TAB \<equiv> CHR 0x09"
abbreviation NUL :: char where "NUL \<equiv> CHR 0x00"

section \<open>Lemma collections\<close>

named_theorems mem_simps \<open>evaluation of bounded reads and writes\<close>
named_theorems word_simps \<open>reading word operations as natural numbers\<close>

section \<open>Assertions and bounded memory access\<close>

definition require :: "bool \<Rightarrow> unit option" where
  "require b = (if b then Some () else None)"

lemma require_simps [simp]:
  "require True = Some ()" "require False = None"
  "(require b = Some u) = b" "(require b = None) = (\<not> b)"
  by (simp_all add: require_def)

text \<open>\<open>memcpy(dst, p + at, n)\<close> out of, and \<open>memcpy(p + at, bytes, |bytes|)\<close> into, a block.\<close>

definition read_at :: "nat \<Rightarrow> nat \<Rightarrow> 'a list \<Rightarrow> 'a list option" where
  "read_at at n xs = (if at + n \<le> length xs then Some (take n (drop at xs)) else None)"

definition write_at :: "nat \<Rightarrow> 'a list \<Rightarrow> 'a list \<Rightarrow> 'a list option" where
  "write_at at bytes xs =
     (if at + length bytes \<le> length xs
      then Some (take at xs @ bytes @ drop (at + length bytes) xs) else None)"

lemma read_at_ok [mem_simps]:
  "at + n \<le> length xs \<Longrightarrow> read_at at n xs = Some (take n (drop at xs))"
  by (simp add: read_at_def)

lemma write_at_ok [mem_simps]:
  "at + length bytes \<le> length xs \<Longrightarrow>
     write_at at bytes xs = Some (take at xs @ bytes @ drop (at + length bytes) xs)"
  by (simp add: write_at_def)

lemma write_at_length: "write_at at bytes xs = Some ys \<Longrightarrow> length ys = length xs"
  by (auto simp: write_at_def split: if_splits)

lemma write_at_inside: "write_at at bytes xs = Some ys \<Longrightarrow> take (length bytes) (drop at ys) = bytes"
  by (auto simp: write_at_def split: if_splits)

section \<open>Lists\<close>

lemma take_drop_nth_Cons:
  "i < length xs \<Longrightarrow> 0 < n \<Longrightarrow> take n (drop i xs) = xs ! i # take (n - 1) (drop (Suc i) xs)"
  by (metis Cons_nth_drop_Suc Suc_pred' take_Suc_Cons)

lemma sum_list_remove1:
  "x \<in> set xs \<Longrightarrow> sum_list (map f xs) = f x + sum_list (map (f :: 'a \<Rightarrow> nat) (remove1 x xs))"
  by (induction xs) auto

section \<open>Words\<close>

lemma unat_drop_bit_1 [word_simps]:
  "unat (drop_bit 1 (w :: 'a::len word)) = unat w div 2"
  "unat (drop_bit (Suc 0) (w :: 'a::len word)) = unat w div 2"
  unfolding unat_drop_bit_eq by (simp_all add: drop_bit_eq_div)

lemma unat_and_1 [word_simps]: "unat (w AND (1 :: 'a::len word)) = unat w mod 2"
  unfolding unsigned_and_eq by (simp add: and_one_eq)

text \<open>The low \<open>k\<close> bits selected by an all-ones mask.\<close>

lemma and_mask_word: "(w :: 'a::len word) AND (2 ^ k - 1) = take_bit k w"
  by (simp add: take_bit_eq_mask mask_eq_exp_minus_1)

lemma unat_and_mask [word_simps]: "unat ((w :: 'a::len word) AND (2 ^ k - 1)) = unat w mod 2 ^ k"
  unfolding and_mask_word unsigned_take_bit_eq by (simp add: take_bit_eq_mod)

lemma unat_mask_u64 [word_simps]: "k \<le> 64 \<Longrightarrow> unat ((2 :: u64) ^ k - 1) = 2 ^ k - 1"
proof -
  assume "k \<le> 64"
  then have "take_bit k (mask 64 :: nat) = mask k"
    by (simp add: min_absorb1)
  then have "(2 ^ 64 - 1) mod 2 ^ k = (2 :: nat) ^ k - 1"
    by (simp only: take_bit_eq_mod mask_eq_exp_minus_1)
  moreover have "unat ((- 1 :: u64) AND (2 ^ k - 1)) = (2 ^ 64 - 1) mod 2 ^ k"
    unfolding unat_and_mask by (simp add: unsigned_minus_1_eq_mask mask_eq_exp_minus_1)
  ultimately show ?thesis by simp
qed

lemma unat_pow2_u64 [word_simps]: "j < 64 \<Longrightarrow> unat ((2 :: u64) ^ j) = 2 ^ j"
proof -
  assume "j < 64"
  then have "(2 :: nat) ^ j < 2 ^ 64" by (rule power_strict_increasing) simp
  moreover have "unat (of_nat (2 ^ j) :: u64) = 2 ^ j mod 2 ^ 64"
    by (simp only: unat_of_nat take_bit_eq_mod) simp
  ultimately show ?thesis by simp
qed

end
