(* ===== verification/Bits.thy ===== *)
theory Bits
  imports Prelude
begin

text \<open>
  \<^verbatim>\<open>src/core/bits.cpp\<close>: the rounding of bucket counts to powers of two, the reverse-binary
  scan cursor, and the splitmix64 generator.

  The lemmas relate the word-level loops to functions on natural numbers (\<open>revn\<close>, the
  reversal of the low \<open>k\<close> bits) and derive the two facts the rest of the program relies
  on: a scan cursor visits every bucket exactly once, also when the table doubles in the
  middle of the cycle, and the generator is a bijection with full period.
\<close>

section \<open>Definitions\<close>

text \<open>The loop of \<open>reverseBits\<close>: \<open>for (m = mask; m != 0; m >>= 1)\<close>.\<close>

function reverseLoop :: "u64 \<Rightarrow> u64 \<Rightarrow> u64 \<Rightarrow> u64" where
  "reverseLoop m v out =
     (if m = 0 then out
      else reverseLoop (drop_bit 1 m) (drop_bit 1 v) (push_bit 1 out OR (v AND 1)))"
  by pat_completeness auto
termination
  by (relation "measure (\<lambda>(m, v, out). unat m)")
     (simp_all add: unat_drop_bit_1 unat_gt_0)

declare reverseLoop.simps [simp del]

definition reverseBits :: "u64 \<Rightarrow> u64 \<Rightarrow> u64" where
  "reverseBits v msk = reverseLoop msk v 0"

text \<open>
  \<open>std::bit_ceil\<close>: doubling from 1 until \<open>n\<close> is reached. The standard leaves it undefined
  when the result does not fit in 64 bits, that is above \<open>2 ^ 63\<close>.
\<close>

function bitCeilLoop :: "nat \<Rightarrow> nat \<Rightarrow> nat" where
  "bitCeilLoop p n = (if p < n \<and> 0 < p then bitCeilLoop (2 * p) n else p)"
  by pat_completeness auto
termination
  by (relation "measure (\<lambda>(p, n). n - p)") auto

declare bitCeilLoop.simps [simp del]

definition bit_ceil :: "u64 \<Rightarrow> u64 option" where
  "bit_ceil n = (if unat n \<le> 2 ^ 63 then Some (of_nat (bitCeilLoop 1 (unat n))) else None)"

definition nextPow2 :: "u64 \<Rightarrow> u64 option" where
  "nextPow2 n = (if n = 0 then Some 1 else bit_ceil n)"

definition nextCursor :: "u64 \<Rightarrow> u64 \<Rightarrow> u64" where
  "nextCursor cursor msk =
     (let r = reverseBits cursor msk + 1
      in if r > msk then 0 else reverseBits r msk)"

text \<open>Returns the output and the advanced state.\<close>

definition splitmix64 :: "u64 \<Rightarrow> u64 \<times> u64" where
  "splitmix64 state =
     (let state = state + 0x9e3779b97f4a7c15;
          z = state;
          z = (z XOR drop_bit 30 z) * 0xbf58476d1ce4e5b9;
          z = (z XOR drop_bit 27 z) * 0x94d049bb133111eb
      in (z XOR drop_bit 31 z, state))"


section \<open>Bit reversal\<close>

text \<open>The reversal of the low \<open>k\<close> bits of a natural number.\<close>

primrec revn :: "nat \<Rightarrow> nat \<Rightarrow> nat" where
  "revn 0 v = 0"
| "revn (Suc k) v = (v mod 2) * 2 ^ k + revn k (v div 2)"

lemma revn_less: "revn k v < 2 ^ k"
proof (induction k arbitrary: v)
  case (Suc k)
  from Suc [of "v div 2"] show ?case by (cases "even v") (simp_all add: odd_iff_mod_2_eq_one)
qed simp

lemma revn_0 [simp]: "revn k 0 = 0"
  by (induction k) auto

text \<open>Peeling the most significant of the reversed bits instead of the least significant one.\<close>

lemma revn_snoc: "revn (Suc k) v = 2 * revn k v + (v div 2 ^ k) mod 2"
proof (induction k arbitrary: v)
  case (Suc k)
  have "revn (Suc (Suc k)) v = (v mod 2) * 2 ^ Suc k + revn (Suc k) (v div 2)"
    by simp
  also have "\<dots> = (v mod 2) * 2 ^ Suc k + (2 * revn k (v div 2) + (v div 2 div 2 ^ k) mod 2)"
    by (simp only: Suc.IH)
  also have "\<dots> = 2 * revn (Suc k) v + (v div 2 ^ Suc k) mod 2"
    by (simp add: div_mult2_eq)
  finally show ?case .
qed simp

lemma revn_double: "v < 2 ^ k \<Longrightarrow> revn (Suc k) v = 2 * revn k v"
  by (simp only: revn_snoc) simp

lemma revn_mod: "revn k (v mod 2 ^ k) = revn k v"
proof (induction k arbitrary: v)
  case (Suc k)
  have "v mod 2 ^ Suc k mod 2 = v mod 2" and "v mod 2 ^ Suc k div 2 = v div 2 mod 2 ^ k"
    by (simp_all add: mod_mod_cancel mod_mult2_eq)
  then show ?case using Suc.IH [of "v div 2"] by simp
qed simp

lemma revn_revn: "v < 2 ^ k \<Longrightarrow> revn k (revn k v) = v"
proof (induction k arbitrary: v)
  case (Suc k)
  let ?h = "v div 2 ^ k" and ?l = "v mod 2 ^ k"
  have l: "?l < 2 ^ k" by simp
  have "revn (Suc k) v = 2 * revn k ?l + ?h mod 2"
    by (simp only: revn_snoc revn_mod)
  moreover have "?h mod 2 = ?h" using Suc.prems by (simp add: less_mult_imp_div_less mult.commute)
  ultimately have "revn (Suc k) (revn (Suc k) v) = ?h * 2 ^ k + revn k (revn k ?l)"
    by simp
  also have "\<dots> = v" using Suc.IH [OF l] by (simp add: div_mult_mod_eq)
  finally show ?case .
qed simp

lemma revn_inj_on: "inj_on (revn k) {..<2 ^ k}"
  by (metis inj_onI lessThan_iff revn_revn)

lemma revn_image: "revn k ` {..<2 ^ k} = {..<2 ^ k}"
  by (metis card_image card_subset_eq finite_lessThan image_subsetI lessThan_iff revn_inj_on revn_less)

section \<open>The word loops compute bit reversal and power-of-two rounding\<close>

lemma unat_shift_in:
  assumes "unat (out :: u64) < 2 ^ 63"
  shows "unat (push_bit 1 out OR (v AND 1)) = 2 * unat out + unat v mod 2"
proof -
  have "\<not> bit (push_bit 1 out) n \<or> \<not> bit (v AND 1) n" for n
    by (simp only: bit_push_bit_iff bit_and_iff bit_1_iff) linarith
  then have "push_bit 1 out OR (v AND 1) = push_bit 1 out + (v AND 1)"
    by (rule disjunctive_add [symmetric])
  moreover have "unat (push_bit 1 out) = 2 * unat out"
    using assms by (simp add: push_bit_eq_mult unat_word_ariths)
  moreover have "unat (v AND 1) \<le> 1" unfolding unat_and_1 by simp
  ultimately show ?thesis using assms unat_and_1 [of v]
    by (simp add: unat_word_ariths)
qed

lemma drop_bit_mask_Suc: "Suc k \<le> 64 \<Longrightarrow> drop_bit 1 ((2 :: u64) ^ Suc k - 1) = 2 ^ k - 1"
  by (rule word_unat_eq_iff [THEN iffD2])
     (simp only: unat_drop_bit_1 unat_mask_u64 Suc_leD, simp)

lemma unat_reverseLoop:
  "k \<le> 64 \<Longrightarrow> unat out < 2 ^ (64 - k) \<Longrightarrow>
     unat (reverseLoop (2 ^ k - 1) v out) = unat out * 2 ^ k + revn k (unat v)"
proof (induction k arbitrary: v out)
  case 0
  then show ?case by (simp add: reverseLoop.simps)
next
  case (Suc k)
  let ?out = "push_bit 1 out OR (v AND 1)"
  have "1 < (2 :: nat) ^ Suc k" by (rule one_less_power) simp_all
  then have "unat ((2 :: u64) ^ Suc k - 1) \<noteq> 0"
    unfolding unat_mask_u64 [OF Suc.prems(1)] by simp
  then have nz: "(2 :: u64) ^ Suc k - 1 \<noteq> 0" by force
  have pow: "(2 :: nat) ^ (64 - k) = 2 * 2 ^ (64 - Suc k)"
    using Suc.prems(1) by (simp add: Suc_diff_Suc flip: power_Suc)
  have "(2 :: nat) ^ (64 - Suc k) \<le> 2 ^ 63" by (intro power_increasing) simp_all
  with Suc.prems(2) have "unat out < 2 ^ 63" by (rule less_le_trans)
  then have out: "unat ?out = 2 * unat out + unat v mod 2" by (rule unat_shift_in)
  also have "\<dots> < 2 ^ (64 - k)" using Suc.prems(2) unfolding pow by (simp add: mod2_eq_if)
  finally have "unat (reverseLoop (2 ^ k - 1) (drop_bit 1 v) ?out) =
      unat ?out * 2 ^ k + revn k (unat (drop_bit 1 v))"
    using Suc.prems(1) by (intro Suc.IH) simp_all
  then have "unat (reverseLoop (2 ^ Suc k - 1) v out) = unat ?out * 2 ^ k + revn k (unat v div 2)"
    using nz drop_bit_mask_Suc [OF Suc.prems(1)]
    by (subst reverseLoop.simps) (simp only: if_False unat_drop_bit_1)
  then show ?case unfolding out by (simp add: algebra_simps)
qed

lemma unat_reverseBits: "k \<le> 64 \<Longrightarrow> unat (reverseBits v (2 ^ k - 1)) = revn k (unat v)"
  by (simp add: reverseBits_def unat_reverseLoop)

lemma bitCeilLoop_least:
  assumes "0 < p"
  shows "\<exists>j. bitCeilLoop p n = p * 2 ^ j \<and> n \<le> p * 2 ^ j \<and> (\<forall>i < j. p * 2 ^ i < n)"
  using assms
proof (induction p n rule: bitCeilLoop.induct)
  case (1 p n)
  show ?case
  proof (cases "p < n")
    case True
    with 1 obtain j where j: "bitCeilLoop (2 * p) n = 2 * p * 2 ^ j" "n \<le> 2 * p * 2 ^ j"
      "\<forall>i < j. 2 * p * 2 ^ i < n" by auto
    have "p * 2 ^ i < n" if "i < Suc j" for i
      using that True j(3) by (cases i) (auto simp: mult.assoc)
    moreover have "bitCeilLoop p n = p * 2 ^ Suc j"
      using True 1(2) j(1) by (subst bitCeilLoop.simps) simp
    ultimately show ?thesis using j(2) by (intro exI [of _ "Suc j"]) auto
  next
    case False
    then have "bitCeilLoop p n = p" by (subst bitCeilLoop.simps) simp
    with False show ?thesis by (intro exI [of _ 0]) auto
  qed
qed

lemma nextPow2_correct:
  assumes "unat n \<le> 2 ^ 63"
  obtains j where "nextPow2 n = Some (2 ^ j)" "j \<le> 63" "unat n \<le> 2 ^ j"
    "\<forall>i < j. 2 ^ i < unat n"
proof (cases "n = 0")
  case True
  then show ?thesis using that [of 0] by (simp add: nextPow2_def)
next
  case False
  obtain j where j: "bitCeilLoop 1 (unat n) = 2 ^ j" "unat n \<le> 2 ^ j" "\<forall>i < j. 2 ^ i < unat n"
    using bitCeilLoop_least [of 1 "unat n"] by auto
  have "j \<le> 63"
  proof (rule ccontr)
    assume "\<not> j \<le> 63"
    with j(3) [rule_format, of 63] have "(2 :: nat) ^ 63 < unat n" by linarith
    with assms show False by simp
  qed
  then show ?thesis using that [of j] False j assms by (simp add: nextPow2_def bit_ceil_def)
qed

section \<open>The scan cursor\<close>

text \<open>
  \<open>cursorAfter k n c\<close> is the cursor after \<open>n\<close> steps in a table of \<open>2 ^ k\<close> buckets. The
  position of a bucket in the scan order is the reversal of its index.
\<close>

definition cursorAfter :: "nat \<Rightarrow> nat \<Rightarrow> u64 \<Rightarrow> u64" where
  "cursorAfter k n c = ((\<lambda>c. nextCursor c (2 ^ k - 1)) ^^ n) c"

lemma cursorAfter_0 [simp]: "cursorAfter k 0 c = c"
  by (simp add: cursorAfter_def)

lemma cursorAfter_Suc: "cursorAfter k (Suc n) c = nextCursor (cursorAfter k n c) (2 ^ k - 1)"
  by (simp add: cursorAfter_def)

lemma unat_nextCursor:
  assumes "k < 64"
  shows "unat (nextCursor c (2 ^ k - 1)) = revn k ((revn k (unat c) + 1) mod 2 ^ k)"
proof -
  let ?r = "reverseBits c (2 ^ k - 1) + 1"
  have le: "revn k (unat c) + 1 \<le> 2 ^ k" using revn_less [of k "unat c"] by simp
  moreover have "(2 :: nat) ^ k \<le> 2 ^ 63" using assms by (intro power_increasing) simp_all
  ultimately have r: "unat ?r = revn k (unat c) + 1"
    using assms by (simp add: unat_word_ariths unat_reverseBits)
  have gt: "?r > 2 ^ k - 1 \<longleftrightarrow> revn k (unat c) + 1 = 2 ^ k"
    using le assms by (simp add: word_less_nat_alt r unat_mask_u64) linarith
  show ?thesis
  proof (cases "revn k (unat c) + 1 = 2 ^ k")
    case True
    with gt show ?thesis by (simp add: nextCursor_def Let_def)
  next
    case False
    with le have "(revn k (unat c) + 1) mod 2 ^ k = revn k (unat c) + 1" by simp
    with False gt r assms show ?thesis by (simp add: nextCursor_def Let_def unat_reverseBits)
  qed
qed

lemma nextCursor_less: "k < 64 \<Longrightarrow> unat (nextCursor c (2 ^ k - 1)) < 2 ^ k"
  by (simp only: unat_nextCursor revn_less)

lemma rank_nextCursor:
  "k < 64 \<Longrightarrow> revn k (unat (nextCursor c (2 ^ k - 1))) = (revn k (unat c) + 1) mod 2 ^ k"
  by (simp add: unat_nextCursor revn_revn)

lemma cursorAfter_less: "k < 64 \<Longrightarrow> unat c < 2 ^ k \<Longrightarrow> unat (cursorAfter k n c) < 2 ^ k"
  by (cases n) (simp_all add: cursorAfter_Suc nextCursor_less)

lemma rank_cursorAfter:
  assumes "k < 64"
  shows "revn k (unat (cursorAfter k n c)) = (revn k (unat c) + n) mod 2 ^ k"
proof (induction n)
  case 0
  then show ?case using revn_less [of k "unat c"] by simp
next
  case (Suc n)
  then show ?case using assms by (simp add: cursorAfter_Suc rank_nextCursor mod_Suc_eq)
qed

lemma unat_cursorAfter:
  assumes "k < 64" "unat c < 2 ^ k"
  shows "unat (cursorAfter k n c) = revn k ((revn k (unat c) + n) mod 2 ^ k)"
  using rank_cursorAfter [OF assms(1), of n c] revn_revn [OF cursorAfter_less [OF assms]]
  by metis

text \<open>
  C23: stepping the reverse-binary cursor from 0 visits every bucket of a table of \<open>2 ^ k\<close>
  buckets exactly once before it returns to 0.
\<close>

theorem cursor_full_cycle:
  assumes "k < 64"
  shows "bij_betw (\<lambda>n. unat (cursorAfter k n 0)) {..<2 ^ k} {..<2 ^ k} \<and> cursorAfter k (2 ^ k) 0 = 0"
proof -
  have "unat (cursorAfter k n 0) = revn k n" if "n < 2 ^ k" for n
    using that unat_cursorAfter [OF assms, of 0 n] by simp
  then have "bij_betw (\<lambda>n. unat (cursorAfter k n 0)) {..<2 ^ k} {..<2 ^ k} \<longleftrightarrow>
      bij_betw (revn k) {..<2 ^ k} {..<2 ^ k}"
    by (intro bij_betw_cong) simp
  moreover have "unat (cursorAfter k (2 ^ k) 0) = 0"
    using unat_cursorAfter [OF assms, of 0 "2 ^ k"] by simp
  ultimately show ?thesis by (simp add: bij_betw_def revn_inj_on revn_image unat_eq_zero)
qed

theorem cursor_full_cycle_witness:
  "bij_betw (\<lambda>n. unat (cursorAfter 3 n 0)) {..<2 ^ 3} {..<2 ^ 3} \<and> cursorAfter 3 (2 ^ 3) 0 = 0"
  using cursor_full_cycle [of 3] by simp

text \<open>The buckets whose position is below \<open>n\<close> are the ones a scan from 0 took first.\<close>

lemma cursor_visited:
  assumes "k < 64" "n \<le> 2 ^ k" "b < 2 ^ k"
  shows "b \<in> (\<lambda>i. unat (cursorAfter k i 0)) ` {..<n} \<longleftrightarrow> revn k b < n"
proof -
  have "(\<lambda>i. unat (cursorAfter k i 0)) ` {..<n} = revn k ` {..<n}"
    using assms unat_cursorAfter [OF assms(1), of 0] by (intro image_cong) auto
  moreover have "b \<in> revn k ` {..<n} \<longleftrightarrow> revn k b < n"
  proof
    assume "revn k b < n"
    then show "b \<in> revn k ` {..<n}"
      using assms(3) by (intro image_eqI [of _ _ "revn k b"]) (simp_all add: revn_revn)
  qed (use assms(2) in \<open>auto simp: revn_revn\<close>)
  ultimately show ?thesis by simp
qed

lemma cursor_remaining:
  assumes "k < 64" "unat c < 2 ^ k"
  shows "(\<lambda>i. unat (cursorAfter k i c)) ` {..<2 ^ k - revn k (unat c)} =
           {b. b < 2 ^ k \<and> revn k (unat c) \<le> revn k b}"
    and "cursorAfter k (2 ^ k - revn k (unat c)) c = 0"
proof -
  let ?n = "revn k (unat c)"
  have n: "?n < 2 ^ k" by (rule revn_less)
  have "(\<lambda>i. unat (cursorAfter k i c)) ` {..<2 ^ k - ?n} = (\<lambda>i. revn k (?n + i)) ` {..<2 ^ k - ?n}"
    using unat_cursorAfter [OF assms] by (intro image_cong) auto
  also have "\<dots> = revn k ` (\<lambda>i. ?n + i) ` {..<2 ^ k - ?n}" by (simp only: image_image)
  also have "(\<lambda>i. ?n + i) ` {..<2 ^ k - ?n} = {?n..<2 ^ k}"
    using n image_add_atLeastLessThan [of ?n 0 "2 ^ k - ?n"] by (simp add: lessThan_atLeast0)
  also have "revn k ` {?n..<2 ^ k} = {b. b < 2 ^ k \<and> ?n \<le> revn k b}"
  proof (intro set_eqI iffI)
    fix b assume "b \<in> {b. b < 2 ^ k \<and> ?n \<le> revn k b}"
    then have "b = revn k (revn k b)" "revn k b \<in> {?n..<2 ^ k}" by (simp_all add: revn_revn revn_less)
    then show "b \<in> revn k ` {?n..<2 ^ k}" by (rule image_eqI)
  qed (auto simp: revn_revn revn_less)
  finally show "(\<lambda>i. unat (cursorAfter k i c)) ` {..<2 ^ k - ?n} = {b. b < 2 ^ k \<and> ?n \<le> revn k b}" .
  have "unat (cursorAfter k (2 ^ k - ?n) c) = 0"
    using unat_cursorAfter [OF assms, of "2 ^ k - ?n"] n by simp
  then show "cursorAfter k (2 ^ k - ?n) c = 0" by (simp add: unat_eq_zero)
qed

text \<open>
  C24: when the table doubles while a scan is \<open>n\<close> steps in, continuing with the same cursor on
  the larger table visits exactly the buckets whose entries were not visited before, and ends
  at 0.
\<close>

theorem cursor_survives_doubling:
  assumes "Suc k < 64" "n < 2 ^ k" "c = cursorAfter k n 0"
  shows "(\<lambda>i. unat (cursorAfter (Suc k) i c)) ` {..<2 ^ Suc k - 2 * n} =
           {b. b < 2 ^ Suc k \<and> b mod 2 ^ k \<notin> (\<lambda>i. unat (cursorAfter k i 0)) ` {..<n}}
         \<and> cursorAfter (Suc k) (2 ^ Suc k - 2 * n) c = 0"
proof -
  have c: "unat c < 2 ^ k" "revn k (unat c) = n"
    using assms cursorAfter_less [of k 0 n] rank_cursorAfter [of k n 0] by simp_all
  then have rank: "revn (Suc k) (unat c) = 2 * n" by (simp only: revn_double)
  have "b mod 2 ^ k \<notin> (\<lambda>i. unat (cursorAfter k i 0)) ` {..<n} \<longleftrightarrow> 2 * n \<le> revn (Suc k) b" for b
  proof -
    have "b mod 2 ^ k \<notin> (\<lambda>i. unat (cursorAfter k i 0)) ` {..<n} \<longleftrightarrow> n \<le> revn k b"
      using assms cursor_visited [of k n "b mod 2 ^ k"] by (simp add: revn_mod not_less)
    also have "\<dots> \<longleftrightarrow> 2 * n \<le> revn (Suc k) b" unfolding revn_snoc by linarith
    finally show ?thesis .
  qed
  then show ?thesis
    using cursor_remaining [of "Suc k" c] assms(1) c(1) unfolding rank by simp
qed

theorem cursor_survives_doubling_witness:
  "(\<lambda>i. unat (cursorAfter (Suc 2) i (cursorAfter 2 3 0))) ` {..<2 ^ Suc 2 - 2 * 3} =
     {b. b < 2 ^ Suc 2 \<and> b mod 2 ^ 2 \<notin> (\<lambda>i. unat (cursorAfter 2 i 0)) ` {..<3}}
   \<and> cursorAfter (Suc 2) (2 ^ Suc 2 - 2 * 3) (cursorAfter 2 3 0) = 0"
  by (rule cursor_survives_doubling) simp_all

section \<open>The generator\<close>

lemma xorshift_inj:
  fixes x y :: "'a::len word"
  assumes "0 < n" "x XOR drop_bit n x = y XOR drop_bit n y"
  shows "x = y"
proof -
  let ?d = "x XOR y"
  have "bit (x XOR drop_bit n x) i = bit (y XOR drop_bit n y) i" for i
    using assms(2) by simp
  then have step: "bit ?d i = bit ?d (n + i)" for i
    by (auto simp: bit_simps)
  have "bit ?d i = bit ?d (i + j * n)" for i j
    by (induction j) (simp_all add: step [of "i + _ * n"] add.left_commute add.commute)
  moreover have "\<not> bit ?d (i + LENGTH('a) * n)" for i
  proof
    assume "bit ?d (i + LENGTH('a) * n)"
    then have "i + LENGTH('a) * n < LENGTH('a)" by (rule bit_imp_le_length)
    moreover have "LENGTH('a) * 1 \<le> LENGTH('a) * n" using assms(1) by (intro mult_le_mono2) simp
    ultimately show False by simp
  qed
  ultimately have "\<not> bit ?d i" for i by blast
  then show ?thesis by (intro bit_word_eqI) (simp add: bit_xor_iff)
qed

lemma mult_unit_inj: "v * w = (1 :: u64) \<Longrightarrow> inj (\<lambda>x. x * v)"
  by (rule inj_on_inverseI [where g = "\<lambda>x. x * w"]) (simp add: mult.assoc)

text \<open>One round of the output function: xor-shift, then multiplication by an odd constant.\<close>

lemma mix_round_inj: "0 < n \<Longrightarrow> v * w = (1 :: u64) \<Longrightarrow> inj (\<lambda>z. (z XOR drop_bit n z) * v)"
  using mult_unit_inj [of v w] by (auto intro!: injI dest: xorshift_inj injD)

lemma splitmix64_state [simp]: "snd (splitmix64 s) = s + 0x9e3779b97f4a7c15"
  by (simp add: splitmix64_def Let_def)

lemma splitmix64_output_inj: "inj (\<lambda>s. fst (splitmix64 s))"
proof -
  let ?f = "\<lambda>z :: u64. (z XOR drop_bit 30 z) * 0xbf58476d1ce4e5b9"
  let ?g = "\<lambda>z :: u64. (z XOR drop_bit 27 z) * 0x94d049bb133111eb"
  let ?h = "\<lambda>z :: u64. z XOR drop_bit 31 z"
  have "inj ?f" by (rule mix_round_inj [where w = "0x96de1b173f119089"]) simp_all
  moreover have "inj ?g" by (rule mix_round_inj [where w = "0x319642b2d24d8ec3"]) simp_all
  moreover have "inj ?h" by (auto intro!: injI dest: xorshift_inj [rotated])
  moreover have "inj (\<lambda>s :: u64. s + 0x9e3779b97f4a7c15)" by simp
  ultimately have "inj (?h \<circ> (?g \<circ> (?f \<circ> (\<lambda>s. s + 0x9e3779b97f4a7c15))))"
    by (intro inj_compose)
  moreover have "(\<lambda>s. fst (splitmix64 s)) = ?h \<circ> (?g \<circ> (?f \<circ> (\<lambda>s. s + 0x9e3779b97f4a7c15)))"
    by (simp add: fun_eq_iff splitmix64_def Let_def)
  ultimately show ?thesis by simp
qed

text \<open>The state after \<open>i\<close> draws.\<close>

definition rngAfter :: "nat \<Rightarrow> u64 \<Rightarrow> u64" where
  "rngAfter i s = ((\<lambda>s. snd (splitmix64 s)) ^^ i) s"

lemma rngAfter_eq: "rngAfter i s = s + of_nat i * 0x9e3779b97f4a7c15"
  by (induction i) (simp_all add: rngAfter_def algebra_simps)

lemma splitmix64_surj: "\<exists>i < 2 ^ 64. fst (splitmix64 (rngAfter i s)) = (w :: u64)"
proof -
  have "surj (\<lambda>s. fst (splitmix64 s))"
    using splitmix64_output_inj by (simp add: finite_UNIV_inj_surj)
  then obtain t where t: "fst (splitmix64 t) = w" by (metis surjD)
  let ?i = "unat ((t - s) * 0xf1de83e19937733d)"
  have "(0xf1de83e19937733d :: u64) * 0x9e3779b97f4a7c15 = 1" by simp
  then have "rngAfter ?i s = t"
    by (simp only: rngAfter_eq of_nat_unat ucast_id mult.assoc mult_1_right) simp
  moreover have "?i < 2 ^ 64" using unsigned_less [of "(t - s) * 0xf1de83e19937733d"] by simp
  ultimately show ?thesis using t by auto
qed

end
