(* ===== verification/Hash.thy ===== *)
theory Hash
  imports Bits
begin

text \<open>
  \<^verbatim>\<open>src/core/hash.cpp\<close>: SipHash-1-3 and the seeded key hash.

  The code consumes the message through a pointer, eight bytes at a time, and assembles the
  last block with a fall-through \<open>switch\<close>. The main lemma, \<open>sipHash13_reference\<close>, states
  that this is the textbook scheme: pad the message with zeros and its length byte to whole
  words, absorb the words one by one, finalise.
\<close>

section \<open>Definitions\<close>

definition rotl :: "u64 \<Rightarrow> nat \<Rightarrow> u64" where
  "rotl x n = push_bit n x OR drop_bit (64 - n) x"

text \<open>Little-endian word of a byte string (at most eight bytes are significant).\<close>

primrec le_word :: "string \<Rightarrow> u64" where
  "le_word [] = 0"
| "le_word (c # cs) = of_char c OR push_bit 8 (le_word cs)"

text \<open>A pointer into the message is the suffix it points at.\<close>

definition load64le :: "string \<Rightarrow> u64" where
  "load64le p = le_word (take 8 p)"

record SipState =
  v0 :: u64
  v1 :: u64
  v2 :: u64
  v3 :: u64

definition sip_round :: "SipState \<Rightarrow> SipState" where
  "sip_round s =
     (let v0 = SipState.v0 s; v1 = SipState.v1 s; v2 = SipState.v2 s; v3 = SipState.v3 s;
          v0 = v0 + v1;
          v1 = rotl v1 13;
          v1 = v1 XOR v0;
          v0 = rotl v0 32;
          v2 = v2 + v3;
          v3 = rotl v3 16;
          v3 = v3 XOR v2;
          v0 = v0 + v3;
          v3 = rotl v3 21;
          v3 = v3 XOR v0;
          v2 = v2 + v1;
          v1 = rotl v1 17;
          v1 = v1 XOR v2;
          v2 = rotl v2 32
      in \<lparr>v0 = v0, v1 = v1, v2 = v2, v3 = v3\<rparr>)"

definition compress :: "SipState \<Rightarrow> u64 \<Rightarrow> SipState" where
  "compress s m =
     (let s = s\<lparr>v3 := v3 s XOR m\<rparr>;
          s = sip_round s
      in s\<lparr>v0 := v0 s XOR m\<rparr>)"

definition sip_init :: "u64 \<Rightarrow> u64 \<Rightarrow> SipState" where
  "sip_init k0 k1 =
     \<lparr>v0 = k0 XOR 0x736f6d6570736575, v1 = k1 XOR 0x646f72616e646f6d,
      v2 = k0 XOR 0x6c7967656e657261, v3 = k1 XOR 0x7465646279746573\<rparr>"

text \<open>The loop \<open>for (; p != end; p += 8)\<close>, counted in blocks.\<close>

primrec sip_blocks :: "nat \<Rightarrow> string \<Rightarrow> SipState \<Rightarrow> SipState \<times> string" where
  "sip_blocks 0 p s = (s, p)"
| "sip_blocks (Suc n) p s = sip_blocks n (drop 8 p) (compress s (load64le p))"

text \<open>The fall-through \<open>switch (len & 7)\<close>: case \<open>i\<close> is entered by every larger one.\<close>

definition sip_tail_case :: "nat \<Rightarrow> nat \<Rightarrow> string \<Rightarrow> u64 \<Rightarrow> u64" where
  "sip_tail_case i n p b =
     (if i \<le> n then b OR push_bit (8 * (i - 1)) (of_char (p ! (i - 1))) else b)"

definition sip_last_block :: "nat \<Rightarrow> string \<Rightarrow> u64" where
  "sip_last_block len p =
     (let n = unat ((of_nat len :: u64) AND 7);
          b = push_bit 56 (of_nat len :: u64);
          b = sip_tail_case 7 n p b;
          b = sip_tail_case 6 n p b;
          b = sip_tail_case 5 n p b;
          b = sip_tail_case 4 n p b;
          b = sip_tail_case 3 n p b;
          b = sip_tail_case 2 n p b
      in sip_tail_case 1 n p b)"

definition sip_finish :: "SipState \<Rightarrow> u64" where
  "sip_finish s =
     (let s = s\<lparr>v2 := v2 s XOR 0xff\<rparr>;
          s = sip_round (sip_round (sip_round s))
      in v0 s XOR v1 s XOR v2 s XOR v3 s)"

definition sipHash13 :: "string \<Rightarrow> u64 \<Rightarrow> u64 \<Rightarrow> u64" where
  "sipHash13 p k0 k1 =
     (let len = length p;
          s = sip_init k0 k1;
          endOff = unat ((of_nat len :: u64) AND NOT 7);
          (s, p) = sip_blocks (endOff div 8) p s;
          s = compress s (sip_last_block len p)
      in sip_finish s)"

definition hashBytes :: "string \<Rightarrow> u64 \<Rightarrow> u64" where
  "hashBytes p seed =
     (let (k0, state) = splitmix64 seed;
          (k1, state) = splitmix64 state
      in sipHash13 p k0 k1)"

section \<open>Evaluation\<close>

named_theorems sip_eval \<open>evaluation of the hash on a literal message\<close>

lemma sip_round_eval [sip_eval]:
  "sip_round \<lparr>v0 = a, v1 = b, v2 = c, v3 = d\<rparr> =
     (let a = a + b; b = rotl b 13 XOR a; a = rotl a 32;
          c = c + d; d = rotl d 16 XOR c; a = a + d; d = rotl d 21 XOR a;
          c = c + b; b = rotl b 17 XOR c; c = rotl c 32
      in \<lparr>v0 = a, v1 = b, v2 = c, v3 = d\<rparr>)"
  by (simp add: sip_round_def Let_def)

lemma compress_eval [sip_eval]:
  "compress \<lparr>v0 = a, v1 = b, v2 = c, v3 = d\<rparr> m =
     (let d = d XOR m; s = sip_round \<lparr>v0 = a, v1 = b, v2 = c, v3 = d\<rparr>
      in s\<lparr>v0 := v0 s XOR m\<rparr>)"
  by (simp add: compress_def Let_def)

lemma sip_blocks_numeral [sip_eval]:
  "sip_blocks (numeral n) p s = sip_blocks (pred_numeral n) (drop 8 p) (compress s (load64le p))"
  by (simp add: numeral_eq_Suc)

lemmas [sip_eval] = sipHash13_def sip_last_block_def sip_tail_case_def load64le_def
  sip_init_def sip_finish_def rotl_def

text \<open>Two of the published reference vectors.\<close>

lemma sipHash13_vector_1: "sipHash13 [CHR 0x00] 0 0 = 0x68A914128E01E473"
  by (simp add: sip_eval)

lemma sipHash13_vector_17: "sipHash13 ''user:1000:session'' 0 0 = 0xF3AEE0B115FA8CB6"
  by (simp add: sip_eval)

section \<open>The padding scheme\<close>

definition sip_pad :: "string \<Rightarrow> string" where
  "sip_pad m = m @ replicate (7 - length m mod 8) NUL @ [char_of (length m)]"

fun sip_words :: "string \<Rightarrow> u64 list" where
  "sip_words [] = []"
| "sip_words (c # cs) = load64le (c # cs) # sip_words (drop 7 cs)"

lemma sip_words_drop: "p \<noteq> [] \<Longrightarrow> sip_words p = load64le p # sip_words (drop 8 p)"
  by (cases p) simp_all

lemma sip_blocks_absorb:
  "8 * n \<le> length p \<Longrightarrow> t \<noteq> [] \<Longrightarrow>
     foldl compress s (sip_words (p @ t)) =
       (case sip_blocks n p s of (s', p') \<Rightarrow> foldl compress s' (sip_words (p' @ t)))
     \<and> snd (sip_blocks n p s) = drop (8 * n) p"
proof (induction n arbitrary: p s)
  case (Suc n)
  have "8 * n \<le> length (drop 8 p)" using Suc.prems(1) by simp
  note IH = Suc.IH [OF this Suc.prems(2), of "compress s (load64le p)"]
  have "sip_words (p @ t) = load64le p # sip_words (drop 8 p @ t)"
    using Suc.prems by (subst sip_words_drop) (simp_all add: load64le_def)
  then show ?case using IH by (simp add: add.commute)
qed simp

lemma length_block_end:
  assumes "len < 2 ^ 64"
  shows "unat ((of_nat len :: u64) AND NOT 7) div 8 = len div 8"
    and "unat ((of_nat len :: u64) AND 7) = len mod 8"
proof -
  have 7: "(7 :: u64) = mask 3" by (simp add: mask_eq_exp_minus_1)
  have "drop_bit 3 ((of_nat len :: u64) AND NOT 7) = drop_bit 3 (of_nat len)"
    unfolding 7 by (rule bit_word_eqI) (auto simp: bit_simps)
  then have "unat (drop_bit 3 ((of_nat len :: u64) AND NOT 7)) = unat (drop_bit 3 (of_nat len :: u64))"
    by simp
  then show "unat ((of_nat len :: u64) AND NOT 7) div 8 = len div 8"
    using assms unfolding unat_drop_bit_eq by (simp add: drop_bit_eq_div unat_of_nat)
  show "unat ((of_nat len :: u64) AND 7) = len mod 8"
    using assms unat_and_mask [of "of_nat len :: u64" 3] by (simp add: unat_of_nat)
qed

lemma push_56_byte: "push_bit 56 (of_char (char_of len)) = push_bit 56 (of_nat len :: u64)"
proof -
  have "(of_char (char_of len :: char) :: u64) = of_nat (of_char (char_of len :: char))"
    by (simp only: of_nat_of_char)
  also have "(of_char (char_of len :: char) :: nat) = take_bit 8 len"
    by (simp add: take_bit_eq_mod)
  finally show ?thesis by (intro bit_word_eqI) (auto simp: bit_simps)
qed

lemma le_word_pad:
  "le_word (p @ replicate j NUL @ [c]) = le_word p OR push_bit (8 * (length p + j)) (of_char c)"
proof (induction p)
  case Nil
  show ?case by (induction j) (simp_all add: push_bit_push_bit)
next
  case (Cons a p)
  then show ?case by (simp add: push_bit_or push_bit_push_bit or.assoc)
qed

text \<open>The padded tail is one word, the block that the \<open>switch\<close> assembles.\<close>

lemma sip_last_block_word:
  assumes "length p = len mod 8" "len < 2 ^ 64"
  shows "sip_last_block len p = le_word (p @ replicate (7 - length p) NUL @ [char_of len])"
proof -
  have n: "unat ((of_nat len :: u64) AND 7) = length p" and "length p < 8"
    using assms by (simp_all add: length_block_end)
  then consider "p = []" | a where "p = [a]" | a b where "p = [a, b]" | a b c where "p = [a, b, c]"
    | a b c d where "p = [a, b, c, d]" | a b c d e where "p = [a, b, c, d, e]"
    | a b c d e f where "p = [a, b, c, d, e, f]" | a b c d e f g where "p = [a, b, c, d, e, f, g]"
    by (auto simp: less_Suc_eq numeral_eq_Suc length_Suc_conv)
  then show ?thesis
    unfolding le_word_pad push_56_byte sip_last_block_def n
    by cases (simp_all add: sip_tail_case_def push_56_byte push_bit_or push_bit_push_bit ac_simps)
qed

text \<open>
  C25: the incremental SipHash-1-3, with its block loop and fall-through tail, equals the
  reference definition: pad the message, cut it into 64-bit words, absorb and finish.
\<close>

theorem sipHash13_reference:
  assumes "length p < 2 ^ 64"
  shows "sipHash13 p k0 k1 = sip_finish (foldl compress (sip_init k0 k1) (sip_words (sip_pad p)))"
proof -
  let ?n = "length p div 8" and ?t = "replicate (7 - length p mod 8) NUL @ [char_of (length p)]"
  obtain s' p' where blocks: "sip_blocks ?n p (sip_init k0 k1) = (s', p')" by fastforce
  have "foldl compress (sip_init k0 k1) (sip_words (p @ ?t)) = foldl compress s' (sip_words (p' @ ?t))"
    and p': "p' = drop (8 * ?n) p"
    using sip_blocks_absorb [of ?n p ?t "sip_init k0 k1"] blocks by simp_all
  moreover have len: "length p' = length p mod 8"
    unfolding p' by (simp add: minus_div_mult_eq_mod [symmetric] mult.commute)
  moreover have "sip_words (p' @ ?t) = [sip_last_block (length p) p']"
    using len assms by (subst sip_words_drop) (simp_all add: load64le_def sip_last_block_word)
  ultimately show ?thesis
    unfolding sipHash13_def Let_def length_block_end(1) [OF assms] blocks sip_pad_def by simp
qed

theorem sipHash13_reference_witness:
  "sipHash13 ''key'' 1 2 = sip_finish (foldl compress (sip_init 1 2) (sip_words (sip_pad ''key'')))"
  by (rule sipHash13_reference) simp

end
