(* ===== verification/Simulation.thy ===== *)
theory Simulation
  imports Prelude
begin

text \<open>
  Sequences of operations on a component against its specification. A component is given by a
  step function that may fail, an invariant, an abstraction and a relational specification of
  one operation; if every single operation is correct, then every sequence of operations runs
  to its end and its replies are those of a run of the specification.
\<close>

fun run_ops :: "('op \<Rightarrow> 's \<Rightarrow> ('r \<times> 's) option) \<Rightarrow> 'op list \<Rightarrow> 's \<Rightarrow> ('r list \<times> 's) option" where
  "run_ops step [] s = Some ([], s)"
| "run_ops step (p # ps) s =
     do { (r, s) \<leftarrow> step p s; (rs, s) \<leftarrow> run_ops step ps s; Some (r # rs, s) }"

inductive spec_run :: "('op \<Rightarrow> 'a \<Rightarrow> 'r \<Rightarrow> 'a \<Rightarrow> bool) \<Rightarrow> 'op list \<Rightarrow> 'a \<Rightarrow> 'r list \<Rightarrow> 'a \<Rightarrow> bool"
  for spec where
  none: "spec_run spec [] m [] m"
| more: "spec p m r m' \<Longrightarrow> spec_run spec ps m' rs m'' \<Longrightarrow> spec_run spec (p # ps) m (r # rs) m''"

inductive_cases spec_run_NilE: "spec_run spec [] m rs m'"
inductive_cases spec_run_ConsE: "spec_run spec (p # ps) m rs m'"

locale simulation =
  fixes step :: "'op \<Rightarrow> 's \<Rightarrow> ('r \<times> 's) option"
    and ok :: "'op \<Rightarrow> bool"
    and state_inv :: "'s \<Rightarrow> bool"
    and abstr :: "'s \<Rightarrow> 'a"
    and spec :: "'op \<Rightarrow> 'a \<Rightarrow> 'r \<Rightarrow> 'a \<Rightarrow> bool"
  assumes step_refines:
    "state_inv s \<Longrightarrow> ok p \<Longrightarrow> \<exists>r s'. step p s = Some (r, s') \<and> state_inv s' \<and> spec p (abstr s) r (abstr s')"
begin

lemma run_refines:
  assumes "state_inv s" "\<forall>p \<in> set ps. ok p"
  shows "\<exists>rs s'. run_ops step ps s = Some (rs, s') \<and> state_inv s' \<and> spec_run spec ps (abstr s) rs (abstr s')"
  using assms
proof (induction ps arbitrary: s)
  case Nil
  then show ?case by (auto intro: spec_run.none)
next
  case (Cons p ps)
  then obtain r s1 where s1: "step p s = Some (r, s1)" "state_inv s1" "spec p (abstr s) r (abstr s1)"
    using step_refines [of s p] by auto
  from Cons.IH [OF s1(2)] Cons.prems(2)
  obtain rs s' where "run_ops step ps s1 = Some (rs, s')" "state_inv s'" "spec_run spec ps (abstr s1) rs (abstr s')"
    by auto
  then show ?case using s1 by (auto intro: spec_run.more)
qed

end

end
