(* ===== verification/Buffer.thy ===== *)
theory Buffer
  imports Simulation
begin

text \<open>
  The byte buffer of \<open>core/buffer.cpp\<close>: a vector of bytes with a read and a write cursor.

  \<^item> The record \<open>Buffer\<close> has the three members of the class; one definition per member
    function. \<open>memcpy\<close> and \<open>memmove\<close> are the bounded copies of \<open>Prelude\<close>, a failed assertion
    is \<open>None\<close>. Cursors are bounded by the size of one allocation, so they are natural numbers.
  \<^item> \<open>Buffer_inv\<close> orders the cursors; \<open>contents\<close> is the abstraction, a queue of bytes.
  \<^item> \<open>byte_queue\<close> is the interface that the encoders and the connection rely on, interpreted on
    the buffer; \<open>buffer_ops\<close> is the simulation of operation sequences by a byte queue.
\<close>

section \<open>Definitions\<close>

record Buffer =
  buf :: string
  readIdx :: nat
  writeIdx :: nat

definition kDefaultCapacity :: nat where
  "kDefaultCapacity = 16 * 1024"

text \<open>\<open>std::vector<char>::resize\<close>: new bytes are zero.\<close>

definition resize :: "nat \<Rightarrow> string \<Rightarrow> string" where
  "resize n xs = take n xs @ replicate (n - length xs) NUL"

definition Buffer_init :: "nat \<Rightarrow> Buffer" where
  "Buffer_init initialCapacity = \<lparr>buf = resize initialCapacity [], readIdx = 0, writeIdx = 0\<rparr>"

definition Buffer_size :: "Buffer \<Rightarrow> nat" where
  "Buffer_size b = writeIdx b - readIdx b"

definition Buffer_readable :: "Buffer \<Rightarrow> string option" where
  "Buffer_readable b = read_at (readIdx b) (Buffer_size b) (buf b)"

definition Buffer_empty :: "Buffer \<Rightarrow> bool" where
  "Buffer_empty b \<longleftrightarrow> readIdx b = writeIdx b"

definition Buffer_capacity :: "Buffer \<Rightarrow> nat" where
  "Buffer_capacity b = length (buf b)"

definition writableBytes :: "Buffer \<Rightarrow> nat" where
  "writableBytes b = length (buf b) - writeIdx b"

definition compact :: "Buffer \<Rightarrow> Buffer option" where
  "compact b =
     do { let curSize = Buffer_size b;
          bs \<leftarrow> read_at (readIdx b) curSize (buf b);
          xs \<leftarrow> write_at 0 bs (buf b);
          Some (b\<lparr>buf := xs, writeIdx := curSize, readIdx := 0\<rparr>) }"

definition ensureWritable :: "nat \<Rightarrow> Buffer \<Rightarrow> Buffer option" where
  "ensureWritable n b =
     (if writableBytes b \<ge> n then Some b
      else do { b \<leftarrow> compact b;
                if writableBytes b \<ge> n then Some b
                else Some (b\<lparr>buf := resize (max (2 * Buffer_capacity b) (Buffer_size b + n)) (buf b)\<rparr>) })"

definition commit :: "nat \<Rightarrow> Buffer \<Rightarrow> Buffer option" where
  "commit n b = do { require (n \<le> writableBytes b); Some (b\<lparr>writeIdx := writeIdx b + n\<rparr>) }"

definition Buffer_consume :: "nat \<Rightarrow> Buffer \<Rightarrow> Buffer option" where
  "Buffer_consume n b =
     do { require (n \<le> Buffer_size b);
          let b = b\<lparr>readIdx := readIdx b + n\<rparr>;
          Some (if Buffer_empty b then b\<lparr>readIdx := 0, writeIdx := 0\<rparr> else b) }"

text \<open>Bytes stored at \<open>writePtr()\<close>, by \<open>memcpy\<close> or by \<open>read(2)\<close>.\<close>

definition write_tail :: "string \<Rightarrow> Buffer \<Rightarrow> Buffer option" where
  "write_tail bs b = do { xs \<leftarrow> write_at (writeIdx b) bs (buf b); Some (b\<lparr>buf := xs\<rparr>) }"

definition Buffer_append :: "string \<Rightarrow> Buffer \<Rightarrow> Buffer option" where
  "Buffer_append bs b =
     (if bs = [] then Some b
      else do { let n = length bs;
                b \<leftarrow> ensureWritable n b;
                b \<leftarrow> write_tail bs b;
                commit n b })"

definition appendByte :: "char \<Rightarrow> Buffer \<Rightarrow> Buffer option" where
  "appendByte c b = do { b \<leftarrow> ensureWritable 1 b; b \<leftarrow> write_tail [c] b; commit 1 b }"

definition Buffer_clear :: "Buffer \<Rightarrow> Buffer" where
  "Buffer_clear b = b\<lparr>readIdx := 0, writeIdx := 0\<rparr>"

section \<open>Invariant and abstraction\<close>

definition Buffer_inv :: "Buffer \<Rightarrow> bool" where
  "Buffer_inv b \<longleftrightarrow> readIdx b \<le> writeIdx b \<and> writeIdx b \<le> length (buf b)"

definition contents :: "Buffer \<Rightarrow> string" where
  "contents b = take (writeIdx b - readIdx b) (drop (readIdx b) (buf b))"

text \<open>The largest capacity an operation leaves: the old one, or under twice what it must hold.\<close>

definition fits :: "nat \<Rightarrow> nat \<Rightarrow> Buffer \<Rightarrow> bool" where
  "fits cap m b \<longleftrightarrow> cap \<le> Buffer_capacity b \<and> Buffer_capacity b \<le> max cap (2 * m)"

named_theorems buffer_defs \<open>the definitions of the buffer\<close>

lemmas buffer_unfold [buffer_defs] =
  Buffer_inv_def contents_def Buffer_size_def Buffer_capacity_def writableBytes_def Buffer_empty_def

lemma length_resize [simp]: "length (resize n xs) = n"
  by (simp add: resize_def)

lemma take_resize: "m \<le> length xs \<Longrightarrow> m \<le> n \<Longrightarrow> take m (resize n xs) = take m xs"
  by (simp add: resize_def min_def)

lemma Buffer_init_inv [simp]: "Buffer_inv (Buffer_init n)" "contents (Buffer_init n) = []"
  by (simp_all add: Buffer_init_def buffer_defs)

lemma Buffer_invE:
  assumes "Buffer_inv b"
  obtains r k where "readIdx b = r" "writeIdx b = r + k" "r + k \<le> length (buf b)"
    "contents b = take k (drop r (buf b))" "length (contents b) = k"
proof -
  obtain k where "writeIdx b = readIdx b + k"
    using assms by (auto simp: Buffer_inv_def le_iff_add)
  then show thesis
    using assms by (intro that [of "readIdx b" k]) (simp_all add: Buffer_inv_def contents_def)
qed

lemma Buffer_size_contents: "Buffer_inv b \<Longrightarrow> Buffer_size b = length (contents b)"
  by (erule Buffer_invE) (simp add: Buffer_size_def)

lemma Buffer_empty_contents: "Buffer_inv b \<Longrightarrow> Buffer_empty b \<longleftrightarrow> contents b = []"
  by (erule Buffer_invE) (auto simp: Buffer_empty_def simp flip: length_0_conv)

lemma Buffer_readable_contents: "Buffer_inv b \<Longrightarrow> Buffer_readable b = Some (contents b)"
  by (simp add: Buffer_readable_def buffer_defs mem_simps)

section \<open>Operations\<close>

lemma compact_ok:
  assumes "Buffer_inv b"
  shows "\<exists>b'. compact b = Some b' \<and> Buffer_inv b' \<and> contents b' = contents b \<and> readIdx b' = 0 \<and>
    length (buf b') = length (buf b)"
proof -
  obtain r k where b: "readIdx b = r" "writeIdx b = r + k" "r + k \<le> length (buf b)"
      "contents b = take k (drop r (buf b))"
    by (rule Buffer_invE [OF assms])
  then show ?thesis
    by (simp add: compact_def Buffer_inv_def Buffer_size_def contents_def mem_simps Let_def)
qed

lemma ensureWritable_ok:
  assumes inv: "Buffer_inv b"
  obtains b' where "ensureWritable n b = Some b'" "Buffer_inv b'" "contents b' = contents b"
    "n \<le> writableBytes b'" "fits (Buffer_capacity b) (length (contents b) + n) b'"
proof -
  obtain c where c: "compact b = Some c" "Buffer_inv c" "contents c = contents b" "readIdx c = 0"
      "length (buf c) = length (buf b)"
    using compact_ok [OF inv] by auto
  have len: "writeIdx c = length (contents b)"
    using c by (metis Buffer_size_contents Buffer_size_def diff_zero)
  let ?d = "c\<lparr>buf := resize (max (2 * Buffer_capacity c) (Buffer_size c + n)) (buf c)\<rparr>"
  consider (tail) "n \<le> writableBytes b" | (room) "\<not> n \<le> writableBytes b" "n \<le> writableBytes c"
    | (grow) "\<not> n \<le> writableBytes b" "\<not> n \<le> writableBytes c" by blast
  then show thesis
  proof cases
    case tail
    then show thesis
      by (intro that [of b]) (use inv in \<open>simp_all add: ensureWritable_def fits_def\<close>)
  next
    case room
    then show thesis
      by (intro that [of c]) (use c in \<open>simp_all add: ensureWritable_def fits_def Buffer_capacity_def\<close>)
  next
    case grow
    have size: "Buffer_size c = length (contents b)" "length (contents b) \<le> length (buf c)"
      using c len by (simp_all add: Buffer_size_contents Buffer_inv_def)
    let ?n = "max (2 * length (buf c)) (length (contents b) + n)"
    have small: "length (buf c) < length (contents b) + n"
      using grow(2) len by (simp add: writableBytes_def)
    have d: "?d = c\<lparr>buf := resize ?n (buf c)\<rparr>"
      by (simp add: size(1) Buffer_capacity_def)
    have at0: "contents (c\<lparr>buf := xs\<rparr>) = take (writeIdx c) xs" for xs
      using c(4) by (simp add: contents_def)
    have "contents ?d = contents (c\<lparr>buf := buf c\<rparr>)"
      unfolding d at0 using size(2) len by (intro take_resize) simp_all
    then have "contents ?d = contents b" using c(3) by simp
    moreover have "Buffer_inv ?d" "n \<le> writableBytes ?d"
      unfolding d using c(4) len by (simp_all add: Buffer_inv_def writableBytes_def)
    moreover have "fits (Buffer_capacity b) (length (contents b) + n) ?d"
      unfolding d using small c(5) by (auto simp: fits_def Buffer_capacity_def)
    ultimately show thesis
      by (intro that [of ?d]) (use c(1) grow in \<open>simp_all add: ensureWritable_def\<close>)
  qed
qed

text \<open>Storing bytes at the tail and publishing them.\<close>

lemma write_commit:
  assumes "Buffer_inv b" "length bs \<le> writableBytes b"
  shows "\<exists>b1 b2. write_tail bs b = Some b1 \<and> commit (length bs) b1 = Some b2 \<and> Buffer_inv b2 \<and>
    contents b2 = contents b @ bs \<and> Buffer_capacity b2 = Buffer_capacity b"
proof -
  obtain r k xs where b: "readIdx b = r" "writeIdx b = r + k" "buf b = xs"
    using assms by (metis Buffer_inv_def le_iff_add)
  have room: "r + k + length bs \<le> length xs"
    using assms b by (simp add: buffer_defs)
  then have rk: "r + k \<le> length xs" by simp
  let ?ys = "take (r + k) xs @ bs @ drop (r + k + length bs) xs"
  have "take (k + length bs) (drop r ?ys) = take k (drop r xs) @ bs"
    using rk by (simp add: drop_take)
  then have "contents (b\<lparr>buf := ?ys, writeIdx := r + k + length bs\<rparr>) = contents b @ bs"
    using b by (simp add: contents_def add.assoc)
  moreover have "write_tail bs b = Some (b\<lparr>buf := ?ys\<rparr>)"
    using b room by (simp add: write_tail_def mem_simps)
  moreover have "commit (length bs) (b\<lparr>buf := ?ys\<rparr>) = Some (b\<lparr>buf := ?ys, writeIdx := r + k + length bs\<rparr>)"
    using b room by (simp add: commit_def writableBytes_def require_def)
  moreover have "Buffer_inv (b\<lparr>buf := ?ys, writeIdx := r + k + length bs\<rparr>)"
      "Buffer_capacity (b\<lparr>buf := ?ys, writeIdx := r + k + length bs\<rparr>) = Buffer_capacity b"
    using b room by (simp_all add: Buffer_inv_def Buffer_capacity_def)
  ultimately show ?thesis by blast
qed

lemma Buffer_append_ok:
  assumes inv: "Buffer_inv b"
  obtains b' where "Buffer_append bs b = Some b'" "Buffer_inv b'" "contents b' = contents b @ bs"
    "fits (Buffer_capacity b) (length (contents b) + length bs) b'"
proof (cases "bs = []")
  case True
  then show thesis
    by (intro that [of b]) (use inv in \<open>simp_all add: Buffer_append_def fits_def\<close>)
next
  case False
  obtain c where c: "ensureWritable (length bs) b = Some c" "Buffer_inv c" "contents c = contents b"
      "length bs \<le> writableBytes c" "fits (Buffer_capacity b) (length (contents b) + length bs) c"
    by (rule ensureWritable_ok [OF inv])
  then obtain c1 c2 where "write_tail bs c = Some c1" "commit (length bs) c1 = Some c2"
      "Buffer_inv c2" "contents c2 = contents b @ bs" "Buffer_capacity c2 = Buffer_capacity c"
    using write_commit by metis
  with c False show thesis
    by (intro that [of c2]) (simp_all add: Buffer_append_def fits_def)
qed

lemma appendByte_append: "appendByte c b = Buffer_append [c] b"
  by (simp add: appendByte_def Buffer_append_def)

lemma Buffer_consume_ok:
  assumes "Buffer_inv b" "n \<le> length (contents b)"
  shows "\<exists>b'. Buffer_consume n b = Some b' \<and> Buffer_inv b' \<and> contents b' = drop n (contents b) \<and>
    buf b' = buf b"
proof -
  obtain r k where b: "readIdx b = r" "writeIdx b = r + k" "r + k \<le> length (buf b)"
      "contents b = take k (drop r (buf b))" "length (contents b) = k"
    by (rule Buffer_invE [OF assms(1)])
  have n: "n \<le> Buffer_size b" using assms b by (simp add: Buffer_size_contents)
  show ?thesis
  proof (cases "n = k")
    case True
    then have "Buffer_consume n b = Some (b\<lparr>readIdx := 0, writeIdx := 0\<rparr>)"
      using n b(1,2) by (simp add: Buffer_consume_def Buffer_empty_def Let_def require_def)
    then show ?thesis using True b(5) by (simp add: Buffer_inv_def contents_def)
  next
    case False
    then have "Buffer_consume n b = Some (b\<lparr>readIdx := r + n\<rparr>)"
      using n b(1,2) by (simp add: Buffer_consume_def Buffer_empty_def Let_def require_def)
    moreover have "contents (b\<lparr>readIdx := r + n\<rparr>) = drop n (contents b)"
      using b(2,4) by (simp add: contents_def drop_take add.commute)
    ultimately show ?thesis using b assms(2) by (simp add: Buffer_inv_def)
  qed
qed

lemma Buffer_consume_guard:
  assumes "Buffer_inv b" "length (contents b) < n"
  shows "Buffer_consume n b = None"
  using assms by (simp add: Buffer_consume_def Buffer_size_contents)

lemma Buffer_clear_ok [simp]: "Buffer_inv (Buffer_clear b)" "contents (Buffer_clear b) = []"
  by (simp_all add: Buffer_clear_def buffer_defs)

section \<open>The interface\<close>

text \<open>
  What a client relies on: \<open>put\<close> adds bytes at the end and cannot fail, \<open>take_off\<close> removes bytes
  that are there from the front. \<open>emits f bs\<close>: the operation \<open>f\<close> does nothing but add \<open>bs\<close>.
\<close>

definition emits :: "('b \<Rightarrow> bool) \<Rightarrow> ('b \<Rightarrow> string) \<Rightarrow> ('b \<Rightarrow> 'b option) \<Rightarrow> string \<Rightarrow> bool" where
  "emits valid view f bs \<longleftrightarrow>
     (\<forall>b. valid b \<longrightarrow> (\<exists>b'. f b = Some b' \<and> valid b' \<and> view b' = view b @ bs))"

locale byte_queue =
  fixes valid :: "'b \<Rightarrow> bool"
    and view :: "'b \<Rightarrow> string"
    and put :: "string \<Rightarrow> 'b \<Rightarrow> 'b option"
    and take_off :: "nat \<Rightarrow> 'b \<Rightarrow> 'b option"
  assumes put_emits: "emits valid view (put bs) bs"
    and take_off_ok: "valid b \<Longrightarrow> n \<le> length (view b) \<Longrightarrow>
      \<exists>b'. take_off n b = Some b' \<and> valid b' \<and> view b' = drop n (view b)"
begin

lemma emits_skip: "emits valid view Some []"
  by (simp add: emits_def)

lemma emits_seq:
  assumes f: "emits valid view f xs" and g: "emits valid view g ys"
  shows "emits valid view (\<lambda>b. Option.bind (f b) g) (xs @ ys)"
  unfolding emits_def
proof (intro allI impI)
  fix b
  assume b: "valid b"
  from f [unfolded emits_def, rule_format, OF b]
  obtain c where c: "f b = Some c" "valid c" "view c = view b @ xs" by blast
  from g [unfolded emits_def, rule_format, OF c(2)]
  obtain d where d: "g c = Some d" "valid d" "view d = view c @ ys" by blast
  show "\<exists>b'. Option.bind (f b) g = Some b' \<and> valid b' \<and> view b' = view b @ xs @ ys"
    using c d by simp
qed

lemma emitsD:
  assumes "emits valid view f bs" "valid b"
  obtains b' where "f b = Some b'" "valid b'" "view b' = view b @ bs"
  using assms by (auto simp: emits_def)

text \<open>Taking everything off again piece by piece yields the bytes in the order they were put.\<close>

lemma drain_all:
  assumes "valid b" "concat xss = view b"
  shows "\<exists>b'. fold (\<lambda>xs r. Option.bind r (take_off (length xs))) xss (Some b) = Some b' \<and>
    valid b' \<and> view b' = []"
  using assms
proof (induction xss arbitrary: b)
  case (Cons xs xss)
  then obtain c where c: "take_off (length xs) b = Some c" "valid c" "view c = drop (length xs) (view b)"
    using take_off_ok [of b "length xs"] by (metis concat.simps(2) length_append le_add1)
  then have "concat xss = view c"
    using Cons.prems(2) by (metis append_eq_conv_conj concat.simps(2))
  from Cons.IH [OF c(2) this] c(1) show ?case by simp
qed simp

end

interpretation bytes: byte_queue Buffer_inv contents Buffer_append Buffer_consume
proof
  show "emits Buffer_inv contents (Buffer_append bs) bs" for bs
    unfolding emits_def by (metis Buffer_append_ok)
  show "\<exists>b'. Buffer_consume n b = Some b' \<and> Buffer_inv b' \<and> contents b' = drop n (contents b)"
    if "Buffer_inv b" "n \<le> length (contents b)" for b n
    using Buffer_consume_ok [OF that] by blast
qed

abbreviation appends :: "(Buffer \<Rightarrow> Buffer option) \<Rightarrow> string \<Rightarrow> bool" where
  "appends \<equiv> emits Buffer_inv contents"

lemma appendByte_emits: "appends (appendByte c) [c]"
  using bytes.put_emits [of "[c]"] by (simp add: emits_def appendByte_append)

section \<open>Sequences of operations\<close>

text \<open>
  The operations of a client: append, reserve room and store what arrived (\<open>read(2)\<close> into the
  tail), take up to \<open>n\<close> bytes off the front (\<open>write(2)\<close> and \<open>consume\<close>), clear. The reply is the
  bytes taken.
\<close>

datatype buffer_op = BAppend string | BByte char | BFill nat string | BTake nat | BClear

fun buffer_step :: "buffer_op \<Rightarrow> Buffer \<Rightarrow> (string \<times> Buffer) option" where
  "buffer_step (BAppend bs) b = do { b \<leftarrow> Buffer_append bs b; Some ([], b) }"
| "buffer_step (BByte c) b = do { b \<leftarrow> appendByte c b; Some ([], b) }"
| "buffer_step (BFill n bs) b =
     do { b \<leftarrow> ensureWritable n b; b \<leftarrow> write_tail bs b; b \<leftarrow> commit (length bs) b; Some ([], b) }"
| "buffer_step (BTake n) b =
     do { v \<leftarrow> Buffer_readable b;
          b \<leftarrow> Buffer_consume (min n (Buffer_size b)) b;
          Some (take n v, b) }"
| "buffer_step BClear b = Some ([], Buffer_clear b)"

fun buffer_op_ok :: "buffer_op \<Rightarrow> bool" where
  "buffer_op_ok (BFill n bs) = (length bs \<le> n)"
| "buffer_op_ok _ = True"

fun queue_step :: "buffer_op \<Rightarrow> string \<Rightarrow> string \<times> string" where
  "queue_step (BAppend bs) q = ([], q @ bs)"
| "queue_step (BByte c) q = ([], q @ [c])"
| "queue_step (BFill n bs) q = ([], q @ bs)"
| "queue_step (BTake n) q = (take n q, drop n q)"
| "queue_step BClear q = ([], [])"

text \<open>The bytes an operation must have room for.\<close>

fun need :: "buffer_op \<Rightarrow> string \<Rightarrow> nat" where
  "need (BAppend bs) q = length q + length bs"
| "need (BByte c) q = length q + 1"
| "need (BFill n bs) q = length q + n"
| "need _ q = 0"

fun queue_run :: "buffer_op list \<Rightarrow> string \<Rightarrow> string list \<times> string" where
  "queue_run [] q = ([], q)"
| "queue_run (p # ps) q =
     (let (r, q) = queue_step p q; (rs, q) = queue_run ps q in (r # rs, q))"

fun peak :: "buffer_op list \<Rightarrow> string \<Rightarrow> nat" where
  "peak [] q = 0"
| "peak (p # ps) q = max (need p q) (peak ps (snd (queue_step p q)))"

definition queue_spec :: "buffer_op \<Rightarrow> string \<times> nat \<Rightarrow> string \<Rightarrow> string \<times> nat \<Rightarrow> bool" where
  "queue_spec p m r m' \<longleftrightarrow>
     (r, fst m') = queue_step p (fst m) \<and> snd m \<le> snd m' \<and> snd m' \<le> max (snd m) (2 * need p (fst m))"

lemma fill_ok:
  assumes inv: "Buffer_inv b" and n: "length bs \<le> n"
  obtains b1 b2 b3 where "ensureWritable n b = Some b1" "write_tail bs b1 = Some b2"
    "commit (length bs) b2 = Some b3" "Buffer_inv b1" "contents b1 = contents b"
    "n \<le> writableBytes b1" "Buffer_inv b3" "contents b3 = contents b @ bs"
    "fits (Buffer_capacity b) (length (contents b) + n) b3"
proof -
  obtain c where c: "ensureWritable n b = Some c" "Buffer_inv c" "contents c = contents b"
      "n \<le> writableBytes c" "fits (Buffer_capacity b) (length (contents b) + n) c"
    by (rule ensureWritable_ok [OF inv])
  then obtain c1 c2 where "write_tail bs c = Some c1" "commit (length bs) c1 = Some c2"
      "Buffer_inv c2" "contents c2 = contents b @ bs" "Buffer_capacity c2 = Buffer_capacity c"
    using write_commit [of c bs] n by auto
  with c show thesis by (intro that [of c c1 c2]) (simp_all add: fits_def)
qed

lemma take_ok:
  assumes inv: "Buffer_inv b"
  shows "\<exists>b'. buffer_step (BTake n) b = Some (take n (contents b), b') \<and> Buffer_inv b' \<and>
    contents b' = drop n (contents b) \<and> Buffer_capacity b' = Buffer_capacity b"
proof -
  obtain c where "Buffer_consume (min n (Buffer_size b)) b = Some c" "Buffer_inv c"
      "contents c = drop (min n (length (contents b))) (contents b)" "buf c = buf b"
    using Buffer_consume_ok [OF inv, of "min n (Buffer_size b)"] by (auto simp: Buffer_size_contents inv)
  then show ?thesis
    by (simp add: Buffer_readable_contents inv Buffer_capacity_def min_def)
qed

interpretation buffer_ops: simulation buffer_step buffer_op_ok Buffer_inv
    "\<lambda>b. (contents b, Buffer_capacity b)" queue_spec
proof
  fix b p
  assume inv: "Buffer_inv b" and ok: "buffer_op_ok p"
  show "\<exists>r b'. buffer_step p b = Some (r, b') \<and> Buffer_inv b' \<and>
      queue_spec p (contents b, Buffer_capacity b) r (contents b', Buffer_capacity b')"
  proof (cases p)
    case (BAppend bs)
    then show ?thesis
      by (rule_tac Buffer_append_ok [OF inv, of bs]) (simp add: queue_spec_def fits_def)
  next
    case (BByte c)
    then show ?thesis
      by (rule_tac Buffer_append_ok [OF inv, of "[c]"])
        (simp add: queue_spec_def fits_def appendByte_append)
  next
    case (BFill n bs)
    then show ?thesis
      using ok by (rule_tac fill_ok [OF inv, of bs n]) (simp_all add: queue_spec_def fits_def)
  next
    case (BTake n)
    then show ?thesis
      using take_ok [OF inv, of n] by (auto simp: queue_spec_def simp del: buffer_step.simps)
  next
    case BClear
    then show ?thesis
      by (simp add: queue_spec_def) (simp add: Buffer_clear_def Buffer_capacity_def)
  qed
qed

lemma queue_spec_run:
  assumes "spec_run queue_spec ps m rs m'"
  shows "(rs, fst m') = queue_run ps (fst m) \<and> snd m \<le> snd m' \<and> snd m' \<le> max (snd m) (2 * peak ps (fst m))"
  using assms
proof (induction rule: spec_run.induct)
  case (more p m r m' ps rs m'')
  from more.hyps(1) have step: "queue_step p (fst m) = (r, fst m')" by (simp add: queue_spec_def)
  from more.IH have tail: "queue_run ps (fst m') = (rs, fst m'')" by (auto dest: sym)
  have "queue_run (p # ps) (fst m) = (r # rs, fst m'')"
    by (simp add: step tail)
  moreover have "snd m \<le> snd m'" "snd m' \<le> max (snd m) (2 * need p (fst m))"
    using more.hyps(1) by (simp_all add: queue_spec_def)
  moreover have "snd m' \<le> snd m''" "snd m'' \<le> max (snd m') (2 * peak ps (fst m'))"
    using more.IH by blast+
  ultimately show ?case by (simp add: step)
qed simp

text \<open>C30: a buffer is a first-in first-out queue of bytes. Every sequence of appends, reads into
  the reserved tail, removals and clears on a new buffer runs without leaving the allocation; the
  bytes taken and the bytes left are those of the queue, through every compaction and growth; the
  capacity never shrinks and never exceeds the initial one or twice the most the buffer ever had
  to hold.\<close>

theorem buffer_refines_queue:
  assumes "\<forall>p \<in> set ps. buffer_op_ok p"
  shows "\<exists>rs b. run_ops buffer_step ps (Buffer_init n) = Some (rs, b) \<and> Buffer_inv b \<and>
    (rs, contents b) = queue_run ps [] \<and> n \<le> Buffer_capacity b \<and> Buffer_capacity b \<le> max n (2 * peak ps [])"
proof -
  obtain rs b where "run_ops buffer_step ps (Buffer_init n) = Some (rs, b)" "Buffer_inv b"
      "spec_run queue_spec ps (contents (Buffer_init n), Buffer_capacity (Buffer_init n)) rs
        (contents b, Buffer_capacity b)"
    using buffer_ops.run_refines [OF _ assms, of "Buffer_init n"] by auto
  moreover have "Buffer_capacity (Buffer_init n) = n" by (simp add: Buffer_init_def Buffer_capacity_def)
  ultimately show ?thesis using queue_spec_run by fastforce
qed

theorem buffer_refines_queue_witness:
  "\<exists>b. run_ops buffer_step [BAppend ''abc'', BTake 2, BFill 4 ''de'', BTake 9] (Buffer_init 4) =
     Some ([[], ''ab'', [], ''cde''], b) \<and> contents b = [] \<and> Buffer_capacity b \<le> 10"
  using buffer_refines_queue [of "[BAppend ''abc'', BTake 2, BFill 4 ''de'', BTake 9]" 4]
  by (auto simp del: buffer_step.simps run_ops.simps)

end
