(* ===== verification/Resp.thy ===== *)
theory Resp
  imports Buffer
begin

text \<open>
  The RESP2 request parser and reply encoders of \<open>core/resp.cpp\<close>.

  \<^item> One definition per function; loops are \<open>lfLoop\<close>, \<open>inlineLoop\<close>, \<open>arrayLoop\<close> and \<open>readIntLoop\<close>.
    \<open>None\<close> is an index outside a view or an array, or a failed assertion; the \<open>std::nullopt\<close> of
    \<open>readInt\<close> and \<open>headerValue\<close> is the \<open>None\<close> of their own \<open>option\<close> result.
  \<^item> Offsets into the input are natural numbers; a count read from the wire is a \<open>u64\<close>, and
    \<open>takeBytes\<close> compares it at that width. \<open>npos\<close> is \<open>None\<close>.
  \<^item> The views in \<open>argv\<close> are the bytes they show; the caller leaves the input buffer alone while
    a command is in use.
\<close>

section \<open>Types and limits\<close>

datatype Error = kArgLength | kBulkLength | kInlineLength

fun errorToString :: "Error \<Rightarrow> string" where
  "errorToString kArgLength = ''ERR Protocol error: invalid multibulk length''"
| "errorToString kBulkLength = ''ERR Protocol error: invalid bulk length''"
| "errorToString kInlineLength = ''ERR Protocol error: too big inline request''"

definition kMaxArgs :: nat where
  "kMaxArgs = 16"

definition kMaxBulkLength :: u64 where
  "kMaxBulkLength = 64 * 1024 * 1024"

definition kMaxInlineLength :: nat where
  "kMaxInlineLength = 64 * 1024"

definition kMaxHeaderLength :: nat where
  "kMaxHeaderLength = 32"

record Command =
  argv :: "string list"
  argc :: nat

definition Command_init :: Command where
  "Command_init = \<lparr>argv = replicate kMaxArgs [], argc = 0\<rparr>"

datatype ParseStatus = kOk | kIncomplete | kProtocolError

record ParseResult =
  status :: ParseStatus
  consumed :: nat
  errtext :: string

datatype LineStatus = kFound | kLineIncomplete | kTooLong | kBadTrailer

record Line =
  lstatus :: LineStatus
  ltext :: string
  lnext :: nat

datatype Framing = kStrict | kInline

section \<open>String views\<close>

definition char_at :: "string \<Rightarrow> nat \<Rightarrow> char option" where
  "char_at s i = (if i < length s then Some (s ! i) else None)"

definition substr :: "string \<Rightarrow> nat \<Rightarrow> nat \<Rightarrow> string option" where
  "substr s pos n = (if pos \<le> length s then Some (take n (drop pos s)) else None)"

fun find_idx :: "(char \<Rightarrow> bool) \<Rightarrow> string \<Rightarrow> nat option" where
  "find_idx P [] = None"
| "find_idx P (c # cs) = (if P c then Some 0 else map_option Suc (find_idx P cs))"

text \<open>\<open>find\<close>, \<open>find_first_of\<close> and \<open>find_first_not_of\<close>, from a position on.\<close>

definition find_from :: "(char \<Rightarrow> bool) \<Rightarrow> nat \<Rightarrow> string \<Rightarrow> nat option" where
  "find_from P from s = map_option ((+) from) (find_idx P (drop from s))"

lemma find_idx_Some:
  "find_idx P s = Some i \<longleftrightarrow> i < length s \<and> P (s ! i) \<and> (\<forall>j<i. \<not> P (s ! j))"
proof (induction s arbitrary: i)
  case (Cons c cs)
  then show ?case by (cases i) (auto simp: less_Suc_eq_0_disj)
qed simp

lemma find_idx_None: "find_idx P s = None \<longleftrightarrow> (\<forall>c \<in> set s. \<not> P c)"
  by (induction s) auto

lemma find_from_Some:
  "find_from P from s = Some i \<Longrightarrow> from \<le> i \<and> i < length s \<and> P (s ! i)"
  by (auto simp: find_from_def find_idx_Some)

section \<open>Lines\<close>

definition incomplete_line :: Line where
  "incomplete_line = \<lparr>lstatus = kLineIncomplete, ltext = [], lnext = 0\<rparr>"

text \<open>The search for the terminator: \<open>None\<close> inside when there is none in the window, else the
  index of the LF and whether a CR stands before it.\<close>

function lfLoop :: "string \<Rightarrow> Framing \<Rightarrow> nat \<Rightarrow> (nat \<times> bool) option option" where
  "lfLoop scan framing from =
     (case find_from (\<lambda>c. c = LF) from scan of
        None \<Rightarrow> Some None
      | Some lf \<Rightarrow>
          do { cr \<leftarrow> (if lf > 0 then do { c \<leftarrow> char_at scan (lf - 1); Some (c = CR) } else Some False);
               if cr \<or> framing = kInline then Some (Some (lf, cr))
               else lfLoop scan framing (lf + 1) })"
  by auto
termination
  by (relation "measure (\<lambda>(scan, fr, from). length scan - from)") (auto dest: find_from_Some)

declare lfLoop.simps [simp del]

definition readLine :: "string \<Rightarrow> nat \<Rightarrow> nat \<Rightarrow> Framing \<Rightarrow> Line option" where
  "readLine inp at maxLen framing =
     (if at \<ge> length inp then Some incomplete_line
      else do { let avail = length inp - at;
                let window = min avail (maxLen + 2);
                scan \<leftarrow> substr inp at window;
                hit \<leftarrow> lfLoop scan framing 0;
                case hit of
                  None \<Rightarrow>
                    do { tooLong \<leftarrow> (if avail \<ge> maxLen + 2 then Some True
                           else if avail = maxLen + 1
                           then do { c \<leftarrow> char_at scan (length scan - 1); Some (c \<noteq> CR) }
                           else Some False);
                         Some (if tooLong then incomplete_line\<lparr>lstatus := kTooLong\<rparr> else incomplete_line) }
                | Some (lf, cr) \<Rightarrow>
                    (let len = (if cr then lf - 1 else lf)
                     in if len > maxLen then Some (incomplete_line\<lparr>lstatus := kTooLong\<rparr>)
                        else do { t \<leftarrow> substr inp at len;
                                  Some \<lparr>lstatus = kFound, ltext = t, lnext = at + lf + 1\<rparr> }) })"

definition takeBytes :: "string \<Rightarrow> nat \<Rightarrow> u64 \<Rightarrow> Line option" where
  "takeBytes inp at len =
     (if at > length inp then Some incomplete_line
      else let avail = of_nat (length inp) - of_nat at :: u64
           in if avail < 2 \<or> len > avail - 2 then Some incomplete_line
              else do { let stop = at + unat len;
                        c \<leftarrow> char_at inp stop;
                        bad \<leftarrow> (if c \<noteq> CR then Some True
                                else do { d \<leftarrow> char_at inp (stop + 1); Some (d \<noteq> LF) });
                        if bad then Some (incomplete_line\<lparr>lstatus := kBadTrailer\<rparr>)
                        else do { t \<leftarrow> substr inp at (unat len);
                                  Some \<lparr>lstatus = kFound, ltext = t, lnext = stop + 2\<rparr> } })"

section \<open>Counts\<close>

abbreviation digit_char :: "char \<Rightarrow> bool" where
  "digit_char c \<equiv> (of_char c :: nat) \<ge> 48 \<and> (of_char c :: nat) \<le> 57"

text \<open>The loop of \<open>readInt\<close>: \<open>kLimit\<close> is the largest \<open>size_t\<close>.\<close>

fun readIntLoop :: "string \<Rightarrow> u64 \<Rightarrow> u64 option" where
  "readIntLoop [] v = Some v"
| "readIntLoop (c # cs) v =
     (if \<not> digit_char c then None
      else let d = of_char c - 48 :: u64
           in if v > (- 1 - d) div 10 then None else readIntLoop cs (v * 10 + d))"

definition readInt :: "string \<Rightarrow> u64 option" where
  "readInt s =
     (case s of
        [] \<Rightarrow> None
      | c # _ \<Rightarrow>
          if s = ''0'' then Some 0
          else if (of_char c :: nat) < 49 \<or> (of_char c :: nat) > 57 then None
          else readIntLoop s 0)"

definition headerValue :: "string \<Rightarrow> char \<Rightarrow> u64 \<Rightarrow> u64 option" where
  "headerValue line type limit =
     (case line of
        [] \<Rightarrow> None
      | c # cs \<Rightarrow>
          if c \<noteq> type then None
          else (case readInt cs of None \<Rightarrow> None | Some v \<Rightarrow> if v > limit then None else Some v))"

section \<open>Commands\<close>

definition incomplete :: ParseResult where
  "incomplete = \<lparr>status = kIncomplete, consumed = 0, errtext = []\<rparr>"

definition fail :: "Error \<Rightarrow> ParseResult" where
  "fail e = incomplete\<lparr>status := kProtocolError, errtext := errorToString e\<rparr>"

definition Command_clear :: "Command \<Rightarrow> Command" where
  "Command_clear cmd = \<lparr>argv = map (\<lambda>_. []) (argv cmd), argc = 0\<rparr>"

definition set_arg :: "nat \<Rightarrow> string \<Rightarrow> Command \<Rightarrow> Command option" where
  "set_arg i v out = do { require (i < length (argv out)); Some (out\<lparr>argv := (argv out)[i := v]\<rparr>) }"

definition publish :: "nat \<Rightarrow> Command \<Rightarrow> Command option" where
  "publish n out =
     do { xs \<leftarrow> write_at n (replicate (kMaxArgs - n) []) (argv out);
          Some \<lparr>argv = xs, argc = n\<rparr> }"

definition blank :: "char \<Rightarrow> bool" where
  "blank c \<longleftrightarrow> c = CHR '' '' \<or> c = TAB"

text \<open>Splitting at blanks; \<open>Inl\<close> is an early return, \<open>Inr\<close> the number of arguments.\<close>

function inlineLoop :: "string \<Rightarrow> nat option \<Rightarrow> nat \<Rightarrow> Command \<Rightarrow> ((ParseResult + nat) \<times> Command) option" where
  "inlineLoop txt pos n out =
     (case Option.bind pos (\<lambda>i. find_from (\<lambda>c. \<not> blank c) i txt) of
        None \<Rightarrow> Some (Inr n, out)
      | Some start \<Rightarrow>
          (let pos = find_from blank start txt
           in if n = kMaxArgs then Some (Inl (fail kArgLength), out)
              else do { w \<leftarrow> substr txt start (case pos of None \<Rightarrow> length txt | Some i \<Rightarrow> i - start);
                        out \<leftarrow> set_arg n w out;
                        inlineLoop txt pos (n + 1) out }))"
  by auto
termination
proof (relation "measure (\<lambda>(txt, pos, n, out). case pos of None \<Rightarrow> 0 | Some i \<Rightarrow> Suc (length txt - i))")
  fix s :: string and pos :: "nat option" and n :: nat and cmd cmd2 :: Command and start pos2 w
  assume start: "Option.bind pos (\<lambda>i. find_from (\<lambda>c. \<not> blank c) i s) = Some start"
    and pos2: "pos2 = find_from blank start s"
  from start obtain i where i: "pos = Some i" "i \<le> start" "start < length s" "\<not> blank (s ! start)"
    by (auto simp: bind_eq_Some_conv dest: find_from_Some)
  then have later: "j > start" if "pos2 = Some j" for j
    using that pos2 find_from_Some [of blank start s j] by (metis le_neq_implies_less)

  show "((s, pos2, n + 1, cmd2), s, pos, n, cmd) \<in>
      measure (\<lambda>(s, pos, n, out). case pos of None \<Rightarrow> 0 | Some i \<Rightarrow> Suc (length s - i))"
  proof (cases pos2)
    case (Some j)
    then have "i < j" "i < length s" using i later [OF Some] by simp_all
    then show ?thesis using i(1) Some by (simp add: diff_less_mono2)
  qed (use i(1) in simp)
qed simp

declare inlineLoop.simps [simp del]

definition parseInline :: "string \<Rightarrow> Command \<Rightarrow> (ParseResult \<times> Command) option" where
  "parseInline inp out =
     do { line \<leftarrow> readLine inp 0 kMaxInlineLength kInline;
          if lstatus line = kLineIncomplete then Some (incomplete, out)
          else if lstatus line = kTooLong then Some (fail kInlineLength, out)
          else do { (r, out) \<leftarrow> inlineLoop (ltext line) (Some 0) 0 out;
                    case r of
                      Inl res \<Rightarrow> Some (res, out)
                    | Inr n \<Rightarrow>
                        do { out \<leftarrow> publish n out;
                             Some (\<lparr>status = kOk, consumed = lnext line, errtext = []\<rparr>, out) } } }"

text \<open>The loop over the elements: \<open>k\<close> of them are left, \<open>i\<close> is the index of the next.\<close>

fun arrayLoop :: "string \<Rightarrow> nat \<Rightarrow> nat \<Rightarrow> nat \<Rightarrow> Command \<Rightarrow> ((ParseResult + nat) \<times> Command) option" where
  "arrayLoop inp 0 i cursor out = Some (Inr cursor, out)"
| "arrayLoop inp (Suc k) i cursor out =
     do { elem \<leftarrow> readLine inp cursor kMaxHeaderLength kStrict;
          if lstatus elem = kLineIncomplete then Some (Inl incomplete, out)
          else if lstatus elem = kTooLong then Some (Inl (fail kBulkLength), out)
          else case headerValue (ltext elem) (CHR ''$'') kMaxBulkLength of
            None \<Rightarrow> Some (Inl (fail kBulkLength), out)
          | Some len \<Rightarrow>
              do { payload \<leftarrow> takeBytes inp (lnext elem) len;
                   if lstatus payload = kLineIncomplete then Some (Inl incomplete, out)
                   else if lstatus payload = kBadTrailer then Some (Inl (fail kBulkLength), out)
                   else do { out \<leftarrow> set_arg i (ltext payload) out;
                             arrayLoop inp k (i + 1) (lnext payload) out } } }"

definition parseArray :: "string \<Rightarrow> Command \<Rightarrow> (ParseResult \<times> Command) option" where
  "parseArray inp out =
     do { header \<leftarrow> readLine inp 0 kMaxHeaderLength kStrict;
          if lstatus header = kLineIncomplete then Some (incomplete, out)
          else if lstatus header = kTooLong then Some (fail kArgLength, out)
          else case headerValue (ltext header) (CHR ''*'') (of_nat kMaxArgs) of
            None \<Rightarrow> Some (fail kArgLength, out)
          | Some count \<Rightarrow>
              do { (r, out) \<leftarrow> arrayLoop inp (unat count) 0 (lnext header) out;
                   case r of
                     Inl res \<Rightarrow> Some (res, out)
                   | Inr cursor \<Rightarrow>
                       do { out \<leftarrow> publish (unat count) out;
                            Some (\<lparr>status = kOk, consumed = cursor, errtext = []\<rparr>, out) } } }"

definition parseCommand :: "string \<Rightarrow> Command \<Rightarrow> (ParseResult \<times> Command) option" where
  "parseCommand inp out =
     (case inp of
        [] \<Rightarrow> Some (incomplete, Command_clear out)
      | c # _ \<Rightarrow>
          do { (res, out) \<leftarrow> (if c = CHR ''*'' then parseArray inp out else parseInline inp out);
               Some (res, if status res \<noteq> kOk then Command_clear out else out) })"

section \<open>Replies\<close>

text \<open>\<open>std::to_chars\<close> in base ten.\<close>

fun dec :: "nat \<Rightarrow> string" where
  "dec n = (if n < 10 then [char_of (48 + n)] else dec (n div 10) @ [char_of (48 + n mod 10)])"

declare dec.simps [simp del]

definition dec_int :: "int \<Rightarrow> string" where
  "dec_int v = (if v < 0 then CHR ''-'' # dec (nat (- v)) else dec (nat v))"

abbreviation CRLF :: string where
  "CRLF \<equiv> [CR, LF]"

definition appendLine :: "char \<Rightarrow> string \<Rightarrow> Buffer \<Rightarrow> Buffer option" where
  "appendLine type body out =
     do { out \<leftarrow> appendByte type out; out \<leftarrow> Buffer_append body out; Buffer_append CRLF out }"

definition appendNumber :: "char \<Rightarrow> int \<Rightarrow> Buffer \<Rightarrow> Buffer option" where
  "appendNumber type v out =
     do { let digits = dec_int v; require (length digits \<le> 24); appendLine type digits out }"

definition reply_simpleString :: "string \<Rightarrow> Buffer \<Rightarrow> Buffer option" where
  "reply_simpleString s out =
     do { require (find_from (\<lambda>c. c = CR \<or> c = LF) 0 s = None); appendLine (CHR ''+'') s out }"

definition reply_error :: "string \<Rightarrow> Buffer \<Rightarrow> Buffer option" where
  "reply_error msg out = appendLine (CHR ''-'') msg out"

definition reply_integer :: "int \<Rightarrow> Buffer \<Rightarrow> Buffer option" where
  "reply_integer v out = appendNumber (CHR '':'') v out"

definition reply_bulk :: "string \<Rightarrow> Buffer \<Rightarrow> Buffer option" where
  "reply_bulk s out =
     do { out \<leftarrow> appendNumber (CHR ''$'') (int (length s)) out;
          out \<leftarrow> Buffer_append s out;
          Buffer_append CRLF out }"

definition reply_nullBulk :: "Buffer \<Rightarrow> Buffer option" where
  "reply_nullBulk out = Buffer_append (''$-1'' @ CRLF) out"

definition reply_arrayHeader :: "nat \<Rightarrow> Buffer \<Rightarrow> Buffer option" where
  "reply_arrayHeader n out = appendNumber (CHR ''*'') (int n) out"

end
