(* ===== verification/Stream_Parser.thy ===== *)
theory Stream_Parser
  imports Prelude
begin

text \<open>
  Parsers that read from the front of an input that is still arriving. A parser answers with a
  value and the number of bytes it used, with a request for more input, or with an error.
  \<open>stable\<close> is the contract of such a parser: an answer that is not a request for more does not
  depend on bytes that have not arrived. The locale \<open>stream_parser\<close> adds that a value always uses
  input; its lemmas are about prefixes and about input split into chunks.
\<close>

datatype ('a, 'e) outcome = Done 'a nat | More | Bad 'e

type_synonym ('a, 'e) parser = "string \<Rightarrow> ('a, 'e) outcome"

definition stable :: "('a, 'e) parser \<Rightarrow> bool" where
  "stable p \<longleftrightarrow>
     (\<forall>r x n t. p r = Done x n \<longrightarrow> n \<le> length r \<and> p (r @ t) = Done x n) \<and>
     (\<forall>r e t. p r = Bad e \<longrightarrow> p (r @ t) = Bad e)"

lemma stableI:
  assumes "\<And>r x n t. p r = Done x n \<Longrightarrow> n \<le> length r"
    and "\<And>r x n t. p r = Done x n \<Longrightarrow> p (r @ t) = Done x n"
    and "\<And>r e t. p r = Bad e \<Longrightarrow> p (r @ t) = Bad e"
  shows "stable p"
  using assms by (simp add: stable_def)

lemma stableD:
  assumes "stable p"
  shows "p r = Done x n \<Longrightarrow> n \<le> length r"
    and "p r = Done x n \<Longrightarrow> p (r @ t) = Done x n"
    and "p r = Bad e \<Longrightarrow> p (r @ t) = Bad e"
  using assms by (simp_all add: stable_def)

section \<open>Sequencing\<close>

definition yield :: "'a \<Rightarrow> ('a, 'e) parser" where
  "yield x r = Done x 0"

definition andThen :: "('a, 'e) parser \<Rightarrow> ('a \<Rightarrow> ('b, 'e) parser) \<Rightarrow> ('b, 'e) parser" where
  "andThen p f r =
     (case p r of
        Done x n \<Rightarrow> (case f x (drop n r) of Done y k \<Rightarrow> Done y (n + k) | More \<Rightarrow> More | Bad e \<Rightarrow> Bad e)
      | More \<Rightarrow> More
      | Bad e \<Rightarrow> Bad e)"

primrec repeat :: "nat \<Rightarrow> ('a, 'e) parser \<Rightarrow> ('a list, 'e) parser" where
  "repeat 0 p = yield []"
| "repeat (Suc n) p = andThen p (\<lambda>x. andThen (repeat n p) (\<lambda>xs. yield (x # xs)))"

lemma stable_yield [intro]: "stable (yield x)"
  by (simp add: stable_def yield_def)

lemma andThen_Done:
  "andThen p f r = Done y m \<longleftrightarrow>
     (\<exists>x n k. p r = Done x n \<and> f x (drop n r) = Done y k \<and> m = n + k)"
  by (auto simp: andThen_def split: outcome.splits)

lemma andThen_Bad:
  "andThen p f r = Bad e \<longleftrightarrow> p r = Bad e \<or> (\<exists>x n. p r = Done x n \<and> f x (drop n r) = Bad e)"
  by (auto simp: andThen_def split: outcome.splits)

lemma stable_andThen [intro]:
  assumes p: "stable p" and f: "\<And>x. stable (f x)"
  shows "stable (andThen p f)"
proof (rule stableI)
  fix r y m t
  assume "andThen p f r = Done y m"
  then obtain x n k where a: "p r = Done x n" "f x (drop n r) = Done y k" "m = n + k"
    by (auto simp: andThen_Done)
  then have le: "n \<le> length r" "k \<le> length (drop n r)"
    using stableD(1) [OF p] stableD(1) [OF f] by blast+
  then show "m \<le> length r" using a(3) by simp
  have "p (r @ t) = Done x n" "f x (drop n r @ t) = Done y k"
    using a stableD(2) [OF p] stableD(2) [OF f] by blast+
  then show "andThen p f (r @ t) = Done y m"
    using le a(3) by (simp add: andThen_def)
next
  fix r e t
  assume "andThen p f r = Bad e"
  then consider "p r = Bad e" | x n where "p r = Done x n" "f x (drop n r) = Bad e"
    by (auto simp: andThen_Bad)
  then show "andThen p f (r @ t) = Bad e"
  proof cases
    case 1
    then show ?thesis using stableD(3) [OF p] by (simp add: andThen_def)
  next
    case 2
    then have "n \<le> length r" "p (r @ t) = Done x n" "f x (drop n r @ t) = Bad e"
      using stableD [OF p] stableD(3) [OF f] by blast+
    then show ?thesis by (simp add: andThen_def)
  qed
qed

lemma stable_repeat [intro]: "stable p \<Longrightarrow> stable (repeat n p)"
  by (induction n) auto

lemma repeat_length: "repeat n p r = Done xs m \<Longrightarrow> length xs = n"
  by (induction n arbitrary: r xs m) (auto simp: yield_def andThen_Done)

section \<open>Consuming a stream\<close>

text \<open>\<open>drains p r xs e rest\<close>: applied to \<open>r\<close> until it asks for more or fails, \<open>p\<close> gives the
  values \<open>xs\<close>, then \<open>e\<close> (\<open>None\<close> for more input), and leaves \<open>rest\<close>.\<close>

inductive drains :: "('a, 'e) parser \<Rightarrow> string \<Rightarrow> 'a list \<Rightarrow> 'e option \<Rightarrow> string \<Rightarrow> bool"
  for p where
  more: "p r = More \<Longrightarrow> drains p r [] None r"
| bad: "p r = Bad e \<Longrightarrow> drains p r [] (Some e) r"
| step: "p r = Done x n \<Longrightarrow> drains p (drop n r) xs e rest \<Longrightarrow> drains p r (x # xs) e rest"

locale stream_parser =
  fixes p :: "('a, 'e) parser"
  assumes steady: "stable p"
    and progress: "p r = Done x n \<Longrightarrow> 0 < n"
begin

lemma prefix_waits:
  assumes "p r = Done x n" "i < n"
  shows "p (take i r) = More"
proof (cases "p (take i r)")
  case (Done y m)
  then have "p (take i r @ drop i r) = Done y m" "m \<le> length (take i r)"
    using stableD [OF steady] by blast+
  then show ?thesis using assms by simp
next
  case (Bad e)
  then have "p (take i r @ drop i r) = Bad e" by (rule stableD(3) [OF steady])
  then show ?thesis using assms by simp
qed

lemma drains_total: "\<exists>xs e rest. drains p r xs e rest"
proof (induction "length r" arbitrary: r rule: less_induct)
  case less
  show ?case
  proof (cases "p r")
    case (Done x n)
    then have "length (drop n r) < length r"
      using progress [OF Done] stableD(1) [OF steady Done] by simp
    from less [OF this] Done show ?thesis by (blast intro: drains.step)
  qed (blast intro: drains.intros)+
qed

lemma drains_unique:
  assumes "drains p r xs e rest" "drains p r ys f rest'"
  shows "ys = xs \<and> f = e \<and> rest' = rest"
  using assms
proof (induction arbitrary: ys f rest' rule: drains.induct)
  case (step r x n xs e rest)
  from step.prems step.hyps(1) obtain zs where "ys = x # zs" "drains p (drop n r) zs f rest'"
    by (cases rule: drains.cases) auto
  with step.IH show ?case by blast
qed (auto elim: drains.cases)

lemma drains_left: "drains p r xs e rest \<Longrightarrow> e = None \<Longrightarrow> p rest = More"
  by (induction rule: drains.induct) simp_all

lemma drains_chunk:
  assumes "drains p r xs e rest" "e = None" "drains p (rest @ t) ys f rest'"
  shows "drains p (r @ t) (xs @ ys) f rest'"
  using assms
proof (induction rule: drains.induct)
  case (step r x n xs e rest)
  then have "drains p (drop n r @ t) (xs @ ys) f rest'" by blast
  moreover have "n \<le> length r" "p (r @ t) = Done x n"
    using stableD [OF steady] step.hyps(1) by blast+
  ultimately show ?case by (simp add: drains.step)
qed simp_all

lemma drains_bad_chunk:
  assumes "drains p r xs e rest" "e = Some err"
  shows "drains p (r @ t) xs e (rest @ t)"
  using assms
proof (induction rule: drains.induct)
  case (bad r e)
  then show ?case by (intro drains.bad stableD(3) [OF steady])
next
  case (step r x n xs e rest)
  moreover have "n \<le> length r" "p (r @ t) = Done x n"
    using stableD [OF steady] step.hyps(1) by blast+
  ultimately show ?case by (simp add: drains.step)
qed simp

end

text \<open>The same input arriving in pieces: the values and the outcome of draining piece by piece,
  carrying what is left over. An error ends it.\<close>

inductive drains_chunks :: "('a, 'e) parser \<Rightarrow> string \<Rightarrow> string list \<Rightarrow> 'a list \<Rightarrow> 'e option \<Rightarrow> string \<Rightarrow> bool"
  for p where
  start: "drains_chunks p left [] [] None left"
| chunk: "drains p (left @ t) xs None rest \<Longrightarrow> drains_chunks p rest ts ys e rest' \<Longrightarrow>
    drains_chunks p left (t # ts) (xs @ ys) e rest'"
| fault: "drains p (left @ t) xs (Some e) rest \<Longrightarrow>
    drains_chunks p left (t # ts) xs (Some e) (rest @ concat ts)"

context stream_parser
begin

lemma chunks_drain:
  assumes "drains_chunks p left ts xs e rest" "drains p left [] None left"
  shows "drains p (left @ concat ts) xs e rest"
  using assms
proof (induction rule: drains_chunks.induct)
  case (chunk left t xs rest ts ys e rest')
  have "drains p rest [] None rest"
    using drains_left [OF chunk.hyps(1) refl] by (rule drains.more)
  then have "drains p (rest @ concat ts) ys e rest'" by (rule chunk.IH)
  from drains_chunk [OF chunk.hyps(1) refl this] show ?case by simp
next
  case (fault left t xs e rest ts)
  from drains_bad_chunk [OF fault.hyps refl, of "concat ts"] show ?case by simp
qed simp

end

end
