(* ===== verification/Resp_Line.thy ===== *)
theory Resp_Line
  imports Resp Stream_Parser
begin

text \<open>
  The primitives of the request parser against their specification: \<open>readLine\<close> finds the first
  terminated line of bounded length, \<open>takeBytes\<close> a payload of given length, \<open>readInt\<close> exactly the
  canonical decimal numerals of 64-bit values. The specifications are parsers on the unread rest
  of the input, and stable when more of it arrives.
\<close>

section \<open>Lines\<close>

definition after_cr :: "string \<Rightarrow> nat \<Rightarrow> bool" where
  "after_cr s i \<longleftrightarrow> 0 < i \<and> s ! (i - 1) = CR"

definition ends :: "Framing \<Rightarrow> string \<Rightarrow> nat \<Rightarrow> bool" where
  "ends fr s i \<longleftrightarrow> s ! i = LF \<and> (fr = kInline \<or> after_cr s i)"

text \<open>The index of the first terminator.\<close>

definition line_end :: "Framing \<Rightarrow> string \<Rightarrow> nat option" where
  "line_end fr s = find (ends fr s) [0..<length s]"

lemma line_end_Some:
  "line_end fr s = Some i \<longleftrightarrow> i < length s \<and> ends fr s i \<and> (\<forall>j<i. \<not> ends fr s j)"
  by (auto simp: line_end_def find_Some_iff)

lemma line_end_None: "line_end fr s = None \<longleftrightarrow> (\<forall>i<length s. \<not> ends fr s i)"
  by (auto simp: line_end_def find_None_iff)

lemma ends_append: "i < length s \<Longrightarrow> ends fr (s @ t) i = ends fr s i"
  by (auto simp: ends_def after_cr_def nth_append)

lemma ends_take: "i < n \<Longrightarrow> i < length s \<Longrightarrow> ends fr (take n s) i = ends fr s i"
  using ends_append [of i "take n s" fr "drop n s"] by simp

lemma line_end_append: "line_end fr s = Some i \<Longrightarrow> line_end fr (s @ t) = Some i"
  by (auto simp: line_end_Some ends_append)

lemma lfLoop_line_end:
  assumes "\<forall>j<from. \<not> ends fr s j"
  shows "lfLoop s fr from = Some (map_option (\<lambda>i. (i, after_cr s i)) (line_end fr s))"
  using assms
proof (induction s fr "from" rule: lfLoop.induct)
  case (1 s fr "from")
  show ?case
  proof (cases "find_from (\<lambda>c. c = LF) from s")
    case None
    then have "\<forall>c \<in> set (drop from s). c \<noteq> LF"
      by (simp add: find_from_def find_idx_None)
    then have "s ! i \<noteq> LF" if "from \<le> i" "i < length s" for i
      using that by (metis Cons_nth_drop_Suc drop_drop in_set_dropD le_add_diff_inverse2 list.set_intros(1) set_drop_subset_set_drop subsetD)
    then have "line_end fr s = None"
      using "1.prems" by (auto simp: line_end_None ends_def not_less dest: leI)
    with None show ?thesis by (simp add: lfLoop.simps)
  next
    case (Some lf)
    then have lf: "from \<le> lf" "lf < length s" "s ! lf = LF"
      by (auto dest: find_from_Some)
    have "s ! j \<noteq> LF" if "from \<le> j" "j < lf" for j
    proof -
      obtain k where k: "j = from + k" using \<open>from \<le> j\<close> by (auto simp: le_iff_add)
      then show ?thesis using Some that lf by (auto simp: find_from_def find_idx_Some)
    qed
    then have before: "\<not> ends fr s j" if "j < lf" for j
      using "1.prems" that by (cases "j < from") (auto simp: ends_def)
    have cr: "(if lf > 0 then do { c \<leftarrow> char_at s (lf - 1); Some (c = CR) } else Some False)
        = Some (after_cr s lf)"
      using lf by (auto simp: after_cr_def char_at_def)
    show ?thesis
    proof (cases "after_cr s lf \<or> fr = kInline")
      case True
      then have "line_end fr s = Some lf"
        using lf before by (auto simp: line_end_Some ends_def)
      then show ?thesis
        using True by (simp add: lfLoop.simps [of s fr "from"] Some cr)
    next
      case False
      then have "\<forall>j<lf + 1. \<not> ends fr s j"
        using before by (auto simp: ends_def less_Suc_eq)
      then have "lfLoop s fr (lf + 1) = Some (map_option (\<lambda>i. (i, after_cr s i)) (line_end fr s))"
        using "1.IH" [OF Some cr] False by simp
      then show ?thesis
        using False by (simp add: lfLoop.simps [of s fr "from"] Some cr)
    qed
  qed
qed

definition line_spec :: "nat \<Rightarrow> Framing \<Rightarrow> (string, unit) parser" where
  "line_spec maxLen fr r =
     (case line_end fr (take (maxLen + 2) r) of
        Some lf \<Rightarrow>
          (let len = (if after_cr r lf then lf - 1 else lf)
           in if len > maxLen then Bad () else Done (take len r) (lf + 1))
      | None \<Rightarrow>
          if length r \<ge> maxLen + 2 \<or> (length r = maxLen + 1 \<and> last r \<noteq> CR) then Bad () else More)"

definition line_result :: "nat \<Rightarrow> (string, unit) outcome \<Rightarrow> Line" where
  "line_result at o' =
     (case o' of
        Done t n \<Rightarrow> \<lparr>lstatus = kFound, ltext = t, lnext = at + n\<rparr>
      | More \<Rightarrow> incomplete_line
      | Bad _ \<Rightarrow> incomplete_line\<lparr>lstatus := kTooLong\<rparr>)"

lemma after_cr_take: "i < n \<Longrightarrow> after_cr (take n s) i = after_cr s i"
  by (auto simp: after_cr_def)

lemma readLine_spec:
  "readLine inp at maxLen fr = Some (line_result at (line_spec maxLen fr (drop at inp)))"
proof (cases "length inp \<le> at")
  case True
  then show ?thesis
    by (simp add: readLine_def line_spec_def line_result_def line_end_def)
next
  case False
  define r where "r = drop at inp"
  define scan where "scan = take (maxLen + 2) r"
  have r: "r \<noteq> []" "length r = length inp - at" "at \<le> length inp" using False by (simp_all add: r_def)
  have scan: "substr inp at (min (length inp - at) (maxLen + 2)) = Some scan"
    using r by (simp add: substr_def scan_def r_def min_def)
  have loop: "lfLoop scan fr 0 = Some (map_option (\<lambda>i. (i, after_cr scan i)) (line_end fr scan))"
    by (rule lfLoop_line_end) simp
  have sub: "substr inp at n = Some (take n r)" for n
    using r by (simp add: substr_def r_def)
  have code: "readLine inp at maxLen fr =
      (case map_option (\<lambda>i. (i, after_cr scan i)) (line_end fr scan) of
         None \<Rightarrow>
           do { tooLong \<leftarrow> (if length r \<ge> maxLen + 2 then Some True
                  else if length r = maxLen + 1
                  then do { c \<leftarrow> char_at scan (length scan - 1); Some (c \<noteq> CR) }
                  else Some False);
                Some (if tooLong then incomplete_line\<lparr>lstatus := kTooLong\<rparr> else incomplete_line) }
       | Some (lf, cr) \<Rightarrow>
           (let len = (if cr then lf - 1 else lf)
            in if len > maxLen then Some (incomplete_line\<lparr>lstatus := kTooLong\<rparr>)
               else do { t \<leftarrow> substr inp at len;
                         Some \<lparr>lstatus = kFound, ltext = t, lnext = at + lf + 1\<rparr> }))"
    using False by (simp only: readLine_def Let_def if_False scan loop bind.simps r(2))
  have spec: "line_spec maxLen fr r =
      (case line_end fr scan of
         Some lf \<Rightarrow>
           (let len = (if after_cr r lf then lf - 1 else lf)
            in if len > maxLen then Bad () else Done (take len r) (lf + 1))
       | None \<Rightarrow>
           if length r \<ge> maxLen + 2 \<or> (length r = maxLen + 1 \<and> last r \<noteq> CR) then Bad () else More)"
    by (simp only: line_spec_def scan_def)
  show ?thesis
  proof (cases "line_end fr scan")
    case None
    have "char_at scan (length scan - 1) = Some (last r)" if "length r = maxLen + 1"
      using that r by (simp add: scan_def char_at_def last_conv_nth)
    then show ?thesis
      unfolding code r_def [symmetric] spec None by (simp add: line_result_def)
  next
    case (Some lf)
    then have "lf < maxLen + 2" by (auto simp: line_end_Some scan_def)
    then have "after_cr scan lf = after_cr r lf" by (simp add: scan_def after_cr_take)
    then show ?thesis
      unfolding code r_def [symmetric] spec Some by (simp add: line_result_def sub Let_def)
  qed
qed

lemma after_cr_append: "i \<le> length s \<Longrightarrow> after_cr (s @ t) i = after_cr s i"
  by (auto simp: after_cr_def nth_append)

lemma line_spec_hit:
  assumes "line_end fr (take (maxLen + 2) r) = Some lf"
  shows "lf < length r" "line_spec maxLen fr (r @ t) = line_spec maxLen fr r"
proof -
  show lf: "lf < length r" using assms by (simp add: line_end_Some)
  have "line_end fr (take (maxLen + 2) (r @ t)) = Some lf"
    using line_end_append [OF assms] by simp
  moreover have "after_cr (r @ t) lf = after_cr r lf" using lf by (simp add: after_cr_append)
  moreover have "lf - 1 \<le> length r" "lf \<le> length r" using lf by simp_all
  ultimately show "line_spec maxLen fr (r @ t) = line_spec maxLen fr r"
    using assms by (simp add: line_spec_def Let_def)
qed

lemma line_spec_none:
  assumes none: "line_end fr (take (maxLen + 2) r) = None"
    and bad: "length r \<ge> maxLen + 2 \<or> (length r = maxLen + 1 \<and> last r \<noteq> CR)"
  shows "line_spec maxLen fr (r @ t) = Bad ()"
proof (cases "length r \<ge> maxLen + 2 \<or> t = []")
  case True
  then show ?thesis using none bad by (auto simp: line_spec_def)
next
  case False
  then have r: "length r = maxLen + 1" "last r \<noteq> CR" "t \<noteq> []" "r \<noteq> []" using bad by auto
  then obtain c t' where t: "t = c # t'" by (cases t) auto
  have scan: "take (maxLen + 2) (r @ t) = r @ [c]" using r(1) t by simp
  have no: "\<not> ends fr r i" if "i < length r" for i
    using none that r(1) by (simp add: line_end_None)
  have cr: "\<not> after_cr (r @ t) (length r)"
    using r by (simp add: after_cr_append) (simp add: after_cr_def last_conv_nth)
  show ?thesis
  proof (cases "line_end fr (r @ [c])")
    case None
    then show ?thesis using r t unfolding line_spec_def scan None by simp
  next
    case (Some lf)
    then have "lf = length r"
      using no by (auto simp: line_end_Some ends_append less_Suc_eq)
    then show ?thesis using r cr unfolding line_spec_def scan Some by simp
  qed
qed

lemma stable_line_spec: "stable (line_spec maxLen fr)"
proof (rule stableI)
  fix r x n t
  assume d: "line_spec maxLen fr r = Done x n"
  then obtain lf where lf: "line_end fr (take (maxLen + 2) r) = Some lf"
    by (auto simp: line_spec_def split: option.splits if_splits)
  then show "line_spec maxLen fr (r @ t) = Done x n" using d by (simp add: line_spec_hit)
  show "n \<le> length r"
    using d lf line_spec_hit(1) [OF lf] by (auto simp: line_spec_def Let_def split: if_splits)
next
  fix r e t
  assume b: "line_spec maxLen fr r = Bad e"
  show "line_spec maxLen fr (r @ t) = Bad e"
  proof (cases "line_end fr (take (maxLen + 2) r)")
    case None
    with b have "length r \<ge> maxLen + 2 \<or> (length r = maxLen + 1 \<and> last r \<noteq> CR)"
      by (auto simp: line_spec_def split: if_splits)
    then show ?thesis using line_spec_none [OF None] by simp
  next
    case (Some lf)
    then show ?thesis using b by (simp add: line_spec_hit)
  qed
qed

lemma line_spec_Done:
  assumes "line_spec maxLen fr r = Done x n"
  shows "0 < n" "length x \<le> maxLen" "n \<le> maxLen + 2"
  using assms by (auto simp: line_spec_def Let_def line_end_Some split: option.splits if_splits)

lemma line_spec_More: "line_spec maxLen fr r = More \<Longrightarrow> length r \<le> maxLen + 1"
  by (auto simp: line_spec_def Let_def split: option.splits if_splits)

text \<open>A text without LF, terminated by CRLF, is read whole.\<close>

lemma line_end_crlf:
  assumes "LF \<notin> set x"
  shows "line_end fr (x @ CRLF) = Some (length x + 1)"
proof -
  have no: "(x @ CRLF) ! j \<noteq> LF" if "j < length x + 1" for j
    using that assms by (auto simp: nth_append nth_Cons' dest: nth_mem)
  have "ends fr (x @ CRLF) (length x + 1)"
    by (simp add: ends_def nth_append after_cr_def)
  then show ?thesis
    using no by (auto simp: line_end_Some) (auto simp: ends_def)
qed

lemma line_spec_crlf:
  assumes "LF \<notin> set x" "length x \<le> maxLen"
  shows "line_spec maxLen fr (x @ CRLF @ t) = Done x (length x + 2)"
proof -
  let ?r = "x @ CRLF @ t"
  have cr: "after_cr ?r (length x + 1)"
    by (simp add: after_cr_def nth_append)
  have "take (maxLen + 2) ?r = (x @ CRLF) @ take (maxLen - length x) t"
    using assms(2) by (simp add: Suc_diff_le)
  then have "line_end fr (take (maxLen + 2) ?r) = Some (length x + 1)"
    by (metis line_end_append line_end_crlf [OF assms(1)])
  then show ?thesis using cr assms(2) by (simp add: line_spec_def)
qed

section \<open>Payloads\<close>

definition payload_spec :: "nat \<Rightarrow> (string, Error) parser" where
  "payload_spec len r =
     (if length r < len + 2 then More
      else if r ! len = CR \<and> r ! (len + 1) = LF then Done (take len r) (len + 2)
      else Bad kBulkLength)"

definition payload_result :: "nat \<Rightarrow> (string, Error) outcome \<Rightarrow> Line" where
  "payload_result at o' =
     (case o' of
        Done t n \<Rightarrow> \<lparr>lstatus = kFound, ltext = t, lnext = at + n\<rparr>
      | More \<Rightarrow> incomplete_line
      | Bad _ \<Rightarrow> incomplete_line\<lparr>lstatus := kBadTrailer\<rparr>)"

lemma stable_payload_spec: "stable (payload_spec len)"
  by (rule stableI) (auto simp: payload_spec_def nth_append split: if_splits)

lemma unat_diff_of_nat:
  assumes "at \<le> n" "n < 2 ^ 64"
  shows "unat (of_nat n - of_nat at :: u64) = n - at"
proof -
  have "(of_nat n - of_nat at :: u64) = of_nat (n - at)" using assms(1) by simp
  then show ?thesis using assms by (simp only: unat_of_nat take_bit_eq_mod) simp
qed

text \<open>The guard of \<open>takeBytes\<close> is exact for every \<open>size_t\<close> length: it subtracts, so nothing wraps.\<close>

lemma takeBytes_guard:
  assumes at: "at \<le> length inp" and inp: "length inp < 2 ^ 64"
  shows "(let avail = of_nat (length inp) - of_nat at :: u64 in avail < 2 \<or> len > avail - 2) \<longleftrightarrow>
    length inp - at < unat len + 2"
proof -
  let ?avail = "of_nat (length inp) - of_nat at :: u64"
  have u: "unat ?avail = length inp - at" using at inp by (rule unat_diff_of_nat)
  have two: "unat (2 :: u64) = 2" by simp
  have "?avail < 2 \<longleftrightarrow> length inp - at < 2"
    unfolding word_less_nat_alt u two ..
  moreover have "len > ?avail - 2 \<longleftrightarrow> unat len > length inp - at - 2" if "\<not> ?avail < 2"
  proof -
    have "unat (?avail - 2) = unat ?avail - 2"
      using that by (simp add: unat_sub_if_size word_less_nat_alt u two)
    then show ?thesis unfolding word_less_nat_alt u by simp
  qed
  ultimately show ?thesis unfolding Let_def by linarith
qed

lemma takeBytes_spec:
  assumes "length inp < 2 ^ 64"
  shows "takeBytes inp at len = Some (payload_result at (payload_spec (unat len) (drop at inp)))"
proof (cases "at \<le> length inp")
  case True
  note guard = takeBytes_guard [OF True assms, of len, unfolded Let_def]
  show ?thesis
  proof (cases "length inp - at < unat len + 2")
    case short: True
    then show ?thesis
      using True guard by (simp add: takeBytes_def payload_spec_def payload_result_def Let_def)
  next
    case False
    then have "char_at inp (at + unat len) = Some (drop at inp ! unat len)"
        "char_at inp (at + unat len + 1) = Some (drop at inp ! (unat len + 1))"
        "substr inp at (unat len) = Some (take (unat len) (drop at inp))"
      using True by (auto simp: char_at_def substr_def add.assoc)
    then show ?thesis
      using True False guard
      by (simp add: takeBytes_def payload_spec_def payload_result_def Let_def)
  qed
next
  case False
  then show ?thesis by (simp add: takeBytes_def payload_spec_def payload_result_def)
qed

section \<open>Counts\<close>

text \<open>The value of a digit string, by Horner's rule.\<close>

definition digit :: "char \<Rightarrow> nat" where
  "digit c = of_char c - 48"

definition horner :: "string \<Rightarrow> nat \<Rightarrow> nat" where
  "horner s v = foldl (\<lambda>v c. v * 10 + digit c) v s"

lemma horner_simps [simp]:
  "horner [] v = v" "horner (c # s) v = horner s (v * 10 + digit c)"
  "horner (s @ t) v = horner t (horner s v)"
  by (simp_all add: horner_def)

lemma horner_mono: "v \<le> horner s v"
proof (induction s arbitrary: v)
  case (Cons c s)
  have "v \<le> v * 10 + digit c" by simp
  also have "\<dots> \<le> horner (c # s) v" using Cons by simp
  finally show ?case .
qed simp

lemma digit_word:
  assumes "digit_char c"
  shows "unat (of_char c - 48 :: u64) = digit c" "digit c \<le> 9"
proof -
  have d: "(of_char c :: u64) = of_nat (of_char c)" by (simp add: of_nat_of_char)
  have "unat (of_nat (of_char c) - of_nat 48 :: u64) = of_char c - 48"
    using assms by (intro unat_diff_of_nat) simp_all
  then show "unat (of_char c - 48 :: u64) = digit c"
    unfolding digit_def d by simp
  show "digit c \<le> 9" using assms unfolding digit_def by linarith
qed

text \<open>The overflow test of the loop is exact.\<close>

lemma overflow_test:
  fixes v d :: u64
  assumes "unat d \<le> 9"
  shows "v > (- 1 - d) div 10 \<longleftrightarrow> unat v * 10 + unat d \<ge> 2 ^ 64"
    and "unat v * 10 + unat d < 2 ^ 64 \<Longrightarrow> unat (v * 10 + d) = unat v * 10 + unat d"
proof -
  have "unat (- 1 :: u64) = 2 ^ 64 - 1"
    by (simp add: unsigned_minus_1_eq_mask mask_eq_exp_minus_1)
  then have "unat (- 1 - d) = 2 ^ 64 - 1 - unat d"
    using assms by (simp add: unat_sub_if_size)
  then have "unat ((- 1 - d) div 10) = (2 ^ 64 - 1 - unat d) div 10"
    by (simp add: unat_div)
  then show "v > (- 1 - d) div 10 \<longleftrightarrow> unat v * 10 + unat d \<ge> 2 ^ 64"
    using assms unfolding word_less_nat_alt by (simp add: div_less_iff_less_mult) linarith
  assume "unat v * 10 + unat d < 2 ^ 64"
  then show "unat (v * 10 + d) = unat v * 10 + unat d"
    by (simp add: unat_word_ariths)
qed

lemma unat_u64: "unat (v :: u64) < 2 ^ 64"
  using unsigned_less [of v] by simp

lemma readIntLoop_Some:
  "readIntLoop s v = Some w \<longleftrightarrow>
     (\<forall>c \<in> set s. digit_char c) \<and> horner s (unat v) < 2 ^ 64 \<and> unat w = horner s (unat v)"
proof (induction s arbitrary: v)
  case Nil
  show ?case using unat_u64 [of v] by (auto simp: word_unat_eq_iff)
next
  case (Cons c s)
  show ?case
  proof (cases "digit_char c")
    case True
    note d = digit_word [OF True]
    note o = overflow_test [of "of_char c - 48" v, unfolded d(1), OF d(2)]
    show ?thesis
    proof (cases "unat v * 10 + digit c < 2 ^ 64")
      case fits: True
      have "readIntLoop (c # s) v = readIntLoop s (v * 10 + (of_char c - 48))"
        using True fits o(1) by (simp add: Let_def)
      then show ?thesis using True Cons o(2) [OF fits] by simp
    next
      case False
      then have "readIntLoop (c # s) v = None" using True o(1) by (simp add: Let_def)
      moreover have "\<not> horner (c # s) (unat v) < 2 ^ 64"
        using False horner_mono [of "unat v * 10 + digit c" s] by simp
      ultimately show ?thesis by (metis option.distinct(1))
    qed
  qed auto
qed

text \<open>Canonical numerals.\<close>

lemma dec_small: "n < 10 \<Longrightarrow> dec n = [char_of (48 + n)]"
  by (simp add: dec.simps)

lemma dec_big: "10 \<le> n \<Longrightarrow> dec n = dec (n div 10) @ [char_of (48 + n mod 10)]"
  by (subst dec.simps) simp

lemma digit_char_of: "d < 10 \<Longrightarrow> digit_char (char_of (48 + d)) \<and> digit (char_of (48 + d)) = d"
  by (simp add: digit_def)

lemma dec_digits: "\<forall>c \<in> set (dec n). digit_char c"
proof (induction n rule: dec.induct)
  case (1 n)
  then show ?case
    by (cases "n < 10") (simp_all add: dec_small dec_big not_less)
qed

lemma dec_horner [simp]: "horner (dec n) 0 = n"
proof (induction n rule: dec.induct)
  case (1 n)
  then show ?case
    by (cases "n < 10") (simp_all add: dec_small dec_big not_less digit_char_of)
qed

lemma dec_nonempty [simp]: "dec n \<noteq> []"
  by (subst dec.simps) simp

lemma dec_lead: "0 < n \<Longrightarrow> (of_char (hd (dec n)) :: nat) \<ge> 49"
proof (induction n rule: dec.induct)
  case (1 n)
  then show ?case
    by (cases "n < 10") (simp_all add: dec_small dec_big not_less)
qed

lemma dec_canonical:
  assumes "s \<noteq> []" "\<forall>c \<in> set s. digit_char c" "(of_char (hd s) :: nat) \<ge> 49"
  shows "s = dec (horner s 0) \<and> 0 < horner s 0"
  using assms
proof (induction s rule: rev_induct)
  case (snoc c s)
  have dc: "digit_char c" using snoc.prems(2) by simp
  then have c: "digit c < 10" "char_of (48 + digit c) = c"
    using digit_word(2) [OF dc] by (simp_all add: digit_def)
  show ?case
  proof (cases "s = []")
    case True
    then show ?thesis
      using snoc.prems(3) c by (simp add: dec_small) (simp add: digit_def)
  next
    case False
    then have s: "s = dec (horner s 0)" "0 < horner s 0" using snoc by auto
    have "10 \<le> horner s 0 * 10 + digit c" using s(2) by simp
    then have "dec (horner s 0 * 10 + digit c) = dec (horner s 0) @ [c]"
      using c by (subst dec_big) simp_all
    then show ?thesis using s by simp
  qed
qed simp

lemma dec_0: "dec 0 = ''0''"
  by (simp add: dec_small char_of_eq_iff take_bit_eq_mod)

lemma readInt_dec: "readInt s = Some v \<longleftrightarrow> s = dec (unat v)"
proof
  assume r: "readInt s = Some v"
  show "s = dec (unat v)"
  proof (cases "s = ''0''")
    case True
    then show ?thesis using r by (simp add: readInt_def dec_0)
  next
    case False
    with r have "s \<noteq> []" "(of_char (hd s) :: nat) \<ge> 49" "readIntLoop s 0 = Some v"
      by (auto simp: readInt_def split: list.splits if_splits)
    then show ?thesis using dec_canonical [of s] by (simp add: readIntLoop_Some)
  qed
next
  assume s: "s = dec (unat v)"
  show "readInt s = Some v"
  proof (cases "unat v = 0")
    case True
    then have "v = 0" by (simp add: unat_eq_0)
    then show ?thesis using s by (simp add: readInt_def dec_0)
  next
    case False
    have lead: "(of_char (hd s) :: nat) \<ge> 49" "(of_char (hd s) :: nat) \<le> 57"
      using dec_lead [of "unat v"] dec_digits [of "unat v"] False s by (auto simp: hd_in_set)
    have "readIntLoop s 0 = Some v"
      using dec_digits [of "unat v"] unat_u64 [of v] by (simp add: readIntLoop_Some s)
    moreover have "s \<noteq> ''0''" using lead by auto
    moreover have "s \<noteq> []" using s by (metis dec_nonempty)
    ultimately show ?thesis using lead by (cases s) (auto simp: readInt_def)
  qed
qed

text \<open>A length or a count on the wire is accepted exactly when it is the canonical decimal
  numeral of a 64-bit value: no sign, no blank, no leading zero, no value past the range.\<close>

theorem readInt_canonical: "readInt s = Some v \<longleftrightarrow> s = dec (unat v)"
  by (rule readInt_dec)

text \<open>C35: \<open>takeBytes\<close> never reads outside the input and is exact for every 64-bit length, values
  near \<open>SIZE_MAX\<close> included: it asks for more exactly when the payload and its terminator are not
  all there, accepts exactly when CRLF follows the payload, and then returns exactly these bytes.\<close>

theorem takeBytes_exact:
  assumes "length inp < 2 ^ 64"
  shows "\<exists>l. takeBytes inp at len = Some l \<and>
    (lstatus l = kLineIncomplete \<longleftrightarrow> length inp < at + unat len + 2) \<and>
    (lstatus l = kFound \<longleftrightarrow>
       at + unat len + 2 \<le> length inp \<and> take 2 (drop (at + unat len) inp) = CRLF) \<and>
    (lstatus l = kFound \<longrightarrow> ltext l = take (unat len) (drop at inp) \<and> lnext l = at + unat len + 2)"
proof -
  define r where "r = drop at inp"
  have two: "take 2 (drop (unat len) r) = CRLF \<longleftrightarrow> r ! unat len = CR \<and> r ! (unat len + 1) = LF"
    if "unat len + 2 \<le> length r"
    using that by (simp add: take_drop_nth_Cons)
  have len: "unat len + 2 \<le> length r \<longleftrightarrow> at + unat len + 2 \<le> length inp" by (auto simp: r_def)
  have "take 2 (drop (at + unat len) inp) = take 2 (drop (unat len) r)"
    by (simp add: r_def add.commute)
  then show ?thesis
    using two len unfolding takeBytes_spec [OF assms] r_def [symmetric]
    by (auto simp: payload_spec_def payload_result_def incomplete_line_def)
qed

theorem takeBytes_exact_witness:
  "takeBytes ''$3abc'' 2 0xFFFFFFFFFFFFFFFF = Some incomplete_line"
proof -
  have "unat (0xFFFFFFFFFFFFFFFF :: u64) = 18446744073709551615" by simp
  then obtain l where "takeBytes ''$3abc'' 2 0xFFFFFFFFFFFFFFFF = Some l" "lstatus l = kLineIncomplete"
    using takeBytes_exact [of "''$3abc''" 2 "0xFFFFFFFFFFFFFFFF"] by auto
  then show ?thesis
    by (auto simp: takeBytes_spec payload_spec_def payload_result_def incomplete_line_def)
qed

end
