(* ===== verification/Resp_Parse.thy ===== *)
theory Resp_Parse
  imports Resp_Line
begin

text \<open>
  \<open>parseCommand\<close> against a grammar. \<open>command_spec\<close> is the request grammar as a parser on the
  unread input: a header line and length-prefixed payloads, or a line of words. \<open>parseCommand_spec\<close>
  is the refinement; the grammar is an instance of \<open>stream_parser\<close>, which gives the behaviour on
  input that is still arriving.
\<close>

section \<open>The grammar\<close>

definition header_spec :: "char \<Rightarrow> u64 \<Rightarrow> Error \<Rightarrow> (u64, Error) parser" where
  "header_spec type limit err r =
     (case line_spec kMaxHeaderLength kStrict r of
        Done t n \<Rightarrow> (case headerValue t type limit of Some v \<Rightarrow> Done v n | None \<Rightarrow> Bad err)
      | More \<Rightarrow> More
      | Bad _ \<Rightarrow> Bad err)"

definition bulk_spec :: "(string, Error) parser" where
  "bulk_spec = andThen (header_spec (CHR ''$'') kMaxBulkLength kBulkLength) (\<lambda>v. payload_spec (unat v))"

definition array_spec :: "(string list, Error) parser" where
  "array_spec = andThen (header_spec (CHR ''*'') (of_nat kMaxArgs) kArgLength) (\<lambda>v. repeat (unat v) bulk_spec)"

function words_of :: "string \<Rightarrow> string list" where
  "words_of s =
     (case dropWhile blank s of
        [] \<Rightarrow> []
      | c # cs \<Rightarrow> (c # takeWhile (\<lambda>c. \<not> blank c) cs) # words_of (dropWhile (\<lambda>c. \<not> blank c) cs))"
  by auto
termination
proof (relation "measure length")
  fix s c cs
  assume "dropWhile blank s = c # cs"
  then have "length (c # cs) \<le> length s" by (metis length_dropWhile_le)
  then show "(dropWhile (\<lambda>c. \<not> blank c) cs, s) \<in> measure length"
    using length_dropWhile_le [of "\<lambda>c. \<not> blank c" cs] by simp
qed simp

declare words_of.simps [simp del]

definition inline_spec :: "(string list, Error) parser" where
  "inline_spec r =
     (case line_spec kMaxInlineLength kInline r of
        Done t n \<Rightarrow> (if length (words_of t) \<le> kMaxArgs then Done (words_of t) n else Bad kArgLength)
      | More \<Rightarrow> More
      | Bad _ \<Rightarrow> Bad kInlineLength)"

definition command_spec :: "(string list, Error) parser" where
  "command_spec r =
     (case r of [] \<Rightarrow> More | c # _ \<Rightarrow> if c = CHR ''*'' then array_spec r else inline_spec r)"

text \<open>What \<open>parseCommand\<close> returns and leaves in \<open>out\<close>.\<close>

definition command_of :: "string list \<Rightarrow> Command" where
  "command_of args = \<lparr>argv = args @ replicate (kMaxArgs - length args) [], argc = length args\<rparr>"

definition parse_answer :: "(string list, Error) outcome \<Rightarrow> ParseResult \<times> Command" where
  "parse_answer o' =
     (case o' of
        Done args n \<Rightarrow> (\<lparr>status = kOk, consumed = n, errtext = []\<rparr>, command_of args)
      | More \<Rightarrow> (incomplete, command_of [])
      | Bad e \<Rightarrow> (fail e, command_of []))"

section \<open>The grammar on a growing input\<close>

lemma stable_header_spec: "stable (header_spec type limit err)"
  by (rule stableI)
    (auto simp: header_spec_def stableD [OF stable_line_spec] split: outcome.splits option.splits
      dest: stableD(1,2,3) [OF stable_line_spec])

lemma stable_bulk_spec: "stable bulk_spec"
  unfolding bulk_spec_def by (intro stable_andThen stable_header_spec stable_payload_spec)

lemma stable_array_spec: "stable array_spec"
  unfolding array_spec_def by (intro stable_andThen stable_header_spec stable_repeat stable_bulk_spec)

lemma stable_inline_spec: "stable inline_spec"
  by (rule stableI)
    (auto simp: inline_spec_def stableD [OF stable_line_spec] split: outcome.splits if_splits
      dest: stableD(1,2,3) [OF stable_line_spec])

lemma header_spec_Done:
  assumes "header_spec type limit err r = Done v n"
  shows "0 < n" "n \<le> kMaxHeaderLength + 2" "unat v \<le> unat limit"
  using assms line_spec_Done [of kMaxHeaderLength kStrict r]
  by (auto simp: header_spec_def headerValue_def word_le_nat_alt not_less
      split: outcome.splits option.splits list.splits if_splits)

interpretation requests: stream_parser command_spec
proof
  show "stable command_spec"
  proof (rule stableI)
    fix r x n t
    assume d: "command_spec r = Done x n"
    then obtain c cs where r: "r = c # cs" by (auto simp: command_spec_def split: list.splits)
    with d show "n \<le> length r" "command_spec (r @ t) = Done x n"
      using stableD [OF stable_array_spec, of r] stableD [OF stable_inline_spec, of r]
      by (auto simp: command_spec_def split: if_splits)
  next
    fix r e t
    assume d: "command_spec r = Bad e"
    then obtain c cs where r: "r = c # cs" by (auto simp: command_spec_def split: list.splits)
    with d show "command_spec (r @ t) = Bad e"
      using stableD(3) [OF stable_array_spec, of r] stableD(3) [OF stable_inline_spec, of r]
      by (auto simp: command_spec_def split: if_splits)
  qed
next
  fix r x n
  assume "command_spec r = Done x n"
  then show "0 < n"
    by (auto simp: command_spec_def array_spec_def inline_spec_def andThen_Done
        dest!: header_spec_Done(1) dest: line_spec_Done(1) split: list.splits if_splits outcome.splits)
qed

section \<open>Refinement\<close>

lemma repeat_Suc:
  "repeat (Suc k) p r =
     (case p r of
        Done x n \<Rightarrow>
          (case repeat k p (drop n r) of Done xs m \<Rightarrow> Done (x # xs) (n + m) | More \<Rightarrow> More | Bad e \<Rightarrow> Bad e)
      | More \<Rightarrow> More
      | Bad e \<Rightarrow> Bad e)"
  by (simp add: andThen_def yield_def split: outcome.split)

declare repeat.simps(2) [simp del]

lemma bulk_spec_unfold:
  "bulk_spec r =
     (case line_spec kMaxHeaderLength kStrict r of
        Done t n \<Rightarrow>
          (case headerValue t (CHR ''$'') kMaxBulkLength of
             None \<Rightarrow> Bad kBulkLength
           | Some v \<Rightarrow>
               (case payload_spec (unat v) (drop n r) of
                  Done x k \<Rightarrow> Done x (n + k) | More \<Rightarrow> More | Bad _ \<Rightarrow> Bad kBulkLength))
      | More \<Rightarrow> More
      | Bad _ \<Rightarrow> Bad kBulkLength)"
  by (simp add: bulk_spec_def andThen_def header_spec_def payload_spec_def split: outcome.split option.split)

text \<open>Consecutive elements of \<open>argv\<close> replaced.\<close>

definition put_args :: "nat \<Rightarrow> string list \<Rightarrow> string list \<Rightarrow> string list" where
  "put_args i xs ys = take i ys @ xs @ drop (i + length xs) ys"

lemma put_args_Nil [simp]: "put_args i [] ys = ys"
  by (simp add: put_args_def)

lemma length_put_args [simp]: "i + length xs \<le> length ys \<Longrightarrow> length (put_args i xs ys) = length ys"
  by (simp add: put_args_def)

lemma put_args_Cons:
  assumes "i < length ys"
  shows "put_args (Suc i) xs (ys[i := x]) = put_args i (x # xs) ys"
  using assms by (simp add: put_args_def upd_conv_take_nth_drop take_Suc_conv_app_nth add.commute)

definition loop_answer :: "nat \<Rightarrow> nat \<Rightarrow> (string list, Error) outcome \<Rightarrow> Command \<Rightarrow>
    (ParseResult + nat) \<times> Command \<Rightarrow> bool" where
  "loop_answer base i o' out res \<longleftrightarrow>
     length (argv (snd res)) = length (argv out) \<and>
     (case o' of
        Done xs n \<Rightarrow> res = (Inr (base + n), out\<lparr>argv := put_args i xs (argv out)\<rparr>)
      | More \<Rightarrow> fst res = Inl incomplete
      | Bad e \<Rightarrow> fst res = Inl (fail e))"

lemma arrayLoop_spec:
  assumes "length inp < 2 ^ 64" "i + k \<le> length (argv out)"
  shows "\<exists>res. arrayLoop inp k i cursor out = Some res \<and>
    loop_answer cursor i (repeat k bulk_spec (drop cursor inp)) out res"
  using assms(2)
proof (induction k arbitrary: i cursor out)
  case 0
  then show ?case by (simp add: loop_answer_def yield_def)
next
  case (Suc k)
  note bulk = bulk_spec_unfold [of "drop cursor inp"] and payload = takeBytes_spec [OF assms(1)]
  show ?case
  proof (cases "line_spec kMaxHeaderLength kStrict (drop cursor inp)")
    case (Done t n)
    show ?thesis
    proof (cases "headerValue t (CHR ''$'') kMaxBulkLength")
      case None
      then show ?thesis
        using Done by (simp add: readLine_spec line_result_def repeat_Suc bulk loop_answer_def)
    next
      case (Some v)
      have pos: "drop n (drop cursor inp) = drop (cursor + n) inp" by (simp add: add.commute)
      show ?thesis
      proof (cases "payload_spec (unat v) (drop (cursor + n) inp)")
        case pay: (Done x m)
        let ?out = "out\<lparr>argv := (argv out)[i := x]\<rparr>"
        obtain res where res: "arrayLoop inp k (i + 1) (cursor + n + m) ?out = Some res"
            "loop_answer (cursor + n + m) (i + 1) (repeat k bulk_spec (drop (cursor + n + m) inp)) ?out res"
          using Suc.IH [of "i + 1" ?out "cursor + n + m"] Suc.prems by auto
        have "arrayLoop inp (Suc k) i cursor out = Some res"
          using Done Some pay res(1) Suc.prems
          by (simp add: readLine_spec line_result_def payload payload_result_def set_arg_def require_def)
        moreover have "repeat (Suc k) bulk_spec (drop cursor inp) =
            (case repeat k bulk_spec (drop (cursor + n + m) inp) of
               Done xs l \<Rightarrow> Done (x # xs) (n + m + l) | More \<Rightarrow> More | Bad e \<Rightarrow> Bad e)"
          unfolding repeat_Suc bulk using Done Some pay pos
          by (simp add: ac_simps cong: outcome.case_cong)
        ultimately show ?thesis
          using res(2) Suc.prems put_args_Cons [of i "argv out" _ x]
          by (auto simp: loop_answer_def split: outcome.splits)
      qed (use Done Some pos in \<open>simp_all add: readLine_spec line_result_def payload
          payload_result_def repeat_Suc bulk loop_answer_def incomplete_line_def\<close>)
    qed
  qed (simp_all add: readLine_spec line_result_def repeat_Suc bulk loop_answer_def
      incomplete_line_def)
qed

text \<open>The words of an inline command.\<close>

lemma find_idx_While:
  "find_idx P s = None \<Longrightarrow> dropWhile (\<lambda>c. \<not> P c) s = [] \<and> takeWhile (\<lambda>c. \<not> P c) s = s"
  "find_idx P s = Some i \<Longrightarrow> dropWhile (\<lambda>c. \<not> P c) s = drop i s \<and> takeWhile (\<lambda>c. \<not> P c) s = take i s"
  by (induction s arbitrary: i) (auto split: if_splits)

definition rest_from :: "nat option \<Rightarrow> string \<Rightarrow> string" where
  "rest_from pos s = (case pos of None \<Rightarrow> [] | Some i \<Rightarrow> drop i s)"

lemma words_of_Nil [simp]: "words_of [] = []"
  by (simp add: words_of.simps)

lemma words_of_step:
  assumes "Option.bind pos (\<lambda>i. find_from (\<lambda>c. \<not> blank c) i s) = Some start"
  shows "words_of (rest_from pos s) =
    take (case find_from blank start s of None \<Rightarrow> length s | Some j \<Rightarrow> j - start) (drop start s) #
      words_of (rest_from (find_from blank start s) s)"
proof -
  obtain i k where i: "pos = Some i" "find_idx (\<lambda>c. \<not> blank c) (drop i s) = Some k" "start = i + k"
    using assms by (auto simp: find_from_def bind_eq_Some_conv)
  have start: "start < length s" "\<not> blank (s ! start)"
    using assms by (auto simp: bind_eq_Some_conv dest: find_from_Some)
  have "dropWhile blank (drop i s) = drop start s"
    using find_idx_While(2) [OF i(2)] by (simp add: i(3) add.commute)
  then have skip: "dropWhile blank (drop i s) = s ! start # drop (Suc start) s"
    using start(1) by (simp add: Cons_nth_drop_Suc)
  show ?thesis
  proof (cases "find_idx blank (drop (Suc start) s)")
    case None
    then have "find_from blank start s = None"
      using start by (simp add: find_from_def flip: Cons_nth_drop_Suc)
    moreover have "words_of (drop i s) = [s ! start # drop (Suc start) s]"
      using find_idx_While(1) [OF None] by (simp add: words_of.simps [of "drop i s"] skip del: dropWhile_eq_Nil_conv takeWhile_eq_all_conv)
    ultimately show ?thesis
      using start(1) by (simp add: rest_from_def i(1) Cons_nth_drop_Suc)
  next
    case (Some m)
    then have "find_from blank start s = Some (start + Suc m)"
      using start by (simp add: find_from_def flip: Cons_nth_drop_Suc)
    moreover have "words_of (drop i s) =
        (s ! start # take m (drop (Suc start) s)) # words_of (drop m (drop (Suc start) s))"
      using find_idx_While(2) [OF Some] by (simp add: words_of.simps [of "drop i s"] skip)
    moreover have "take (Suc m) (drop start s) = s ! start # take m (drop (Suc start) s)"
      using start(1) by (simp flip: Cons_nth_drop_Suc)
    ultimately show ?thesis by (simp add: rest_from_def i(1) add.commute)
  qed
qed

lemma words_of_stop:
  assumes "Option.bind pos (\<lambda>i. find_from (\<lambda>c. \<not> blank c) i s) = None"
  shows "words_of (rest_from pos s) = []"
proof (cases pos)
  case (Some i)
  then have "find_idx (\<lambda>c. \<not> blank c) (drop i s) = None"
    using assms by (simp add: find_from_def)
  then have "dropWhile blank (drop i s) = []"
    by (simp add: find_idx_None)
  then show ?thesis
    using Some by (simp add: rest_from_def words_of.simps del: dropWhile_eq_Nil_conv)
qed (simp add: rest_from_def)

lemma inlineLoop_spec:
  assumes "n \<le> kMaxArgs" "length (argv out) = kMaxArgs"
  shows "\<exists>res. inlineLoop s pos n out = Some res \<and>
    loop_answer n n (let ws = words_of (rest_from pos s)
      in if n + length ws \<le> kMaxArgs then Done ws (length ws) else Bad kArgLength) out res"
  using assms
proof (induction s pos n out rule: inlineLoop.induct)
  case (1 s pos n out)
  show ?case
  proof (cases "Option.bind pos (\<lambda>i. find_from (\<lambda>c. \<not> blank c) i s)")
    case None
    then show ?thesis
      using "1.prems" by (subst inlineLoop.simps) (simp add: words_of_stop loop_answer_def)
  next
    case (Some start)
    define pos' where "pos' = find_from blank start s"
    define w where "w = take (case pos' of None \<Rightarrow> length s | Some j \<Rightarrow> j - start) (drop start s)"
    have start: "start < length s"
      using Some by (auto simp: bind_eq_Some_conv dest: find_from_Some)
    have ws: "words_of (rest_from pos s) = w # words_of (rest_from pos' s)"
      using words_of_step [OF Some] by (simp add: pos'_def w_def)
    show ?thesis
    proof (cases "n = kMaxArgs")
      case True
      then show ?thesis
        using "1.prems" Some by (subst inlineLoop.simps) (simp add: ws loop_answer_def Let_def)
    next
      case False
      then have n: "n < kMaxArgs" using "1.prems" by simp
      let ?out = "out\<lparr>argv := (argv out)[n := w]\<rparr>"
      have sub: "substr s start (case pos' of None \<Rightarrow> length s | Some j \<Rightarrow> j - start) = Some w"
        using start by (simp add: substr_def w_def)
      have arg: "set_arg n w out = Some ?out" using n "1.prems" by (simp add: set_arg_def require_def)
      obtain res where res: "inlineLoop s pos' (n + 1) ?out = Some res"
          "loop_answer (n + 1) (n + 1) (let ws = words_of (rest_from pos' s)
            in if n + 1 + length ws \<le> kMaxArgs then Done ws (length ws) else Bad kArgLength) ?out res"
        using "1.IH" [OF Some pos'_def False sub arg] n "1.prems" by auto
      have "inlineLoop s pos n out = Some res"
        using False Some sub arg res(1)
        by (subst inlineLoop.simps) (simp add: Let_def flip: pos'_def)
      then show ?thesis
        using res(2) "1.prems" n put_args_Cons [of n "argv out" "words_of (rest_from pos' s)" w]
        by (simp add: loop_answer_def ws Let_def split: if_splits)
    qed
  qed
qed

section \<open>The parser\<close>

lemma publish_spec:
  assumes "length args \<le> kMaxArgs" "length (argv out) = kMaxArgs" "argc out = c"
  shows "publish (length args) (out\<lparr>argv := put_args 0 args (argv out)\<rparr>) = Some (command_of args)"
  using assms by (simp add: publish_def command_of_def put_args_def write_at_ok)

lemma Command_clear_spec: "length (argv out) = kMaxArgs \<Longrightarrow> Command_clear out = command_of []"
  by (simp add: Command_clear_def command_of_def map_replicate_const)

lemma parseArray_spec:
  assumes inp: "length inp < 2 ^ 64" and out: "length (argv out) = kMaxArgs"
  shows "\<exists>out'. parseArray inp out = Some (fst (parse_answer (array_spec inp)), out') \<and>
    length (argv out') = kMaxArgs \<and> (\<forall>args n. array_spec inp = Done args n \<longrightarrow> out' = command_of args)"
proof (cases "line_spec kMaxHeaderLength kStrict inp")
  case (Done t n)
  show ?thesis
  proof (cases "headerValue t (CHR ''*'') (of_nat kMaxArgs)")
    case None
    then show ?thesis
      using Done out
      by (simp add: parseArray_def readLine_spec line_result_def array_spec_def andThen_def
        header_spec_def parse_answer_def)
  next
    case (Some v)
    then have h: "header_spec (CHR ''*'') (of_nat kMaxArgs) kArgLength inp = Done v n"
      using Done by (simp add: header_spec_def)
    then have v: "unat v \<le> kMaxArgs"
      using header_spec_Done(3) [OF h] by (simp add: kMaxArgs_def)
    obtain res where res: "arrayLoop inp (unat v) 0 n out = Some res"
        "loop_answer n 0 (repeat (unat v) bulk_spec (drop n inp)) out res"
      using arrayLoop_spec [OF inp, of 0 "unat v" out n] v out by auto
    obtain r out' where [simp]: "res = (r, out')" by (cases res)
    have code: "parseArray inp out =
        (case r of Inl res \<Rightarrow> Some (res, out')
         | Inr cursor \<Rightarrow> do { out \<leftarrow> publish (unat v) out';
                              Some (\<lparr>status = kOk, consumed = cursor, errtext = []\<rparr>, out) })"
      using Done Some res(1) by (cases r) (simp_all add: parseArray_def readLine_spec line_result_def)
    show ?thesis
    proof (cases "repeat (unat v) bulk_spec (drop n inp)")
      case items: (Done xs m)
      then have "publish (unat v) out' = Some (command_of xs)"
        using res(2) publish_spec [of xs out] repeat_length [OF items] v out by (auto simp: loop_answer_def)
      then show ?thesis
        using items res(2) code h repeat_length [OF items] v
        by (simp add: loop_answer_def array_spec_def andThen_def parse_answer_def command_of_def)
    qed (use res(2) code h out in \<open>simp_all add: loop_answer_def array_spec_def andThen_def parse_answer_def\<close>)
  qed
qed (use out in \<open>simp_all add: parseArray_def readLine_spec line_result_def array_spec_def andThen_def
    header_spec_def parse_answer_def incomplete_line_def\<close>)

lemma parseInline_spec:
  assumes out: "length (argv out) = kMaxArgs"
  shows "\<exists>out'. parseInline inp out = Some (fst (parse_answer (inline_spec inp)), out') \<and>
    length (argv out') = kMaxArgs \<and> (\<forall>args n. inline_spec inp = Done args n \<longrightarrow> out' = command_of args)"
proof (cases "line_spec kMaxInlineLength kInline inp")
  case (Done t n)
  obtain r out' where res: "inlineLoop t (Some 0) 0 out = Some (r, out')"
      "loop_answer 0 0 (let ws = words_of t
        in if length ws \<le> kMaxArgs then Done ws (length ws) else Bad kArgLength) out (r, out')"
    using inlineLoop_spec [of 0 out t "Some 0"] out by (auto simp: rest_from_def)
  have code: "parseInline inp out =
      (case r of Inl res \<Rightarrow> Some (res, out')
       | Inr m \<Rightarrow> do { out \<leftarrow> publish m out'; Some (\<lparr>status = kOk, consumed = n, errtext = []\<rparr>, out) })"
    using Done res(1) by (cases r) (simp_all add: parseInline_def readLine_spec line_result_def)
  show ?thesis
  proof (cases "length (words_of t) \<le> kMaxArgs")
    case True
    then have "publish (length (words_of t)) out' = Some (command_of (words_of t))"
      using res(2) publish_spec [of "words_of t" out] out by (auto simp: loop_answer_def Let_def)
    then show ?thesis
      using True res(2) code Done by (simp add: loop_answer_def Let_def inline_spec_def parse_answer_def command_of_def)
  next
    case False
    then show ?thesis
      using res(2) code Done out by (simp add: loop_answer_def Let_def inline_spec_def parse_answer_def)
  qed
qed (use out in \<open>simp_all add: parseInline_def readLine_spec line_result_def inline_spec_def
    parse_answer_def incomplete_line_def\<close>)

lemma parseCommand_spec:
  assumes "length inp < 2 ^ 64" "length (argv out) = kMaxArgs"
  shows "parseCommand inp out = Some (parse_answer (command_spec inp))"
proof (cases inp)
  case Nil
  then show ?thesis
    using assms by (simp add: parseCommand_def command_spec_def parse_answer_def Command_clear_spec)
next
  case (Cons c cs)
  obtain out' where sub: "(if c = CHR ''*'' then parseArray inp out else parseInline inp out) =
        Some (fst (parse_answer (command_spec inp)), out')" "length (argv out') = kMaxArgs"
      "\<forall>args n. command_spec inp = Done args n \<longrightarrow> out' = command_of args"
    using parseArray_spec [OF assms] parseInline_spec [OF assms(2), of inp] Cons
    by (cases "c = CHR ''*''") (auto simp: command_spec_def)
  have "parseCommand inp out = (let res = fst (parse_answer (command_spec inp))
      in Some (res, if status res \<noteq> kOk then Command_clear out' else out'))"
    using sub(1) Cons by (cases "c = CHR ''*''") (simp_all add: parseCommand_def Let_def)
  then show ?thesis
    using sub(2,3) by (cases "command_spec inp")
      (simp_all add: parse_answer_def incomplete_def fail_def Command_clear_spec)
qed

text \<open>Commands encoded as arrays of bulk strings, the form clients send.\<close>

definition bulk_bytes :: "string \<Rightarrow> string" where
  "bulk_bytes s = CHR ''$'' # dec (length s) @ CRLF @ s @ CRLF"

definition request_bytes :: "string list \<Rightarrow> string" where
  "request_bytes args = CHR ''*'' # dec (length args) @ CRLF @ concat (map bulk_bytes args)"

lemma dec_no_LF: "LF \<notin> set (dec n)"
  using dec_digits [of n] by fastforce

lemma dec_length: "n < 10 ^ Suc k \<Longrightarrow> length (dec n) \<le> Suc k"
proof (induction k arbitrary: n)
  case 0
  then show ?case by (simp add: dec_small)
next
  case (Suc k)
  show ?case
  proof (cases "n < 10")
    case True
    then show ?thesis by (simp add: dec_small)
  next
    case False
    then have "n div 10 < 10 ^ Suc k" using Suc.prems by (simp add: div_less_iff_less_mult)
    then show ?thesis using Suc.IH False by (simp add: dec_big)
  qed
qed

lemma unat_of_nat_u64: "n < 2 ^ 64 \<Longrightarrow> unat (of_nat n :: u64) = n"
  by (simp only: unat_of_nat take_bit_eq_mod) simp

lemma drop_header: "drop (length d + 3) (c # d @ CR # LF # t) = t"
  by (simp add: numeral_3_eq_3)

lemma header_spec_bytes:
  assumes n: "n \<le> unat limit" and type: "type \<noteq> LF"
  shows "header_spec type limit err (type # dec n @ CRLF @ t) = Done (of_nat n) (length (dec n) + 3)"
proof -
  have lim: "n < 2 ^ 64" using n unat_u64 [of limit] by simp
  then have "length (dec n) \<le> 20" using dec_length [of n 19] by simp
  then have "line_spec kMaxHeaderLength kStrict ((type # dec n) @ CRLF @ t) = Done (type # dec n) (length (type # dec n) + 2)"
    using type dec_no_LF by (intro line_spec_crlf) (simp_all add: kMaxHeaderLength_def)
  moreover have "readInt (dec n) = Some (of_nat n)"
    using lim by (simp add: readInt_dec unat_of_nat_u64)
  ultimately show ?thesis
    using n lim by (simp add: header_spec_def headerValue_def word_less_nat_alt unat_of_nat_u64)
qed

lemma payload_spec_bytes: "payload_spec (length s) (s @ CR # LF # t) = Done s (length s + 2)"
  by (simp add: payload_spec_def nth_append)

lemma bulk_spec_bytes:
  assumes "length s \<le> unat kMaxBulkLength"
  shows "bulk_spec (bulk_bytes s @ t) = Done s (length (bulk_bytes s))"
proof -
  have "header_spec (CHR ''$'') kMaxBulkLength kBulkLength (bulk_bytes s @ t) =
      Done (of_nat (length s)) (length (dec (length s)) + 3)"
    using header_spec_bytes [OF assms, of "CHR ''$''" kBulkLength "s @ CRLF @ t"]
    by (simp add: bulk_bytes_def)
  moreover have "drop (length (dec (length s)) + 3) (bulk_bytes s @ t) = s @ CRLF @ t"
    by (simp add: bulk_bytes_def drop_header)
  moreover have "unat (of_nat (length s) :: u64) = length s"
    using assms unat_u64 [of kMaxBulkLength] by (intro unat_of_nat_u64) simp
  ultimately show ?thesis
    by (simp add: bulk_spec_def andThen_def payload_spec_bytes) (simp add: bulk_bytes_def)
qed

lemma repeat_bulk_bytes:
  assumes "\<forall>s \<in> set args. length s \<le> unat kMaxBulkLength"
  shows "repeat (length args) bulk_spec (concat (map bulk_bytes args) @ t) =
    Done args (length (concat (map bulk_bytes args)))"
  using assms
proof (induction args)
  case (Cons s args)
  then show ?case by (simp add: repeat_Suc bulk_spec_bytes)
qed (simp add: yield_def)

lemma command_spec_request:
  assumes "length args \<le> kMaxArgs" "\<forall>s \<in> set args. length s \<le> unat kMaxBulkLength"
  shows "command_spec (request_bytes args @ t) = Done args (length (request_bytes args))"
proof -
  have lim: "unat (of_nat kMaxArgs :: u64) = kMaxArgs" by (simp add: kMaxArgs_def)
  have "header_spec (CHR ''*'') (of_nat kMaxArgs) kArgLength (request_bytes args @ t) =
      Done (of_nat (length args)) (length (dec (length args)) + 3)"
    using header_spec_bytes [of "length args" "of_nat kMaxArgs" "CHR ''*''" kArgLength
        "concat (map bulk_bytes args) @ t"] assms(1) lim
    by (simp add: request_bytes_def)
  moreover have "drop (length (dec (length args)) + 3) (request_bytes args @ t) =
      concat (map bulk_bytes args) @ t"
    by (simp add: request_bytes_def drop_header)
  moreover have "unat (of_nat (length args) :: u64) = length args"
    using assms(1) by (intro unat_of_nat_u64) (simp add: kMaxArgs_def)
  ultimately have "array_spec (request_bytes args @ t) = Done args (length (request_bytes args))"
    by (simp add: array_spec_def andThen_def repeat_bulk_bytes assms(2)) (simp add: request_bytes_def)
  then show ?thesis by (simp add: command_spec_def request_bytes_def)
qed

section \<open>Sizes\<close>

definition bulk_room :: nat where
  "bulk_room = kMaxHeaderLength + 2 + unat kMaxBulkLength + 2"

lemma bulk_spec_Done:
  assumes "bulk_spec r = Done x n"
  shows "length x \<le> unat kMaxBulkLength" "n \<le> bulk_room"
proof -
  obtain v k m where h: "header_spec (CHR ''$'') kMaxBulkLength kBulkLength r = Done v k"
      and p: "payload_spec (unat v) (drop k r) = Done x m" and n: "n = k + m"
    using assms by (auto simp: bulk_spec_def andThen_Done)
  have "length x \<le> unat v" "m = unat v + 2"
    using p by (auto simp: payload_spec_def split: if_splits)
  then show "length x \<le> unat kMaxBulkLength" "n \<le> bulk_room"
    using header_spec_Done [OF h] n by (simp_all add: bulk_room_def)
qed

lemma bulk_spec_More: "bulk_spec r = More \<Longrightarrow> length r < bulk_room"
  using header_spec_Done [of "CHR ''$''" kMaxBulkLength kBulkLength r] line_spec_More [of kMaxHeaderLength kStrict r]
  by (fastforce simp: bulk_room_def bulk_spec_def andThen_def payload_spec_def header_spec_def
      split: outcome.splits option.splits if_splits)

lemma repeat_bulk_sizes:
  "repeat k bulk_spec r = Done xs n \<Longrightarrow> (\<forall>x \<in> set xs. length x \<le> unat kMaxBulkLength)"
  "repeat k bulk_spec r = More \<Longrightarrow> length r \<le> k * bulk_room"
proof (induction k arbitrary: r xs n)
  case 0
  { case 1 then show ?case by (simp add: yield_def) }
  { case 2 then show ?case by (simp add: yield_def) }
next
  case (Suc k)
  { case 1
    then show ?case using Suc.IH(1) by (fastforce simp: repeat_Suc dest: bulk_spec_Done(1) split: outcome.splits) }
  { case 2
    show ?case
    proof (cases "bulk_spec r")
      case (Done x m)
      then have "length (drop m r) \<le> k * bulk_room"
        using 2 Done by (intro Suc.IH(2)) (simp add: repeat_Suc split: outcome.splits)
      moreover have "m \<le> bulk_room" using bulk_spec_Done(2) [OF Done] .
      ultimately show ?thesis by simp
    next
      case More
      then show ?thesis using bulk_spec_More by fastforce
    qed (use 2 in \<open>simp add: repeat_Suc\<close>) }
qed

lemma words_of_length: "w \<in> set (words_of s) \<Longrightarrow> length w \<le> length s"
proof (induction s rule: words_of.induct)
  case (1 s)
  show ?case
  proof (cases "dropWhile blank s")
    case Nil
    then show ?thesis using "1.prems" by (simp add: words_of.simps del: dropWhile_eq_Nil_conv)
  next
    case (Cons c cs)
    have "length (c # cs) \<le> length s" by (metis Cons length_dropWhile_le)
    moreover have "length w \<le> length (c # cs)"
    proof (cases "w = c # takeWhile (\<lambda>c. \<not> blank c) cs")
      case True
      then show ?thesis by (simp add: length_takeWhile_le)
    next
      case False
      then have "w \<in> set (words_of (dropWhile (\<lambda>c. \<not> blank c) cs))"
        using "1.prems" Cons by (subst (asm) words_of.simps) simp
      from "1.IH" [OF Cons this] show ?thesis
        using length_dropWhile_le [of "\<lambda>c. \<not> blank c" cs] by simp
    qed
    ultimately show ?thesis by simp
  qed
qed

lemma command_spec_Done:
  assumes "command_spec r = Done args n"
  shows "length args \<le> kMaxArgs" "\<forall>x \<in> set args. length x \<le> unat kMaxBulkLength"
proof -
  have small: "kMaxInlineLength \<le> unat kMaxBulkLength" "unat (of_nat kMaxArgs :: u64) = kMaxArgs"
    by (simp_all add: kMaxInlineLength_def kMaxBulkLength_def kMaxArgs_def)
  from assms consider "array_spec r = Done args n" | "inline_spec r = Done args n"
    by (auto simp: command_spec_def split: list.splits if_splits)
  then have "length args \<le> kMaxArgs \<and> (\<forall>x \<in> set args. length x \<le> unat kMaxBulkLength)"
  proof cases
    case 1
    then show ?thesis
      using small(2) by (auto simp: array_spec_def andThen_Done dest!: header_spec_Done(3)
        dest: repeat_length repeat_bulk_sizes(1))
  next
    case 2
    then obtain t where t: "line_spec kMaxInlineLength kInline r = Done t n" "args = words_of t"
        "length args \<le> kMaxArgs"
      by (auto simp: inline_spec_def split: outcome.splits if_splits)
    then show ?thesis
      using line_spec_Done(2) [OF t(1)] small(1) by (auto dest: words_of_length)
  qed
  then show "length args \<le> kMaxArgs" "\<forall>x \<in> set args. length x \<le> unat kMaxBulkLength" by blast+
qed

lemma command_spec_More:
  assumes "command_spec r = More"
  shows "length r \<le> kMaxHeaderLength + 2 + kMaxArgs * bulk_room"
proof -
  have small: "kMaxInlineLength + 1 \<le> kMaxArgs * bulk_room" "unat (of_nat kMaxArgs :: u64) = kMaxArgs"
    by (simp_all add: bulk_room_def kMaxHeaderLength_def kMaxInlineLength_def kMaxBulkLength_def kMaxArgs_def)
  consider "r = []" | "array_spec r = More" | "inline_spec r = More"
    using assms by (auto simp: command_spec_def split: list.splits if_splits)
  then show ?thesis
  proof cases
    case 2
    show ?thesis
    proof (cases "header_spec (CHR ''*'') (of_nat kMaxArgs) kArgLength r")
      case (Done v n)
      then have "length (drop n r) \<le> unat v * bulk_room"
        using 2 by (intro repeat_bulk_sizes(2)) (simp add: array_spec_def andThen_def split: outcome.splits)
      also have "\<dots> \<le> kMaxArgs * bulk_room"
        using header_spec_Done(3) [OF Done] small(2) by (intro mult_le_mono1) simp
      finally show ?thesis using header_spec_Done(2) [OF Done] by simp
    next
      case More
      then show ?thesis
        using line_spec_More [of kMaxHeaderLength kStrict r]
        by (simp add: header_spec_def split: outcome.splits option.splits)
    qed (use 2 in \<open>simp add: array_spec_def andThen_def\<close>)
  next
    case 3
    then have "length r \<le> kMaxInlineLength + 1"
      by (intro line_spec_More [of kMaxInlineLength kInline]) (simp add: inline_spec_def split: outcome.splits if_splits)
    then show ?thesis using small(1) by simp
  qed simp
qed

end
