(* ===== verification/Resp_Reply.thy ===== *)
theory Resp_Reply
  imports Resp_Parse
begin

text \<open>
  The reply encoders. Each adds the bytes of exactly one RESP value to the output buffer
  (\<open>appends\<close>), and \<open>reply_spec\<close>, a client's decoder, reads that value back whatever follows; so the
  replies to a pipeline of commands are told apart. The theorems about requests and replies close
  the component.
\<close>

section \<open>What the encoders add\<close>

datatype Reply = Simple string | Err string | Number int | Bulk string | NullBulk

fun reply_bytes :: "Reply \<Rightarrow> string" where
  "reply_bytes (Simple s) = CHR ''+'' # s @ CRLF"
| "reply_bytes (Err s) = CHR ''-'' # s @ CRLF"
| "reply_bytes (Number v) = CHR '':'' # dec_int v @ CRLF"
| "reply_bytes (Bulk s) = bulk_bytes s"
| "reply_bytes NullBulk = ''$-1'' @ CRLF"

text \<open>Text that fits on a line.\<close>

definition plain :: "string \<Rightarrow> bool" where
  "plain s \<longleftrightarrow> CR \<notin> set s \<and> LF \<notin> set s"

fun Reply_wf :: "Reply \<Rightarrow> bool" where
  "Reply_wf (Simple s) = plain s"
| "Reply_wf (Err s) = plain s"
| "Reply_wf _ = True"

lemma appendLine_emits: "appends (appendLine c s) (c # s @ CRLF)"
proof -
  have "appends (\<lambda>b. do { b \<leftarrow> appendByte c b; do { b \<leftarrow> Buffer_append s b; Buffer_append CRLF b } })
      ([c] @ s @ CRLF)"
    by (intro bytes.emits_seq appendByte_emits bytes.put_emits)
  then show ?thesis by (simp add: appendLine_def [abs_def])
qed

lemma dec_int_length:
  assumes "\<bar>v\<bar> < 2 ^ 64"
  shows "length (dec_int v) \<le> 24"
proof -
  have "nat \<bar>v\<bar> < 10 ^ Suc 19" using assms by simp
  then show ?thesis using dec_length [of "nat \<bar>v\<bar>" 19] by (auto simp: dec_int_def abs_if split: if_splits)
qed

lemma appendNumber_emits:
  assumes "\<bar>v\<bar> < 2 ^ 64"
  shows "appends (appendNumber c v) (c # dec_int v @ CRLF)"
  using appendLine_emits [of c "dec_int v"] dec_int_length [OF assms]
  by (simp add: emits_def appendNumber_def Let_def require_def)

lemma reply_simpleString_emits: "plain s \<Longrightarrow> appends (reply_simpleString s) (reply_bytes (Simple s))"
  using appendLine_emits [of "CHR ''+''" s]
  by (auto simp: emits_def reply_simpleString_def require_def plain_def find_from_def find_idx_None)

lemma reply_error_emits: "appends (reply_error s) (reply_bytes (Err s))"
  using appendLine_emits [of "CHR ''-''" s] by (simp add: emits_def reply_error_def)

lemma reply_integer_emits: "i64 v \<Longrightarrow> appends (reply_integer v) (reply_bytes (Number v))"
  using appendNumber_emits [of v "CHR '':''"] by (simp add: emits_def reply_integer_def i64_def abs_if)

lemma reply_bulk_emits:
  assumes "length s < 2 ^ 64"
  shows "appends (reply_bulk s) (reply_bytes (Bulk s))"
proof -
  have "appends (\<lambda>b. do { b \<leftarrow> appendNumber (CHR ''$'') (int (length s)) b;
      do { b \<leftarrow> Buffer_append s b; Buffer_append CRLF b } })
      ((CHR ''$'' # dec_int (int (length s)) @ CRLF) @ s @ CRLF)"
    using assms by (intro bytes.emits_seq bytes.put_emits appendNumber_emits) simp
  then show ?thesis by (simp add: reply_bulk_def [abs_def] bulk_bytes_def dec_int_def)
qed

lemma reply_nullBulk_emits: "appends reply_nullBulk (reply_bytes NullBulk)"
  using bytes.put_emits [of "''$-1'' @ CRLF"] by (simp add: reply_nullBulk_def [abs_def])

lemma reply_arrayHeader_emits:
  "n < 2 ^ 64 \<Longrightarrow> appends (reply_arrayHeader n) (CHR ''*'' # dec n @ CRLF)"
  using appendNumber_emits [of "int n" "CHR ''*''"]
  by (simp add: emits_def reply_arrayHeader_def dec_int_def)

section \<open>A client's decoder\<close>

definition type_spec :: "(char, Error) parser" where
  "type_spec r = (case r of [] \<Rightarrow> More | c # _ \<Rightarrow> Done c 1)"

definition crlf_spec :: "(string, Error) parser" where
  "crlf_spec r = (case line_end kStrict r of None \<Rightarrow> More | Some i \<Rightarrow> Done (take (i - 1) r) (i + 1))"

definition flunk :: "'e \<Rightarrow> ('a, 'e) parser" where
  "flunk e r = Bad e"

definition int_of_dec :: "string \<Rightarrow> int" where
  "int_of_dec s =
     (case s of [] \<Rightarrow> 0 | c # cs \<Rightarrow> if c = CHR ''-'' then - int (horner cs 0) else int (horner s 0))"

definition reply_body :: "char \<Rightarrow> string \<Rightarrow> (Reply, Error) parser" where
  "reply_body c t =
     (if c = CHR ''+'' then yield (Simple t)
      else if c = CHR ''-'' then yield (Err t)
      else if c = CHR '':'' then yield (Number (int_of_dec t))
      else if c = CHR ''$'' then
        (if t = ''-1'' then yield NullBulk
         else andThen (payload_spec (horner t 0)) (\<lambda>s. yield (Bulk s)))
      else flunk kArgLength)"

definition reply_spec :: "(Reply, Error) parser" where
  "reply_spec = andThen type_spec (\<lambda>c. andThen crlf_spec (\<lambda>t. reply_body c t))"

lemma stable_reply_spec: "stable reply_spec"
proof -
  have "stable type_spec"
    by (rule stableI) (auto simp: type_spec_def split: list.splits)
  moreover have "stable crlf_spec"
  proof (rule stableI)
    fix r x n t
    assume "crlf_spec r = Done x n"
    then obtain i where i: "line_end kStrict r = Some i" "x = take (i - 1) r" "n = i + 1"
      by (auto simp: crlf_spec_def split: option.splits)
    then have "i < length r" by (simp add: line_end_Some)
    then show "n \<le> length r" "crlf_spec (r @ t) = Done x n"
      using i line_end_append [OF i(1), of t] by (simp_all add: crlf_spec_def)
  qed (simp add: crlf_spec_def split: option.splits)
  moreover have "stable (flunk e)" for e :: Error
    by (simp add: stable_def flunk_def)
  then have "stable (reply_body c t)" for c t
    using stable_payload_spec by (auto simp: reply_body_def)
  ultimately show ?thesis unfolding reply_spec_def by (intro stable_andThen)
qed

interpretation replies: stream_parser reply_spec
proof (unfold_locales, rule stable_reply_spec)
  show "0 < n" if "reply_spec r = Done x n" for r x n
    using that by (auto simp: reply_spec_def andThen_Done type_spec_def split: list.splits)
qed

lemma crlf_spec_plain:
  assumes "LF \<notin> set x"
  shows "crlf_spec (x @ CR # LF # t) = Done x (length x + 2)"
  using line_end_append [OF line_end_crlf [OF assms], of kStrict t] by (simp add: crlf_spec_def)

lemma dec_minus: "dec n \<noteq> CHR ''-'' # s"
proof
  assume "dec n = CHR ''-'' # s"
  then have "digit_char (CHR ''-'')" using dec_digits [of n] by simp
  then show False by simp
qed

lemma int_of_dec_int [simp]: "int_of_dec (dec_int v) = v"
proof (cases "v < 0")
  case True
  then show ?thesis by (simp add: int_of_dec_def dec_int_def)
next
  case False
  obtain c cs where d: "dec (nat v) = c # cs" by (metis dec_nonempty neq_Nil_conv)
  then have "c \<noteq> CHR ''-''" using dec_minus by metis
  moreover have "int (horner (c # cs) 0) = v" using False dec_horner [of "nat v"] by (simp add: d del: horner_simps)
  ultimately show ?thesis using False by (simp add: int_of_dec_def dec_int_def d del: horner_simps)
qed

lemma dec_int_plain: "LF \<notin> set (dec_int v)"
  using dec_no_LF by (simp add: dec_int_def)

lemma reply_spec_line:
  assumes "LF \<notin> set x"
  shows "reply_spec (c # x @ CR # LF # t) =
    (case reply_body c x t of Done v n \<Rightarrow> Done v (length x + 3 + n) | More \<Rightarrow> More | Bad e \<Rightarrow> Bad e)"
  using crlf_spec_plain [OF assms, of t]
  by (simp add: reply_spec_def andThen_def type_spec_def split: outcome.split)

lemma reply_spec_bytes:
  assumes "Reply_wf v"
  shows "reply_spec (reply_bytes v @ t) = Done v (length (reply_bytes v))"
proof (cases v)
  case (Bulk s)
  have "dec (length s) \<noteq> ''-1''" using dec_minus by metis
  then show ?thesis
    using reply_spec_line [OF dec_no_LF, of "CHR ''$''" "length s" "s @ CR # LF # t"] Bulk
    by (simp add: bulk_bytes_def reply_body_def andThen_def payload_spec_bytes yield_def)
next
  case NullBulk
  then show ?thesis
    using reply_spec_line [of "''-1''" "CHR ''$''" t] by (simp add: reply_body_def yield_def)
qed (use assms in \<open>simp_all add: reply_spec_line reply_body_def yield_def plain_def dec_int_plain\<close>)

section \<open>Requests and replies on the wire\<close>

text \<open>The encoder for each kind of value, and sequences of values.\<close>

fun encode_reply :: "Reply \<Rightarrow> Buffer \<Rightarrow> Buffer option" where
  "encode_reply (Simple s) = reply_simpleString s"
| "encode_reply (Err s) = reply_error s"
| "encode_reply (Number v) = reply_integer v"
| "encode_reply (Bulk s) = reply_bulk s"
| "encode_reply NullBulk = reply_nullBulk"

fun encodable :: "Reply \<Rightarrow> bool" where
  "encodable (Simple s) = plain s"
| "encodable (Err s) = plain s"
| "encodable (Number v) = i64 v"
| "encodable (Bulk s) = (length s < 2 ^ 64)"
| "encodable NullBulk = True"

fun in_turn :: "(Buffer \<Rightarrow> Buffer option) list \<Rightarrow> Buffer \<Rightarrow> Buffer option" where
  "in_turn [] b = Some b"
| "in_turn (f # fs) b = do { b \<leftarrow> f b; in_turn fs b }"

definition encode_request :: "string list \<Rightarrow> Buffer \<Rightarrow> Buffer option" where
  "encode_request args b = in_turn (reply_arrayHeader (length args) # map reply_bulk args) b"

lemma encode_reply_emits: "encodable v \<Longrightarrow> appends (encode_reply v) (reply_bytes v)"
  by (cases v) (simp_all del: reply_bytes.simps add: reply_simpleString_emits reply_error_emits
    reply_integer_emits reply_bulk_emits reply_nullBulk_emits)

lemma encodable_wf: "encodable v \<Longrightarrow> Reply_wf v"
  by (cases v) simp_all

lemma in_turn_emits: "list_all2 appends fs xss \<Longrightarrow> appends (in_turn fs) (concat xss)"
proof (induction fs xss rule: list_all2_induct)
  case Nil
  then show ?case by (simp add: emits_def)
next
  case (Cons f fs xs xss)
  then have "appends (\<lambda>b. do { b \<leftarrow> f b; in_turn fs b }) (xs @ concat xss)"
    by (intro bytes.emits_seq)
  then show ?case by (simp add: emits_def)
qed

lemma encode_request_emits:
  assumes "length args < 2 ^ 64" "\<forall>s \<in> set args. length s < 2 ^ 64"
  shows "appends (encode_request args) (request_bytes args)"
proof -
  have "list_all2 appends (map reply_bulk args) (map bulk_bytes args)"
    using assms(2) reply_bulk_emits by (auto simp: list_all2_conv_all_nth)
  then have "appends (in_turn (reply_arrayHeader (length args) # map reply_bulk args))
      (concat ((CHR ''*'' # dec (length args) @ CRLF) # map bulk_bytes args))"
    using reply_arrayHeader_emits [OF assms(1)] by (intro in_turn_emits) simp
  then show ?thesis by (simp add: emits_def encode_request_def request_bytes_def)
qed

lemma drains_replies:
  assumes "\<forall>v \<in> set vs. Reply_wf v"
  shows "drains reply_spec (concat (map reply_bytes vs)) vs None []"
  using assms
proof (induction vs)
  case Nil
  then show ?case by (auto intro!: drains.more simp: reply_spec_def andThen_def type_spec_def)
next
  case (Cons v vs)
  then have "reply_spec (concat (map reply_bytes (v # vs))) = Done v (length (reply_bytes v))"
    by (simp add: reply_spec_bytes)
  then show ?case using Cons by (intro drains.step [where n = "length (reply_bytes v)"]) simp_all
qed

text \<open>C10: \<open>parseCommand\<close> recognises exactly the request grammar. On any input and any reused
  \<open>Command\<close> it returns (no access outside the input or \<open>argv\<close>, every loop ends), with the
  arguments and the length the grammar gives, or a request for more, or the grammar's error; the
  slots past the arguments, and all of them unless it accepts, are empty.\<close>

theorem parse_refines_grammar:
  assumes "length inp < 2 ^ 64" "length (argv out) = kMaxArgs"
  shows "parseCommand inp out = Some (parse_answer (command_spec inp))"
  using assms by (rule parseCommand_spec)

theorem parse_refines_grammar_witness:
  "parseCommand (''PING hello'' @ CRLF) Command_init =
     Some (parse_answer (command_spec (''PING hello'' @ CRLF)))"
  using parse_refines_grammar [of "''PING hello'' @ CRLF" Command_init] by (simp add: Command_init_def)

text \<open>C26: while a command is arriving the parser waits. Every strict prefix of a complete command
  is answered with \<open>kIncomplete\<close>, nothing consumed, no slot set, whatever the earlier contents
  of the reused \<open>Command\<close>.\<close>

theorem parse_prefix_waits:
  assumes "parseCommand inp out = Some (res, cmd)" "status res = kOk" "i < consumed res"
    and "length inp < 2 ^ 64" "length (argv out) = kMaxArgs" "length (argv out') = kMaxArgs"
  shows "parseCommand (take i inp) out' = Some (incomplete, command_of [])"
proof -
  obtain args where "command_spec inp = Done args (consumed res)"
    using assms(1,2) parseCommand_spec [OF assms(4,5)]
    by (auto simp: parse_answer_def incomplete_def fail_def split: outcome.splits)
  then have "command_spec (take i inp) = More" using assms(3) by (rule requests.prefix_waits)
  then show ?thesis using assms(4,6) by (simp add: parseCommand_spec parse_answer_def)
qed

theorem parse_prefix_waits_witness:
  "parseCommand (take 7 (request_bytes [''GET'', ''k''])) Command_init = Some (incomplete, command_of [])"
proof -
  let ?r = "request_bytes [''GET'', ''k'']"
  have "command_spec ?r = Done [''GET'', ''k''] (length ?r)"
    using command_spec_request [of "[''GET'', ''k'']" "[]"] by (simp add: kMaxArgs_def kMaxBulkLength_def)
  then have "parseCommand ?r Command_init = Some (\<lparr>status = kOk, consumed = length ?r, errtext = []\<rparr>, command_of [''GET'', ''k''])"
    by (subst parseCommand_spec) (simp_all add: parse_answer_def Command_init_def request_bytes_def bulk_bytes_def dec_small)
  from parse_prefix_waits [OF this, of 7 Command_init] show ?thesis
    by (simp add: Command_init_def request_bytes_def bulk_bytes_def dec_small)
qed

text \<open>C27: an answer other than \<open>kIncomplete\<close> does not depend on how much of the following input
  has arrived: with any further bytes the parser gives the same command, length or error.\<close>

theorem parse_ignores_later_input:
  assumes "parseCommand inp out = Some (res, cmd)" "status res \<noteq> kIncomplete"
    and "length (inp @ t) < 2 ^ 64" "length (argv out) = kMaxArgs" "length (argv out') = kMaxArgs"
  shows "parseCommand (inp @ t) out' = Some (res, cmd) \<and> consumed res \<le> length inp"
proof -
  have small: "length inp < 2 ^ 64" using assms(3) by simp
  have res: "(res, cmd) = parse_answer (command_spec inp)"
    using assms(1) parseCommand_spec [OF small assms(4)] by simp
  have "command_spec (inp @ t) = command_spec inp \<and> consumed res \<le> length inp"
    using res assms(2) stableD [OF requests.steady, of inp]
    by (cases "command_spec inp") (auto simp: parse_answer_def incomplete_def fail_def)
  then show ?thesis using parseCommand_spec [OF assms(3,5)] res by simp
qed

theorem parse_ignores_later_input_witness:
  "parseCommand (''*x'' @ CRLF @ ''rest'') Command_init = Some (fail kArgLength, command_of [])"
proof -
  have "command_spec (''*x'' @ CRLF) = Bad kArgLength"
    using line_spec_crlf [of "''*x''" kMaxHeaderLength kStrict "[]"]
    by (simp add: command_spec_def array_spec_def andThen_def header_spec_def headerValue_def readInt_def
      kMaxHeaderLength_def)
  then have "parseCommand (''*x'' @ CRLF) Command_init = Some (fail kArgLength, command_of [])"
    by (subst parseCommand_spec) (simp_all add: parse_answer_def Command_init_def)
  from parse_ignores_later_input [OF this, of "''rest''" Command_init] show ?thesis
    by (simp add: Command_init_def fail_def incomplete_def)
qed

text \<open>C33: the shape of a parsed command. After \<open>kOk\<close> there are at most \<open>kMaxArgs\<close> arguments, none
  longer than \<open>kMaxBulkLength\<close>, every slot past them is empty and some input was consumed; after
  any other status there are none and nothing was consumed.\<close>

theorem parse_result_typed:
  assumes "length inp < 2 ^ 64" "length (argv out) = kMaxArgs"
  shows "\<exists>res cmd. parseCommand inp out = Some (res, cmd) \<and> length (argv cmd) = kMaxArgs \<and>
    argc cmd \<le> kMaxArgs \<and> drop (argc cmd) (argv cmd) = replicate (kMaxArgs - argc cmd) [] \<and>
    (\<forall>s \<in> set (argv cmd). length s \<le> unat kMaxBulkLength) \<and>
    (status res = kOk \<longrightarrow> 0 < consumed res \<and> consumed res \<le> length inp) \<and>
    (status res \<noteq> kOk \<longrightarrow> argc cmd = 0 \<and> consumed res = 0)"
  using parseCommand_spec [OF assms] command_spec_Done [of inp] requests.progress [of inp]
    stableD(1) [OF requests.steady, of inp]
  by (cases "command_spec inp") (auto simp: parse_answer_def command_of_def incomplete_def fail_def)

theorem parse_result_typed_witness:
  "\<exists>res cmd. parseCommand (''x'' @ CRLF) Command_init = Some (res, cmd) \<and> argc cmd \<le> 16 \<and> length (argv cmd) = 16"
  using parse_result_typed [of "''x'' @ CRLF" Command_init] by (auto simp: Command_init_def kMaxArgs_def)

text \<open>C34: a client cannot make the server buffer without end. An input that is still incomplete is
  at most 16 bulk strings of 64 MiB with their headers long; longer input is a command or an error.\<close>

theorem incomplete_is_bounded:
  assumes "parseCommand inp out = Some (res, cmd)" "status res = kIncomplete"
    and "length inp < 2 ^ 64" "length (argv out) = kMaxArgs"
  shows "length inp \<le> 34 + 16 * (36 + 64 * 1024 * 1024)"
proof -
  have "command_spec inp = More"
    using assms(1,2) parseCommand_spec [OF assms(3,4)]
    by (auto simp: parse_answer_def fail_def split: outcome.splits)
  from command_spec_More [OF this] show ?thesis
    by (simp add: bulk_room_def kMaxHeaderLength_def kMaxArgs_def kMaxBulkLength_def)
qed

theorem incomplete_is_bounded_witness:
  "parseCommand ''*'' Command_init = Some (incomplete, command_of []) \<and>
     length ''*'' \<le> 34 + 16 * (36 + 64 * 1024 * 1024)"
proof -
  have "line_end kStrict ''*'' = None" by (simp add: line_end_None ends_def)
  then have "command_spec ''*'' = More"
    by (simp add: command_spec_def array_spec_def andThen_def header_spec_def line_spec_def kMaxHeaderLength_def)
  then have p: "parseCommand ''*'' Command_init = Some (incomplete, command_of [])"
    by (subst parseCommand_spec) (simp_all add: parse_answer_def Command_init_def)
  from p incomplete_is_bounded [OF p] show ?thesis by (simp add: incomplete_def Command_init_def)
qed

text \<open>C28: a request survives the wire. What the array and bulk encoders write for a list of
  arguments, any bytes included, is parsed back to exactly these arguments, whatever follows.\<close>

theorem request_roundtrip:
  assumes "length args \<le> kMaxArgs" "\<forall>s \<in> set args. length s \<le> unat kMaxBulkLength"
    and "Buffer_inv b" "contents b = []" "length (argv out) = kMaxArgs"
    and "length (request_bytes args @ t) < 2 ^ 64"
  shows "\<exists>b'. encode_request args b = Some b' \<and> Buffer_inv b' \<and>
    parseCommand (contents b' @ t) out =
      Some (\<lparr>status = kOk, consumed = length (contents b'), errtext = []\<rparr>, command_of args)"
proof -
  have "length args < 2 ^ 64" "\<forall>s \<in> set args. length s < 2 ^ 64"
    using assms(1,2) unat_u64 [of kMaxBulkLength] by (auto simp: kMaxArgs_def)
  then obtain b' where b': "encode_request args b = Some b'" "Buffer_inv b'" "contents b' = request_bytes args"
    using bytes.emitsD [OF encode_request_emits assms(3)] assms(4) by (metis append_Nil)
  have "command_spec (request_bytes args @ t) = Done args (length (request_bytes args))"
    by (rule command_spec_request [OF assms(1,2)])
  then show ?thesis
    using b' parseCommand_spec [OF assms(6,5)] by (simp add: parse_answer_def)
qed

theorem request_roundtrip_witness:
  "\<exists>b'. encode_request [''SET'', ''k'', CRLF] (Buffer_init 4) = Some b' \<and>
     parseCommand (contents b' @ ''*1'') Command_init =
       Some (\<lparr>status = kOk, consumed = length (contents b'), errtext = []\<rparr>, command_of [''SET'', ''k'', CRLF])"
  using request_roundtrip [of "[''SET'', ''k'', CRLF]" "Buffer_init 4" Command_init "''*1''"]
  by (auto simp: kMaxArgs_def kMaxBulkLength_def Command_init_def request_bytes_def bulk_bytes_def dec_small)

text \<open>C29: pipelined replies are told apart. A client that decodes what the reply encoders wrote, one
  after the other into one buffer, gets exactly the values, in order, and nothing is left over.\<close>

theorem replies_decode:
  assumes "\<forall>v \<in> set vs. encodable v" "Buffer_inv b" "contents b = []"
  shows "\<exists>b'. in_turn (map encode_reply vs) b = Some b' \<and> Buffer_inv b' \<and>
    (\<forall>ws e rest. drains reply_spec (contents b') ws e rest \<longleftrightarrow> ws = vs \<and> e = None \<and> rest = [])"
proof -
  have "appends (in_turn (map encode_reply vs)) (concat (map reply_bytes vs))"
    using assms(1) encode_reply_emits by (intro in_turn_emits) (simp add: list_all2_conv_all_nth)
  then obtain b' where b': "in_turn (map encode_reply vs) b = Some b'" "Buffer_inv b'"
      "contents b' = concat (map reply_bytes vs)"
    using bytes.emitsD [OF _ assms(2)] assms(3) by (metis append_Nil)
  have "drains reply_spec (contents b') vs None []"
    unfolding b'(3) using assms(1) encodable_wf by (intro drains_replies) blast
  then show ?thesis using b' replies.drains_unique by blast
qed

theorem replies_decode_witness:
  "\<exists>b'. in_turn (map encode_reply [Simple ''OK'', NullBulk, Bulk CRLF, Number (- 2)]) (Buffer_init 0) = Some b' \<and>
     drains reply_spec (contents b') [Simple ''OK'', NullBulk, Bulk CRLF, Number (- 2)] None []"
  using replies_decode [of "[Simple ''OK'', NullBulk, Bulk CRLF, Number (- 2)]" "Buffer_init 0"]
  by (auto simp: plain_def i64_def)

end
