(* ===== verification/Entry.thy ===== *)
theory Entry
  imports Hash
begin

text \<open>
  \<^verbatim>\<open>src/core/entry.h\<close>, \<^verbatim>\<open>src/core/entry.cpp\<close> and \<^verbatim>\<open>src/core/clock.h\<close>: one stored
  key/value pair, whose bytes live in the entry itself (up to \<open>kInlineCap\<close>) or in a
  heap block.

  The union of the inline buffer and the block pointer is a \<open>payload\<close>; reading the member
  that is not active is \<open>None\<close>. Blocks made by \<open>new char[n]\<close> live in a \<open>CharHeap\<close>;
  a block leaves it at \<open>delete[]\<close>, so that a use after free or a double free is \<open>None\<close>.
  The contents of fresh memory are modelled as zero bytes; no operation reads a byte it has
  not written.
\<close>

section \<open>The character heap\<close>

record CharHeap =
  blocks :: "nat \<rightharpoonup> string"
  brk :: nat

definition empty_heap :: CharHeap where
  "empty_heap = \<lparr>blocks = Map.empty, brk = 0\<rparr>"

definition new_chars :: "nat \<Rightarrow> CharHeap \<Rightarrow> nat \<times> CharHeap" where
  "new_chars n h = (brk h, h\<lparr>blocks := (blocks h)(brk h \<mapsto> replicate n NUL), brk := Suc (brk h)\<rparr>)"

text \<open>\<open>delete[] p\<close>; deleting the null pointer does nothing.\<close>

fun delete_chars :: "nat option \<Rightarrow> CharHeap \<Rightarrow> CharHeap option" where
  "delete_chars None h = Some h"
| "delete_chars (Some p) h =
     do { _ \<leftarrow> blocks h p; Some (h\<lparr>blocks := (blocks h)(p := None)\<rparr>) }"

definition heap_read :: "nat \<Rightarrow> nat \<Rightarrow> nat \<Rightarrow> CharHeap \<Rightarrow> string option" where
  "heap_read p at n h = do { b \<leftarrow> blocks h p; read_at at n b }"

definition heap_write :: "nat \<Rightarrow> nat \<Rightarrow> string \<Rightarrow> CharHeap \<Rightarrow> CharHeap option" where
  "heap_write p at bytes h =
     do { b \<leftarrow> blocks h p;
          b \<leftarrow> write_at at bytes b;
          Some (h\<lparr>blocks := (blocks h)(p \<mapsto> b)\<rparr>) }"

section \<open>Entries\<close>

definition kNoExpiry :: int where "kNoExpiry = -1"

definition kInlineCap :: u32 where "kInlineCap = 32"

type_synonym addr = nat

datatype payload = InlineBuf string | BufPtr nat

record Entry =
  nextp :: "addr option"
  expiresAtMs :: int
  hash :: u32
  lruClock :: u32
  keyLen :: u32
  valLen :: u32
  bytes :: payload

definition spilled :: "Entry \<Rightarrow> bool" where
  "spilled e \<longleftrightarrow> keyLen e + valLen e > kInlineCap"

definition getBufData :: "CharHeap \<Rightarrow> Entry \<Rightarrow> u32 \<Rightarrow> u32 \<Rightarrow> string option" where
  "getBufData h e start n =
     (if spilled e
      then (case bytes e of BufPtr p \<Rightarrow> heap_read p (unat start) (unat n) h | InlineBuf _ \<Rightarrow> None)
      else (case bytes e of InlineBuf b \<Rightarrow> read_at (unat start) (unat n) b | BufPtr _ \<Rightarrow> None))"

definition Entry_key :: "CharHeap \<Rightarrow> Entry \<Rightarrow> string option" where
  "Entry_key h e = getBufData h e 0 (keyLen e)"

definition Entry_value :: "CharHeap \<Rightarrow> Entry \<Rightarrow> string option" where
  "Entry_value h e = getBufData h e (keyLen e) (valLen e)"

definition Entry_expired :: "Entry \<Rightarrow> int \<Rightarrow> bool" where
  "Entry_expired e now = (if expiresAtMs e = kNoExpiry then False else now > expiresAtMs e)"

section \<open>Well-formed entries\<close>

text \<open>
  The lengths add up without wrapping around and the active union member holds that many
  bytes. \<open>entry_block\<close> is the block an entry owns.
\<close>

fun payload_room :: "CharHeap \<Rightarrow> bool \<Rightarrow> payload \<Rightarrow> nat \<Rightarrow> bool" where
  "payload_room h True (BufPtr p) n = (case blocks h p of None \<Rightarrow> False | Some b \<Rightarrow> n \<le> length b)"
| "payload_room h False (InlineBuf b) n = (n \<le> length b \<and> length b = unat kInlineCap)"
| "payload_room h _ _ n = False"

definition entry_ok :: "CharHeap \<Rightarrow> Entry \<Rightarrow> bool" where
  "entry_ok h e \<longleftrightarrow> unat (keyLen e) + unat (valLen e) < 2 ^ 32 \<and>
     payload_room h (spilled e) (bytes e) (unat (keyLen e) + unat (valLen e))"

fun payload_block :: "payload \<Rightarrow> nat option" where
  "payload_block (BufPtr p) = Some p"
| "payload_block (InlineBuf b) = None"

abbreviation entry_block :: "Entry \<Rightarrow> nat option" where
  "entry_block e \<equiv> payload_block (bytes e)"

lemma unat_kInlineCap [simp]: "unat kInlineCap = 32"
  by (simp add: kInlineCap_def)

lemma payload_roomE:
  assumes "payload_room h s d n"
  obtains p b where "s" "d = BufPtr p" "blocks h p = Some b" "n \<le> length b"
    | b where "\<not> s" "d = InlineBuf b" "n \<le> length b" "length b = 32"
  using assms by (cases "(h, s, d, n)" rule: payload_room.cases)
    (auto split: option.splits simp: kInlineCap_def)

lemma unat_len_sum: "unat (a :: u32) + unat b < 2 ^ 32 \<Longrightarrow> unat (a + b) = unat a + unat b"
  by (simp add: unat_word_ariths)

lemma spilled_iff_block: "entry_ok h e \<Longrightarrow> spilled e \<longleftrightarrow> entry_block e \<noteq> None"
  by (auto simp: entry_ok_def elim!: payload_roomE)

lemma entry_key_ok:
  assumes "entry_ok h e"
  shows "\<exists>k. Entry_key h e = Some k \<and> length k = unat (keyLen e)"
  using assms unfolding entry_ok_def
  by (auto simp: Entry_key_def getBufData_def heap_read_def mem_simps elim!: payload_roomE)

lemma entry_value_ok:
  assumes "entry_ok h e"
  shows "\<exists>v. Entry_value h e = Some v \<and> length v = unat (valLen e)"
  using assms unfolding entry_ok_def
  by (auto simp: Entry_value_def getBufData_def heap_read_def mem_simps elim!: payload_roomE)

text \<open>An entry's bytes depend on the heap only through the block it owns.\<close>

lemma entry_frame:
  assumes "\<And>p. entry_block e = Some p \<Longrightarrow> blocks h' p = blocks h p"
  shows "entry_ok h' e = entry_ok h e" "Entry_key h' e = Entry_key h e"
    "Entry_value h' e = Entry_value h e"
  using assms
  by (cases "bytes e"; cases "spilled e";
      simp add: entry_ok_def Entry_key_def Entry_value_def getBufData_def heap_read_def)+

end
