(* ===== verification/Pool.thy ===== *)
theory Pool
  imports Entry
begin

text \<open>
  The entry pool. \<open>EntryPool\<close> (\<^verbatim>\<open>src/core/table.h\<close>) is an instance of \<open>PoolAllocator\<close>,
  a header-only dependency fetched at build time. Its two operations are therefore a
  parameter of the table, and what the table relies on is the interface \<open>entry_pool\<close>:
  blocks are handed out at most once until they are returned, and \<open>tryAllocate\<close> fails
  exactly when all \<open>kPoolCapacity\<close> blocks are taken. A free-list allocator shows that the
  interface can be met.
\<close>

definition kPoolCapacity :: nat where "kPoolCapacity = 2 ^ 18"

record 'p pool_ops =
  tryAllocate :: "'p \<Rightarrow> (addr \<times> 'p) option"
  deallocate :: "addr \<Rightarrow> 'p \<Rightarrow> 'p"

locale entry_pool =
  fixes ops :: "'p pool_ops"
    and live :: "'p \<Rightarrow> addr set"
    and pool_inv :: "'p \<Rightarrow> bool"
  assumes alloc_Some:
      "pool_inv p \<Longrightarrow> tryAllocate ops p = Some (a, p') \<Longrightarrow>
         a \<notin> live p \<and> live p' = insert a (live p) \<and> pool_inv p'"
    and alloc_None: "pool_inv p \<Longrightarrow> tryAllocate ops p = None \<longleftrightarrow> card (live p) = kPoolCapacity"
    and dealloc:
      "pool_inv p \<Longrightarrow> a \<in> live p \<Longrightarrow>
         live (deallocate ops a p) = live p - {a} \<and> pool_inv (deallocate ops a p)"
    and live_bounded: "pool_inv p \<Longrightarrow> finite (live p) \<and> card (live p) \<le> kPoolCapacity"
begin

lemma alloc_succeeds:
  assumes "pool_inv p" "card (live p) < kPoolCapacity"
  obtains a p' where "tryAllocate ops p = Some (a, p')" "a \<notin> live p"
    "live p' = insert a (live p)" "pool_inv p'"
proof (cases "tryAllocate ops p")
  case None
  then show ?thesis using assms alloc_None by simp
next
  case (Some r)
  then show ?thesis using assms(1) alloc_Some that by (cases r) blast
qed

end

section \<open>A free-list pool\<close>

text \<open>The state is the list of free block numbers.\<close>

definition freelist_ops :: "addr list pool_ops" where
  "freelist_ops =
     \<lparr>tryAllocate = (\<lambda>free. case free of [] \<Rightarrow> None | a # rest \<Rightarrow> Some (a, rest)),
      deallocate = (\<lambda>a free. a # free)\<rparr>"

definition freelist_live :: "addr list \<Rightarrow> addr set" where
  "freelist_live free = {..<kPoolCapacity} - set free"

definition freelist_inv :: "addr list \<Rightarrow> bool" where
  "freelist_inv free \<longleftrightarrow> distinct free \<and> set free \<subseteq> {..<kPoolCapacity}"

definition freelist_init :: "addr list" where
  "freelist_init = [0..<kPoolCapacity]"

lemma freelist_card:
  "freelist_inv free \<Longrightarrow> card (freelist_live free) = kPoolCapacity - length free"
  by (simp add: freelist_live_def freelist_inv_def card_Diff_subset distinct_card)

lemma freelist_length: "freelist_inv free \<Longrightarrow> length free \<le> kPoolCapacity"
  unfolding freelist_inv_def by (metis card_lessThan card_mono distinct_card finite_lessThan)

interpretation freelist: entry_pool freelist_ops freelist_live freelist_inv
proof
  fix p a p'
  assume "freelist_inv p" "tryAllocate freelist_ops p = Some (a, p')"
  then show "a \<notin> freelist_live p \<and> freelist_live p' = insert a (freelist_live p) \<and> freelist_inv p'"
    by (auto simp: freelist_ops_def freelist_live_def freelist_inv_def split: list.splits)
next
  fix p
  assume inv: "freelist_inv p"
  then show "tryAllocate freelist_ops p = None \<longleftrightarrow> card (freelist_live p) = kPoolCapacity"
    using freelist_length [OF inv]
    by (cases p) (auto simp: freelist_ops_def freelist_card kPoolCapacity_def)
next
  fix p a
  assume "freelist_inv p" "a \<in> freelist_live p"
  then show "freelist_live (deallocate freelist_ops a p) = freelist_live p - {a} \<and>
      freelist_inv (deallocate freelist_ops a p)"
    by (auto simp: freelist_ops_def freelist_live_def freelist_inv_def)
next
  fix p
  assume "freelist_inv p"
  then show "finite (freelist_live p) \<and> card (freelist_live p) \<le> kPoolCapacity"
    by (simp add: freelist_card) (simp add: freelist_live_def)
qed

lemma freelist_init_ok: "freelist_inv freelist_init" "freelist_live freelist_init = {}"
  by (auto simp: freelist_init_def freelist_inv_def freelist_live_def)

end
