(* ===== verification/Table.thy ===== *)
theory Table
  imports Pool
begin

text \<open>
  \<^verbatim>\<open>src/core/table.h\<close> and \<^verbatim>\<open>src/core/table.cpp\<close>: the chained hash table, at the level of
  pointers. \<open>slab\<close> is the memory of the pool's blocks that are in use: an entry appears there
  when it is allocated and disappears when it is returned, so that following a dangling
  pointer is \<open>None\<close>. Loops that follow \<open>next\<close> pointers are partial functions: on a cyclic
  chain they do not return, which is \<open>None\<close> as well.
\<close>

section \<open>State\<close>

definition kMinBuckets :: u64 where "kMinBuckets = 4"

record 'p Table =
  buckets :: "addr option list"
  slab :: "addr \<rightharpoonup> Entry"
  chars :: CharHeap
  pool :: 'p
  liveCount :: nat
  hashSeed :: u64

definition Table_init :: "'p \<Rightarrow> u64 \<Rightarrow> u64 \<Rightarrow> 'p Table option" where
  "Table_init p initialBuckets seed =
     do { n \<leftarrow> nextPow2 initialBuckets;
          Some \<lparr>buckets = replicate (unat (max kMinBuckets n)) None, slab = Map.empty,
                chars = empty_heap, pool = p, liveCount = 0, hashSeed = seed\<rparr> }"

definition Table_size :: "'p Table \<Rightarrow> nat" where
  "Table_size t = liveCount t"

definition bucketCount :: "'p Table \<Rightarrow> nat" where
  "bucketCount t = length (buckets t)"

definition Table_used :: "'p Table \<Rightarrow> nat" where
  "Table_used t = Table_size t"

definition bucketMask :: "'p Table \<Rightarrow> u64" where
  "bucketMask t = of_nat (bucketCount t) - 1"

definition bucketOf :: "'p Table \<Rightarrow> u32 \<Rightarrow> nat" where
  "bucketOf t h = unat (ucast h AND bucketMask t)"

definition hash32 :: "'p Table \<Rightarrow> string \<Rightarrow> u32" where
  "hash32 t key = ucast (hashBytes key (hashSeed t))"

text \<open>\<open>buckets_[i]\<close>\<close>

definition bucket_at :: "'p Table \<Rightarrow> nat \<Rightarrow> addr option option" where
  "bucket_at t i = (if i < bucketCount t then Some (buckets t ! i) else None)"

section \<open>Lookup\<close>

definition entry_matches :: "'p Table \<Rightarrow> u32 \<Rightarrow> string \<Rightarrow> Entry \<Rightarrow> bool option" where
  "entry_matches t h32 key e =
     (if hash e = h32 \<and> unat (keyLen e) = length key
      then do { k \<leftarrow> Entry_key (chars t) e; Some (k = key) }
      else Some False)"

partial_function (option) findLoop ::
    "'p Table \<Rightarrow> u32 \<Rightarrow> string \<Rightarrow> addr option \<Rightarrow> addr option option" where
  "findLoop t h32 key link =
     (case link of
        None \<Rightarrow> Some None
      | Some a \<Rightarrow>
          do { e \<leftarrow> slab t a;
               m \<leftarrow> entry_matches t h32 key e;
               if m then Some (Some a) else findLoop t h32 key (nextp e) })"

definition Table_find :: "string \<Rightarrow> 'p Table \<Rightarrow> addr option option" where
  "Table_find key t =
     do { let h32 = hash32 t key;
          head \<leftarrow> bucket_at t (bucketOf t h32);
          findLoop t h32 key head }"

section \<open>Growth\<close>

partial_function (option) relinkChain ::
    "u64 \<Rightarrow> addr option \<Rightarrow> (addr \<rightharpoonup> Entry) \<times> addr option list \<Rightarrow>
       ((addr \<rightharpoonup> Entry) \<times> addr option list) option" where
  "relinkChain msk link st =
     (case link of
        None \<Rightarrow> Some st
      | Some a \<Rightarrow>
          (case st of (m, nxt) \<Rightarrow>
             do { e \<leftarrow> m a;
                  let after = nextp e;
                  let i = unat (ucast (hash e) AND msk);
                  require (i < length nxt);
                  relinkChain msk after (m(a \<mapsto> e\<lparr>nextp := nxt ! i\<rparr>), nxt[i := Some a]) }))"

fun relinkAll :: "u64 \<Rightarrow> addr option list \<Rightarrow> (addr \<rightharpoonup> Entry) \<times> addr option list \<Rightarrow>
    ((addr \<rightharpoonup> Entry) \<times> addr option list) option" where
  "relinkAll msk [] st = Some st"
| "relinkAll msk (head # heads) st = do { st \<leftarrow> relinkChain msk head st; relinkAll msk heads st }"

definition has_single_bit :: "nat \<Rightarrow> bool" where
  "has_single_bit n \<longleftrightarrow> n \<noteq> 0 \<and> n AND (n - 1) = 0"

definition Table_rehash :: "nat \<Rightarrow> 'p Table \<Rightarrow> 'p Table option" where
  "Table_rehash newBucketCount t =
     do { require (has_single_bit newBucketCount \<and> newBucketCount \<ge> bucketCount t);
          let nxt = replicate newBucketCount None;
          let msk = of_nat newBucketCount - 1;
          (m, nxt) \<leftarrow> relinkAll msk (buckets t) (slab t, nxt);
          Some (t\<lparr>slab := m, buckets := nxt\<rparr>) }"

definition Table_maybeGrow :: "'p Table \<Rightarrow> 'p Table option" where
  "Table_maybeGrow t =
     (if liveCount t > bucketCount t then Table_rehash (bucketCount t * 2) t else Some t)"

section \<open>Insertion and assignment\<close>

text \<open>The two \<open>memcpy\<close> calls that fill a fresh entry, into the spill block or inline.\<close>

definition fill_bytes :: "nat option \<Rightarrow> u32 \<Rightarrow> string \<Rightarrow> u32 \<Rightarrow> string \<Rightarrow> CharHeap \<Rightarrow>
    (payload \<times> CharHeap) option" where
  "fill_bytes dst kl key vl val h =
     (case dst of
        Some p \<Rightarrow>
          do { h \<leftarrow> heap_write p 0 (take (unat kl) key) h;
               h \<leftarrow> heap_write p (unat kl) (take (unat vl) val) h;
               Some (BufPtr p, h) }
      | None \<Rightarrow>
          do { b \<leftarrow> write_at 0 (take (unat kl) key) (replicate (unat kInlineCap) NUL);
               b \<leftarrow> write_at (unat kl) (take (unat vl) val) b;
               Some (InlineBuf b, h) })"

definition Table_insert :: "'p pool_ops \<Rightarrow> string \<Rightarrow> string \<Rightarrow> 'p Table \<Rightarrow>
    (addr option \<times> 'p Table) option" where
  "Table_insert ops key val t =
     (let kl = (of_nat (length key) :: u32);
          vl = (of_nat (length val) :: u32);
          spill = kl + vl > kInlineCap;
          (heap, h) = (if spill then (case new_chars (unat (kl + vl)) (chars t) of (p, h) \<Rightarrow> (Some p, h))
                       else (None, chars t))
      in case tryAllocate ops (pool t) of
           None \<Rightarrow> do { h \<leftarrow> delete_chars heap h; Some (None, t\<lparr>chars := h\<rparr>) }
         | Some (a, p) \<Rightarrow>
             do { (dat, h) \<leftarrow> fill_bytes heap kl key vl val h;
                  let h32 = hash32 t key;
                  head \<leftarrow> bucket_at t (bucketOf t h32);
                  let e = \<lparr>nextp = head, expiresAtMs = kNoExpiry, hash = h32, lruClock = 0,
                           keyLen = kl, valLen = vl, bytes = dat\<rparr>;
                  t \<leftarrow> Table_maybeGrow (t\<lparr>buckets := (buckets t)[bucketOf t h32 := Some a],
                     slab := (slab t)(a \<mapsto> e), chars := h, pool := p,
                     liveCount := liveCount t + 1\<rparr>);
                  Some (Some a, t) })"

definition Table_assign :: "addr \<Rightarrow> string \<Rightarrow> 'p Table \<Rightarrow> 'p Table option" where
  "Table_assign a val t =
     do { e \<leftarrow> slab t a;
          let vl = (of_nat (length val) :: u32);
          let wasSpilled = spilled e;
          let willSpill = (keyLen e + vl > kInlineCap);
          old \<leftarrow> (if wasSpilled then map_option Some (payload_block (bytes e)) else Some None);
          (dat, h, old) \<leftarrow>
            (if willSpill \<and> (\<not> wasSpilled \<or> vl > valLen e)
             then do { let (buf, h) = new_chars (unat (keyLen e + vl)) (chars t);
                       k \<leftarrow> Entry_key (chars t) e;
                       h \<leftarrow> heap_write buf 0 k h;
                       Some (BufPtr buf, h, old) }
             else if \<not> willSpill \<and> wasSpilled
             then do { p \<leftarrow> old;
                       k \<leftarrow> heap_read p 0 (unat (keyLen e)) (chars t);
                       b \<leftarrow> write_at 0 k (replicate (unat kInlineCap) NUL);
                       Some (InlineBuf b, chars t, old) }
             else Some (bytes e, chars t, None));
          (dat, h) \<leftarrow>
            (case dat of
               BufPtr p \<Rightarrow> do { require willSpill;
                               h \<leftarrow> heap_write p (unat (keyLen e)) (take (unat vl) val) h;
                               Some (BufPtr p, h) }
             | InlineBuf b \<Rightarrow> do { require (\<not> willSpill);
                                  b \<leftarrow> write_at (unat (keyLen e)) (take (unat vl) val) b;
                                  Some (InlineBuf b, h) });
          h \<leftarrow> delete_chars old h;
          Some (t\<lparr>slab := (slab t)(a \<mapsto> e\<lparr>bytes := dat, valLen := vl\<rparr>), chars := h\<rparr>) }"

text \<open>A write through an \<open>Entry*\<close>, such as \<open>e->lruClock = v\<close>.\<close>

definition entry_set :: "addr \<Rightarrow> (Entry \<Rightarrow> Entry) \<Rightarrow> 'p Table \<Rightarrow> 'p Table option" where
  "entry_set a f t = do { e \<leftarrow> slab t a; Some (t\<lparr>slab := (slab t)(a \<mapsto> f e)\<rparr>) }"

section \<open>Removal\<close>

text \<open>\<open>Entry** link\<close>: the address of a bucket slot or of an entry's \<open>next\<close> field.\<close>

datatype link = Slot nat | NextOf addr

fun deref :: "'p Table \<Rightarrow> link \<Rightarrow> addr option option" where
  "deref t (Slot i) = bucket_at t i"
| "deref t (NextOf a) = map_option nextp (slab t a)"

fun set_link :: "'p Table \<Rightarrow> link \<Rightarrow> addr option \<Rightarrow> 'p Table option" where
  "set_link t (Slot i) v =
     (if i < bucketCount t then Some (t\<lparr>buckets := (buckets t)[i := v]\<rparr>) else None)"
| "set_link t (NextOf a) v =
     do { e \<leftarrow> slab t a; Some (t\<lparr>slab := (slab t)(a \<mapsto> e\<lparr>nextp := v\<rparr>)\<rparr>) }"

partial_function (option) findLink :: "'p Table \<Rightarrow> addr \<Rightarrow> link \<Rightarrow> link option" where
  "findLink t a link =
     do { target \<leftarrow> deref t link;
          if target = Some a then Some link
          else do { b \<leftarrow> target; findLink t a (NextOf b) } }"

definition entry_free :: "'p pool_ops \<Rightarrow> addr \<Rightarrow> Entry \<Rightarrow> 'p Table \<Rightarrow> 'p Table option" where
  "entry_free ops a e t =
     do { h \<leftarrow> (if spilled e then do { p \<leftarrow> payload_block (bytes e); delete_chars (Some p) (chars t) }
               else Some (chars t));
          Some (t\<lparr>slab := (slab t)(a := None), chars := h, pool := deallocate ops a (pool t)\<rparr>) }"

definition Table_remove :: "'p pool_ops \<Rightarrow> addr \<Rightarrow> 'p Table \<Rightarrow> 'p Table option" where
  "Table_remove ops a t =
     do { e \<leftarrow> slab t a;
          link \<leftarrow> findLink t a (Slot (bucketOf t (hash e)));
          t \<leftarrow> set_link t link (nextp e);
          t \<leftarrow> entry_free ops a e t;
          Some (t\<lparr>liveCount := liveCount t - 1\<rparr>) }"

partial_function (option) clearChain ::
    "'p pool_ops \<Rightarrow> addr option \<Rightarrow> 'p Table \<Rightarrow> 'p Table option" where
  "clearChain ops link t =
     (case link of
        None \<Rightarrow> Some t
      | Some a \<Rightarrow>
          do { e \<leftarrow> slab t a;
               let after = nextp e;
               t \<leftarrow> entry_free ops a e t;
               clearChain ops after t })"

text \<open>The loop over \<open>buckets_\<close> from index \<open>i\<close>, \<open>n\<close> buckets left.\<close>

primrec clearFrom :: "'p pool_ops \<Rightarrow> nat \<Rightarrow> nat \<Rightarrow> 'p Table \<Rightarrow> 'p Table option" where
  "clearFrom ops 0 i t = Some t"
| "clearFrom ops (Suc n) i t =
     do { head \<leftarrow> bucket_at t i;
          t \<leftarrow> clearChain ops head t;
          clearFrom ops n (Suc i) (t\<lparr>buckets := (buckets t)[i := None]\<rparr>) }"

definition Table_clear :: "'p pool_ops \<Rightarrow> 'p Table \<Rightarrow> 'p Table option" where
  "Table_clear ops t =
     do { t \<leftarrow> clearFrom ops (bucketCount t) 0 t; Some (t\<lparr>liveCount := 0\<rparr>) }"

text \<open>What the destructor leaves: the character heap, and the pool at the moment it is destroyed.\<close>

definition Table_dtor :: "'p pool_ops \<Rightarrow> 'p Table \<Rightarrow> (CharHeap \<times> 'p) option" where
  "Table_dtor ops t = do { t \<leftarrow> Table_clear ops t; Some (chars t, pool t) }"

section \<open>Scanning and sampling\<close>

text \<open>
  The template parameter \<open>visit\<close> may change the table: it acts on a client state \<open>'s\<close> that
  contains the table, which \<open>tbl\<close> projects out.
\<close>

partial_function (option) scanChain ::
    "('s \<Rightarrow> 'p Table) \<Rightarrow> (addr \<Rightarrow> 's \<Rightarrow> 's option) \<Rightarrow> addr option \<Rightarrow> 's \<Rightarrow> 's option" where
  "scanChain tbl visit link s =
     (case link of
        None \<Rightarrow> Some s
      | Some a \<Rightarrow>
          do { e \<leftarrow> slab (tbl s) a;
               let after = nextp e;
               s \<leftarrow> visit a s;
               scanChain tbl visit after s })"

definition Table_scanBucket ::
    "('s \<Rightarrow> 'p Table) \<Rightarrow> (addr \<Rightarrow> 's \<Rightarrow> 's option) \<Rightarrow> u64 \<Rightarrow> 's \<Rightarrow> (u64 \<times> 's) option" where
  "Table_scanBucket tbl visit cursor s =
     do { let msk = bucketMask (tbl s);
          head \<leftarrow> bucket_at (tbl s) (unat (cursor AND msk));
          s \<leftarrow> scanChain tbl visit head s;
          Some (nextCursor cursor msk, s) }"

partial_function (option) sampleChain ::
    "'p Table \<Rightarrow> nat \<Rightarrow> addr option \<Rightarrow> addr list \<Rightarrow> addr list option" where
  "sampleChain t n link out =
     (case link of
        None \<Rightarrow> Some out
      | Some a \<Rightarrow>
          if length out < n then do { e \<leftarrow> slab t a; sampleChain t n (nextp e) (out @ [a]) }
          else Some out)"

text \<open>The loop over buckets, with \<open>budget - step\<close> buckets left.\<close>

primrec sampleLoop :: "'p Table \<Rightarrow> nat \<Rightarrow> nat \<Rightarrow> u64 \<Rightarrow> addr list \<Rightarrow> addr list option" where
  "sampleLoop t n 0 idx out = Some out"
| "sampleLoop t n (Suc left) idx out =
     (if length out < n
      then do { head \<leftarrow> bucket_at t (unat idx);
                out \<leftarrow> sampleChain t n head out;
                sampleLoop t n left ((idx + 1) AND bucketMask t) out }
      else Some out)"

text \<open>Returns the entries written to \<open>out\<close> (of size \<open>n\<close>) and the advanced generator.\<close>

definition Table_sampleSome :: "nat \<Rightarrow> u64 \<Rightarrow> 'p Table \<Rightarrow> (addr list \<times> u64) option" where
  "Table_sampleSome n rng t =
     (if Table_size t = 0 \<or> n = 0 then Some ([], rng)
      else do { let budget = min (n * 10) (bucketCount t);
                let (r, rng) = splitmix64 rng;
                out \<leftarrow> sampleLoop t n budget (r AND bucketMask t) [];
                Some (out, rng) })"

section \<open>Unfolding the chain loops\<close>

text \<open>One equation per shape of the link; they do not loop as rewrite rules.\<close>

named_theorems chain_loops \<open>unfolding of loops over chains\<close>

lemma findLoop_link [chain_loops]:
  "findLoop t h32 key None = Some None"
  "findLoop t h32 key (Some a) =
     do { e \<leftarrow> slab t a; m \<leftarrow> entry_matches t h32 key e;
          if m then Some (Some a) else findLoop t h32 key (nextp e) }"
  by (subst findLoop.simps, simp)+

lemma relinkChain_link [chain_loops]:
  "relinkChain msk None st = Some st"
  "relinkChain msk (Some a) (m, nxt) =
     do { e \<leftarrow> m a;
          require (unat (ucast (hash e) AND msk) < length nxt);
          relinkChain msk (nextp e)
            (m(a \<mapsto> e\<lparr>nextp := nxt ! unat (ucast (hash e) AND msk)\<rparr>),
             nxt[unat (ucast (hash e) AND msk) := Some a]) }"
  by (subst relinkChain.simps, simp add: Let_def)+

lemma clearChain_link [chain_loops]:
  "clearChain ops None t = Some t"
  "clearChain ops (Some a) t =
     do { e \<leftarrow> slab t a; t \<leftarrow> entry_free ops a e t; clearChain ops (nextp e) t }"
  by (subst clearChain.simps, simp add: Let_def)+

lemma scanChain_link [chain_loops]:
  "scanChain tbl visit None s = Some s"
  "scanChain tbl visit (Some a) s =
     do { e \<leftarrow> slab (tbl s) a; s \<leftarrow> visit a s; scanChain tbl visit (nextp e) s }"
  by (subst scanChain.simps, simp add: Let_def)+

lemma sampleChain_link [chain_loops]:
  "sampleChain t n None out = Some out"
  "sampleChain t n (Some a) out =
     (if length out < n then do { e \<leftarrow> slab t a; sampleChain t n (nextp e) (out @ [a]) }
      else Some out)"
  by (subst sampleChain.simps, simp)+

end
