(* ===== verification/Memory.thy ===== *)
theory Memory
  imports Table
begin

text \<open>
  The abstraction of the table's memory. \<open>mem_view\<close> reads every live entry as an abstract
  pair \<open>kv\<close>; \<open>mem_ok\<close> says that every entry is well-formed and that the character heap
  holds exactly the blocks the entries own, each owned once, so nothing leaks and nothing is
  shared. One lemma, \<open>mem_update\<close>, covers insertion, assignment and removal; chains of
  \<open>next\<close> pointers are related to lists by \<open>chain\<close>.
\<close>

section \<open>Abstract entries\<close>

record kv =
  kvKey :: string
  kvVal :: string
  kvExp :: int
  kvLru :: u32

definition kv_of :: "CharHeap \<Rightarrow> Entry \<Rightarrow> kv" where
  "kv_of h e = \<lparr>kvKey = the (Entry_key h e), kvVal = the (Entry_value h e),
     kvExp = expiresAtMs e, kvLru = lruClock e\<rparr>"

definition mem_view :: "(addr \<rightharpoonup> Entry) \<Rightarrow> CharHeap \<Rightarrow> addr \<rightharpoonup> kv" where
  "mem_view m h = (\<lambda>a. map_option (kv_of h) (m a))"

definition own :: "Entry option \<Rightarrow> nat set" where
  "own eo = (case eo of None \<Rightarrow> {} | Some e \<Rightarrow> set_option (entry_block e))"

lemma own_simps [simp]: "own None = {}" "own (Some e) = set_option (entry_block e)"
  by (simp_all add: own_def)

definition mem_ok :: "(addr \<rightharpoonup> Entry) \<Rightarrow> CharHeap \<Rightarrow> bool" where
  "mem_ok m h \<longleftrightarrow>
     (\<forall>a e. m a = Some e \<longrightarrow> entry_ok h e) \<and>
     dom (blocks h) = (\<Union>a. own (m a)) \<and>
     (\<forall>a b. a \<noteq> b \<longrightarrow> own (m a) \<inter> own (m b) = {}) \<and>
     (\<forall>p \<in> dom (blocks h). p < brk h)"

lemma mem_okD:
  assumes "mem_ok m h"
  shows "m a = Some e \<Longrightarrow> entry_ok h e"
    and "own (m a) \<subseteq> dom (blocks h)"
    and "a \<noteq> b \<Longrightarrow> own (m a) \<inter> own (m b) = {}"
    and "p \<in> dom (blocks h) \<Longrightarrow> p < brk h"
  using assms by (auto simp: mem_ok_def)

lemma mem_ok_empty: "mem_ok Map.empty empty_heap"
  by (simp add: mem_ok_def empty_heap_def)

lemma mem_view_dom [simp]: "dom (mem_view m h) = dom m"
  by (auto simp: mem_view_def)

lemma mem_view_Some: "mem_view m h a = Some x \<longleftrightarrow> (\<exists>e. m a = Some e \<and> x = kv_of h e)"
  by (auto simp: mem_view_def)

text \<open>Replacing, adding or dropping the entry at one address.\<close>

lemma mem_update:
  assumes ok: "mem_ok m h"
    and dom: "dom (blocks h') = (dom (blocks h) - own (m a)) \<union> own eo"
    and fresh: "own eo \<inter> dom (blocks h) \<subseteq> own (m a)"
    and frame: "\<And>p. p \<in> dom (blocks h) - own (m a) \<Longrightarrow> blocks h' p = blocks h p"
    and brk: "\<And>p. p \<in> dom (blocks h') \<Longrightarrow> p < brk h'"
    and new: "\<And>e. eo = Some e \<Longrightarrow> entry_ok h' e"
  shows "mem_ok (m(a := eo)) h'"
    and "mem_view (m(a := eo)) h' = (mem_view m h)(a := map_option (kv_of h') eo)"
proof -
  have other: "entry_ok h' f \<and> kv_of h' f = kv_of h f" if "m b = Some f" "b \<noteq> a" for b f
  proof -
    have "blocks h' p = blocks h p" if "entry_block f = Some p" for p
    proof (rule frame)
      show "p \<in> dom (blocks h) - own (m a)"
        using mem_okD(2,3) [OF ok, of b] \<open>m b = Some f\<close> \<open>b \<noteq> a\<close> that by fastforce
    qed
    then show ?thesis using entry_frame [of f h' h] mem_okD(1) [OF ok that(1)]
      by (simp add: kv_of_def)
  qed
  then show "mem_view (m(a := eo)) h' = (mem_view m h)(a := map_option (kv_of h') eo)"
  proof (intro ext)
    fix b
    show "mem_view (m(a := eo)) h' b = ((mem_view m h)(a := map_option (kv_of h') eo)) b"
      using other [of b] by (cases "m b") (auto simp: mem_view_def)
  qed
  have dom_h: "dom (blocks h) = (\<Union>b. own (m b))" using ok by (simp add: mem_ok_def)
  have disj: "own (m b) \<inter> own (m c) = {}" if "b \<noteq> c" for b c using mem_okD(3) [OF ok that] .
  have "(\<Union>b. own (m b)) - own (m a) = (\<Union>b \<in> - {a}. own (m b))"
    using disj by blast
  then have "dom (blocks h') = (\<Union>b. own ((m(a := eo)) b))"
    unfolding dom dom_h by (auto split: if_splits)
  moreover have "own ((m(a := eo)) b) \<inter> own ((m(a := eo)) c) = {}" if "b \<noteq> c" for b c
    using disj [OF that] fresh disj [of a] dom_h that by (auto split: if_splits)
  moreover have "entry_ok h' e" if "(m(a := eo)) b = Some e" for b e
    using that new other [of b e] by (cases "b = a") auto
  ultimately show "mem_ok (m(a := eo)) h'"
    unfolding mem_ok_def using brk by blast
qed

section \<open>Memories that differ in links only\<close>

definition unlinked :: "Entry \<Rightarrow> Entry" where
  "unlinked e = e\<lparr>nextp := None\<rparr>"

definition same_entries :: "(addr \<rightharpoonup> Entry) \<Rightarrow> (addr \<rightharpoonup> Entry) \<Rightarrow> bool" where
  "same_entries m m' \<longleftrightarrow> (\<forall>a. map_option unlinked (m a) = map_option unlinked (m' a))"

lemma unlinked_nextp [simp]: "unlinked (e\<lparr>nextp := l\<rparr>) = unlinked e"
  by (simp add: unlinked_def)

lemma unlinked_sel:
  "bytes (unlinked e) = bytes e" "keyLen (unlinked e) = keyLen e" "valLen (unlinked e) = valLen e"
  "hash (unlinked e) = hash e" "expiresAtMs (unlinked e) = expiresAtMs e"
  "lruClock (unlinked e) = lruClock e"
  by (simp_all add: unlinked_def)

lemma unlinked_fields:
  assumes "unlinked e = unlinked f"
  shows "bytes e = bytes f" "keyLen e = keyLen f" "valLen e = valLen f" "hash e = hash f"
    "expiresAtMs e = expiresAtMs f" "lruClock e = lruClock f"
  using assms by (metis unlinked_sel)+

lemma unlinked_reads:
  assumes "unlinked e = unlinked f"
  shows "entry_ok h e = entry_ok h f" "kv_of h e = kv_of h f" "own (Some e) = own (Some f)"
  using unlinked_fields [OF assms]
  by (simp_all add: entry_ok_def kv_of_def Entry_key_def Entry_value_def getBufData_def spilled_def)

lemma same_entries_refl [simp]: "same_entries m m"
  by (simp add: same_entries_def)

lemma same_entries_sym: "same_entries m m' \<Longrightarrow> same_entries m' m"
  by (simp add: same_entries_def)

lemma same_entries_trans: "same_entries m m' \<Longrightarrow> same_entries m' m'' \<Longrightarrow> same_entries m m''"
  by (simp add: same_entries_def)

lemma same_entries_dom:
  assumes "same_entries m m'"
  shows "dom m = dom m'"
proof -
  have "m a = None \<longleftrightarrow> m' a = None" for a
    using assms [unfolded same_entries_def, rule_format, of a] by (cases "m a"; cases "m' a") auto
  then show ?thesis by (simp add: dom_def)
qed

lemma same_entries_Some:
  assumes "same_entries m m'" "m a = Some e"
  obtains f where "m' a = Some f" "unlinked e = unlinked f"
  using assms(1) [unfolded same_entries_def, rule_format, of a] assms(2) that by (cases "m' a") auto

lemma same_entries_upd:
  "same_entries m0 m \<Longrightarrow> m a = Some e \<Longrightarrow> same_entries m0 (m(a \<mapsto> e\<lparr>nextp := l\<rparr>))"
  by (simp add: same_entries_def)

lemma same_entries_mem:
  assumes "same_entries m m'"
  shows "mem_ok m' h = mem_ok m h" "mem_view m' h = mem_view m h"
proof -
  have cases: "(m a = None \<and> m' a = None) \<or>
      (\<exists>e f. m a = Some e \<and> m' a = Some f \<and> unlinked e = unlinked f)" for a
    using assms [unfolded same_entries_def, rule_format, of a] by (cases "m a"; cases "m' a") auto
  have own: "own (m' a) = own (m a)" for a
    using cases [of a] by (auto dest: unlinked_fields(1))
  have "(\<forall>e. m' a = Some e \<longrightarrow> entry_ok h e) = (\<forall>e. m a = Some e \<longrightarrow> entry_ok h e)" for a
    using cases [of a] by (auto dest: unlinked_reads(1) [of _ _ h])
  then show "mem_ok m' h = mem_ok m h"
    unfolding mem_ok_def own by simp
  show "mem_view m' h = mem_view m h"
  proof
    fix a
    show "mem_view m' h a = mem_view m h a"
      using cases [of a] by (auto simp: mem_view_def dest: unlinked_reads(2) [of _ _ h])
  qed
qed

section \<open>Chains\<close>

text \<open>The list of addresses reached from a link by following \<open>next\<close>.\<close>

primrec chain :: "(addr \<rightharpoonup> Entry) \<Rightarrow> addr option \<Rightarrow> addr list \<Rightarrow> bool" where
  "chain m l [] = (l = None)"
| "chain m l (a # as) = (l = Some a \<and> (\<exists>e. m a = Some e \<and> chain m (nextp e) as))"

lemma chain_None [simp]: "chain m None as \<longleftrightarrow> as = []"
  by (cases as) auto

lemma chain_Some: "chain m (Some a) as \<longleftrightarrow> (\<exists>e bs. as = a # bs \<and> m a = Some e \<and> chain m (nextp e) bs)"
  by (cases as) auto

lemma chain_cong:
  "(\<And>a. a \<in> set as \<Longrightarrow> map_option nextp (m' a) = map_option nextp (m a)) \<Longrightarrow>
     chain m l as \<Longrightarrow> chain m' l as"
proof (induction as arbitrary: l)
  case (Cons a as)
  then obtain e where e: "l = Some a" "m a = Some e" "chain m (nextp e) as" by auto
  moreover have "map_option nextp (m' a) = Some (nextp e)" using Cons.prems(1) [of a] e by simp
  ultimately obtain e' where "m' a = Some e'" "nextp e' = nextp e" by auto
  moreover have "chain m' (nextp e) as" using Cons.IH [of "nextp e"] Cons.prems(1) e(3) by simp
  ultimately show ?case using e(1) by simp
qed simp

lemma chain_upd_outside: "a \<notin> set as \<Longrightarrow> chain m l as \<Longrightarrow> chain (m(a := x)) l as"
  by (erule chain_cong [rotated]) auto

lemma chain_in_dom: "chain m l as \<Longrightarrow> set as \<subseteq> dom m"
  by (induction as arbitrary: l) auto

lemma chain_append: "chain m l (as @ b # bs) \<Longrightarrow> \<exists>e. m b = Some e \<and> chain m (nextp e) bs"
  by (induction as arbitrary: l) auto

text \<open>Unlinking an inner element: its predecessor takes over its successor.\<close>

lemma chain_bypass:
  assumes "chain m l (as @ c # a # bs)" "distinct (as @ c # a # bs)" "m a = Some e" "m c = Some f"
  shows "chain (m(c \<mapsto> f\<lparr>nextp := nextp e\<rparr>)) l (as @ c # bs)"
  using assms
proof (induction as arbitrary: l)
  case Nil
  then have "chain (m(c \<mapsto> f\<lparr>nextp := nextp e\<rparr>)) (nextp e) bs"
    by (intro chain_upd_outside) auto
  with Nil show ?case by (simp add: fun_upd_def)
next
  case (Cons x as)
  from Cons.prems(1) obtain g where g: "l = Some x" "m x = Some g" "chain m (nextp g) (as @ c # a # bs)"
    by auto
  have "chain (m(c \<mapsto> f\<lparr>nextp := nextp e\<rparr>)) (nextp g) (as @ c # bs)"
    by (rule Cons.IH [OF g(3)]) (use Cons.prems in simp_all)
  with g Cons.prems(2) show ?case by (simp add: fun_upd_def)
qed

end
