(* ===== verification/Table_Inv.thy ===== *)
theory Table_Inv
  imports Memory "HOL-Library.Multiset"
begin

text \<open>
  The table invariant and the correctness of the operations that do not change the set of
  entries: lookup, growth, scanning and sampling.

  A table is well-formed (\<open>table_wf css t\<close>) when its buckets are null-terminated chains that
  partition the live entries, every entry sits in the bucket its hash selects and carries
  the hash of its key, keys are unique, and the memory is well-formed.
\<close>

section \<open>The invariant\<close>

abbreviation table_view :: "'p Table \<Rightarrow> addr \<rightharpoonup> kv" where
  "table_view t \<equiv> mem_view (slab t) (chars t)"

definition table_shape :: "'p Table \<Rightarrow> bool" where
  "table_shape t \<longleftrightarrow> (\<exists>k. 2 \<le> k \<and> k \<le> 63 \<and> bucketCount t = 2 ^ k)"

definition table_chains :: "addr list list \<Rightarrow> 'p Table \<Rightarrow> bool" where
  "table_chains css t \<longleftrightarrow>
     length css = bucketCount t \<and>
     (\<forall>i < bucketCount t. chain (slab t) (buckets t ! i) (css ! i)) \<and>
     distinct (concat css) \<and> set (concat css) = dom (slab t) \<and>
     (\<forall>i < bucketCount t. \<forall>a \<in> set (css ! i). \<forall>e. slab t a = Some e \<longrightarrow> bucketOf t (hash e) = i)"

definition table_keyed :: "'p Table \<Rightarrow> bool" where
  "table_keyed t \<longleftrightarrow>
     (\<forall>a e. slab t a = Some e \<longrightarrow> hash e = hash32 t (kvKey (kv_of (chars t) e))) \<and>
     (\<forall>a b x y. table_view t a = Some x \<longrightarrow> table_view t b = Some y \<longrightarrow>
        kvKey x = kvKey y \<longrightarrow> a = b)"

definition table_wf :: "addr list list \<Rightarrow> 'p Table \<Rightarrow> bool" where
  "table_wf css t \<longleftrightarrow> table_shape t \<and> mem_ok (slab t) (chars t) \<and> table_chains css t \<and>
     table_keyed t \<and> liveCount t = length (concat css)"

lemma table_chainsD:
  assumes "table_chains css t"
  shows "length css = bucketCount t"
    and "i < bucketCount t \<Longrightarrow> chain (slab t) (buckets t ! i) (css ! i)"
    and "distinct (concat css)" and "set (concat css) = dom (slab t)"
    and "i < bucketCount t \<Longrightarrow> a \<in> set (css ! i) \<Longrightarrow> slab t a = Some e \<Longrightarrow> bucketOf t (hash e) = i"
  using assms by (auto simp: table_chains_def)

lemma table_wfD:
  assumes "table_wf css t"
  shows "table_shape t" "mem_ok (slab t) (chars t)" "table_chains css t" "table_keyed t"
    "liveCount t = length (concat css)"
  using assms by (auto simp: table_wf_def)

lemma liveCount_card: "table_wf css t \<Longrightarrow> liveCount t = card (dom (slab t))"
  using table_wfD(3,5) [of css t] table_chainsD(3,4) [of css t] by (metis distinct_card)

lemma finite_slab: "table_chains css t \<Longrightarrow> finite (dom (slab t))"
  using table_chainsD(4) by (metis List.finite_set)

section \<open>Bucket selection\<close>

lemma bucketMask_shape: "bucketCount t = 2 ^ k \<Longrightarrow> bucketMask t = 2 ^ k - 1"
  by (simp add: bucketMask_def)

lemma unat_and_bucketMask:
  "bucketCount t = 2 ^ k \<Longrightarrow> unat (c AND bucketMask t) = unat c mod 2 ^ k"
  by (simp only: bucketMask_shape unat_and_mask)

lemma bucketOf_shape:
  "bucketCount t = 2 ^ k \<Longrightarrow> bucketOf t h = unat (ucast h :: u64) mod 2 ^ k"
  by (simp only: bucketOf_def unat_and_bucketMask)

lemma bucketOf_cong: "bucketCount t' = bucketCount t \<Longrightarrow> bucketOf t' = bucketOf t"
  by (simp add: fun_eq_iff bucketOf_def bucketMask_def)

lemma bucketOf_less: "table_shape t \<Longrightarrow> bucketOf t h < bucketCount t"
  by (auto simp: table_shape_def bucketOf_shape)

lemma bucket_at_ok: "i < bucketCount t \<Longrightarrow> bucket_at t i = Some (buckets t ! i)"
  by (simp add: bucket_at_def)

lemma bucket_at_bucketOf: "table_shape t \<Longrightarrow> bucket_at t (bucketOf t h) = Some (buckets t ! bucketOf t h)"
  by (simp add: bucket_at_ok bucketOf_less)

text \<open>Every live entry is in the chain of the bucket its hash selects.\<close>

lemma in_own_chain:
  assumes "table_chains css t" "slab t a = Some e"
  shows "bucketOf t (hash e) < bucketCount t \<and> a \<in> set (css ! bucketOf t (hash e))"
proof -
  have "a \<in> set (concat css)" using table_chainsD(4) [OF assms(1)] assms(2) by blast
  then obtain as where "as \<in> set css" "a \<in> set as" by auto
  then obtain i where "i < length css" "a \<in> set (css ! i)" by (metis in_set_conv_nth)
  then show ?thesis using table_chainsD(1,5) [OF assms(1)] assms(2) by auto
qed

lemma chains_disjoint:
  assumes "table_chains css t" "i < bucketCount t" "j < bucketCount t" "i \<noteq> j"
  shows "set (css ! i) \<inter> set (css ! j) = {}"
proof -
  have False if ai: "a \<in> set (css ! i)" and aj: "a \<in> set (css ! j)" for a
  proof -
    obtain e where "slab t a = Some e"
      using ai chain_in_dom [OF table_chainsD(2) [OF assms(1,2)]] by blast
    then show False using table_chainsD(5) [OF assms(1)] assms(2-4) ai aj by metis
  qed
  then show ?thesis by blast
qed

section \<open>Lookup\<close>

lemma entry_key_kv: "entry_ok h e \<Longrightarrow> Entry_key h e = Some (kvKey (kv_of h e))"
  using entry_key_ok by (fastforce simp: kv_of_def)

lemma entry_value_kv: "entry_ok h e \<Longrightarrow> Entry_value h e = Some (kvVal (kv_of h e))"
  using entry_value_ok by (fastforce simp: kv_of_def)

lemma entry_key_length: "entry_ok h e \<Longrightarrow> length (kvKey (kv_of h e)) = unat (keyLen e)"
  using entry_key_ok entry_key_kv by fastforce

lemma entry_matches_iff:
  assumes "entry_ok (chars t) e"
  shows "entry_matches t h32 key e = Some (hash e = h32 \<and> kvKey (kv_of (chars t) e) = key)"
  using entry_key_kv [OF assms] entry_key_length [OF assms] by (auto simp: entry_matches_def)

lemma findLoop_correct:
  assumes "chain (slab t) link as" "mem_ok (slab t) (chars t)"
  shows "findLoop t h32 key link =
    Some (find (\<lambda>a. \<exists>e. slab t a = Some e \<and> hash e = h32 \<and> kvKey (kv_of (chars t) e) = key) as)"
  using assms(1)
proof (induction as arbitrary: link)
  case Nil
  then show ?case by (simp add: chain_loops)
next
  case (Cons a as)
  then obtain e where e: "link = Some a" "slab t a = Some e" "chain (slab t) (nextp e) as" by auto
  then show ?case
    using Cons.IH [OF e(3)] mem_okD(1) [OF assms(2) e(2)]
    by (simp add: chain_loops entry_matches_iff)
qed

lemma Table_find_correct:
  assumes "table_wf css t"
  shows "\<exists>r. Table_find key t = Some r \<and>
    (case r of Some a \<Rightarrow> (\<exists>x. table_view t a = Some x \<and> kvKey x = key)
     | None \<Rightarrow> (\<forall>a x. table_view t a = Some x \<longrightarrow> kvKey x \<noteq> key))"
proof -
  let ?i = "bucketOf t (hash32 t key)"
  let ?P = "\<lambda>a. \<exists>e. slab t a = Some e \<and> hash e = hash32 t key \<and> kvKey (kv_of (chars t) e) = key"
  note wf = table_wfD [OF assms]
  have i: "?i < bucketCount t" using wf(1) by (rule bucketOf_less)
  then have run: "Table_find key t = Some (find ?P (css ! ?i))"
    using findLoop_correct [OF table_chainsD(2) [OF wf(3) i] wf(2)]
    by (simp add: Table_find_def bucket_at_ok Let_def)
  have "?P a \<and> a \<in> set (css ! ?i)" if "slab t a = Some e" "kvKey (kv_of (chars t) e) = key" for a e
    using that in_own_chain [OF wf(3) that(1)] wf(4) by (auto simp: table_keyed_def)
  then have "\<forall>a x. table_view t a = Some x \<longrightarrow> kvKey x \<noteq> key" if "find ?P (css ! ?i) = None"
    using that by (auto simp: find_None_iff mem_view_Some)
  moreover have "\<exists>x. table_view t a = Some x \<and> kvKey x = key" if "find ?P (css ! ?i) = Some a" for a
    using that by (auto simp: find_Some_iff mem_view_Some)
  ultimately show ?thesis using run by (auto split: option.splits)
qed

section \<open>Growth\<close>

text \<open>The effect of relinking on the chains: each address is pushed onto its new bucket.\<close>

definition push_at :: "(addr \<Rightarrow> nat) \<Rightarrow> addr \<Rightarrow> addr list list \<Rightarrow> addr list list" where
  "push_at ix a nss = nss[ix a := a # nss ! ix a]"

lemma push_at_length [simp]: "length (push_at ix a nss) = length nss"
  by (simp add: push_at_def)

lemma fold_push_length [simp]: "length (fold (push_at ix) as nss) = length nss"
  by (induction as arbitrary: nss) simp_all

lemma concat_update_mset:
  "i < length nss \<Longrightarrow> mset (concat (nss[i := ys])) + mset (nss ! i) = mset (concat nss) + mset ys"
  by (subst (3) id_take_nth_drop [of i nss]) (simp_all add: upd_conv_take_nth_drop)

lemma push_at_mset:
  "ix a < length nss \<Longrightarrow> mset (concat (push_at ix a nss)) = add_mset a (mset (concat nss))"
  using concat_update_mset [of "ix a" nss "a # nss ! ix a"] by (simp add: push_at_def)

lemma fold_push_mset:
  "(\<And>a. a \<in> set as \<Longrightarrow> ix a < length nss) \<Longrightarrow>
     mset (concat (fold (push_at ix) as nss)) = mset as + mset (concat nss)"
proof (induction as arbitrary: nss)
  case (Cons a as)
  then show ?case using push_at_mset [of ix a nss] by (simp add: Cons.IH [of "push_at ix a nss"])
qed simp

lemma fold_push_where:
  "i < length nss \<Longrightarrow> a \<in> set (fold (push_at ix) as nss ! i) \<Longrightarrow>
     a \<in> set (nss ! i) \<or> (a \<in> set as \<and> ix a = i)"
proof (induction as arbitrary: nss)
  case (Cons b as)
  have "a \<in> set (push_at ix b nss ! i) \<or> (a \<in> set as \<and> ix a = i)"
    using Cons.IH [of "push_at ix b nss"] Cons.prems by simp
  then show ?case using Cons.prems(1) by (cases "ix b = i") (auto simp: push_at_def)
qed simp

lemma relinkChain_correct:
  assumes "chain m link as" "distinct as" "length nss = length nxt"
    and "\<And>i. i < length nxt \<Longrightarrow> chain m (nxt ! i) (nss ! i)"
    and "set as \<inter> set (concat nss) = {}"
    and "\<And>a e. a \<in> set as \<Longrightarrow> m a = Some e \<Longrightarrow>
           unat (ucast (hash e) AND msk) = ix a \<and> ix a < length nxt"
  shows "\<exists>m' nxt'. relinkChain msk link (m, nxt) = Some (m', nxt') \<and> same_entries m m' \<and>
    (\<forall>a. a \<notin> set as \<longrightarrow> m' a = m a) \<and> length nxt' = length nxt \<and>
    (\<forall>i < length nxt. chain m' (nxt' ! i) (fold (push_at ix) as nss ! i))"
  using assms
proof (induction as arbitrary: link m nxt nss)
  case Nil
  then show ?case by (simp add: chain_loops)
next
  case (Cons a as)
  from Cons.prems(1) obtain e where e: "link = Some a" "m a = Some e" "chain m (nextp e) as" by auto
  have ix: "unat (ucast (hash e) AND msk) = ix a" "ix a < length nxt"
    using Cons.prems(6) [of a e] e(2) by auto
  let ?m = "m(a \<mapsto> e\<lparr>nextp := nxt ! ix a\<rparr>)" and ?nxt = "nxt[ix a := Some a]"
  have a: "a \<notin> set as" "a \<notin> set (nss ! i)" if "i < length nxt" for i
    using Cons.prems(2,3,5) that by auto
  have "\<exists>m' nxt'. relinkChain msk (nextp e) (?m, ?nxt) = Some (m', nxt') \<and> same_entries ?m m' \<and>
    (\<forall>b. b \<notin> set as \<longrightarrow> m' b = ?m b) \<and> length nxt' = length ?nxt \<and>
    (\<forall>i < length ?nxt. chain m' (nxt' ! i) (fold (push_at ix) as (push_at ix a nss) ! i))"
  proof (rule Cons.IH)
    show "chain ?m (nextp e) as" using a(1) [OF ix(2)] e(3) by (rule chain_upd_outside)
    show "chain ?m (?nxt ! i) (push_at ix a nss ! i)" if "i < length ?nxt" for i
    proof (cases "i = ix a")
      case True
      have "chain ?m (nxt ! ix a) (nss ! ix a)"
        using Cons.prems(4) [OF ix(2)] a(2) [OF ix(2)] by (intro chain_upd_outside)
      with True ix(2) Cons.prems(3) show ?thesis by (simp add: push_at_def fun_upd_def)
    next
      case False
      with that Cons.prems(4) [of i] a(2) [of i] show ?thesis
        by (simp add: push_at_def chain_upd_outside del: fun_upd_apply)
    qed
    have "set (concat (push_at ix a nss)) = insert a (set (concat nss))"
      using push_at_mset [of ix a nss] ix(2) Cons.prems(3) by (metis set_mset_add_mset_insert set_mset_mset)
    then show "set as \<inter> set (concat (push_at ix a nss)) = {}"
      using Cons.prems(2,5) by auto
    show "unat (ucast (hash f) AND msk) = ix b \<and> ix b < length ?nxt" if "b \<in> set as" "?m b = Some f" for b f
      using that Cons.prems(2) Cons.prems(6) [of b f] by (auto split: if_splits)
  qed (use Cons.prems in auto)
  then obtain m' nxt' where IH: "relinkChain msk (nextp e) (?m, ?nxt) = Some (m', nxt')"
    "same_entries ?m m'" "\<forall>b. b \<notin> set as \<longrightarrow> m' b = ?m b" "length nxt' = length nxt"
    "\<forall>i < length nxt. chain m' (nxt' ! i) (fold (push_at ix) as (push_at ix a nss) ! i)"
    by auto
  have "relinkChain msk link (m, nxt) = Some (m', nxt')"
    using IH(1) ix by (simp add: e(1,2) chain_loops)
  moreover have "same_entries m m'"
    using same_entries_upd [of m m a e "nxt ! ix a"] e(2) IH(2) by (auto intro: same_entries_trans)
  ultimately show ?case using IH(3-5) by auto
qed

lemma relinkAll_correct:
  assumes "length css = length heads" "length nss = length nxt"
    and "\<And>i. i < length heads \<Longrightarrow> chain m (heads ! i) (css ! i)"
    and "\<And>i. i < length nxt \<Longrightarrow> chain m (nxt ! i) (nss ! i)"
    and "distinct (concat css)" "set (concat css) \<inter> set (concat nss) = {}"
    and "\<And>a e. a \<in> set (concat css) \<Longrightarrow> m a = Some e \<Longrightarrow>
           unat (ucast (hash e) AND msk) = ix a \<and> ix a < length nxt"
  shows "\<exists>m' nxt'. relinkAll msk heads (m, nxt) = Some (m', nxt') \<and> same_entries m m' \<and>
    length nxt' = length nxt \<and>
    (\<forall>i < length nxt. chain m' (nxt' ! i) (fold (push_at ix) (concat css) nss ! i))"
  using assms
proof (induction heads arbitrary: css m nxt nss)
  case Nil
  then show ?case by simp
next
  case (Cons head heads)
  from Cons.prems(1) obtain as css' where css: "css = as # css'" by (cases css) auto
  have as: "chain m head as" using Cons.prems(3) [of 0] css by simp
  have disj: "set as \<inter> set (concat nss) = {}" "set (concat css') \<inter> set (concat nss) = {}"
    "set as \<inter> set (concat css') = {}"
    using Cons.prems(5,6) css by (simp_all add: Int_Un_distrib2)
  obtain m1 nxt1 where r1: "relinkChain msk head (m, nxt) = Some (m1, nxt1)" "same_entries m m1"
    "\<forall>a. a \<notin> set as \<longrightarrow> m1 a = m a" "length nxt1 = length nxt"
    "\<forall>i < length nxt. chain m1 (nxt1 ! i) (fold (push_at ix) as nss ! i)"
    using relinkChain_correct [OF as, of nss nxt msk ix] Cons.prems(2,4,5,7) disj css by auto
  let ?nss = "fold (push_at ix) as nss"
  have "ix a < length nss" if "a \<in> set as" for a
    using that chain_in_dom [OF as] Cons.prems(2,7) css by fastforce
  then have "set (concat ?nss) = set as \<union> set (concat nss)"
    using fold_push_mset [of as ix nss] by (metis set_mset_mset set_mset_union)
  then have "set (concat css') \<inter> set (concat ?nss) = {}"
    using disj(2,3) by blast
  moreover have "chain m1 (heads ! i) (css' ! i)" if "i < length heads" for i
  proof (rule chain_cong)
    show "chain m (heads ! i) (css' ! i)" using Cons.prems(3) [of "Suc i"] that css by simp
    show "map_option nextp (m1 a) = map_option nextp (m a)" if "a \<in> set (css' ! i)" for a
    proof -
      have "css' ! i \<in> set css'" using Cons.prems(1) css \<open>i < length heads\<close> by simp
      with that disj(3) have "a \<notin> set as" by auto
      then show ?thesis using r1(3) by simp
    qed
  qed
  moreover have "unat (ucast (hash f) AND msk) = ix b \<and> ix b < length nxt"
    if "b \<in> set (concat css')" "m1 b = Some f" for b f
  proof -
    have "b \<notin> set as" using that(1) disj(3) by blast
    then have "m b = Some f" using r1(3) that(2) by simp
    then show ?thesis using Cons.prems(7) [of b f] css that(1) by simp
  qed
  ultimately obtain m' nxt' where "relinkAll msk heads (m1, nxt1) = Some (m', nxt')"
    "same_entries m1 m'" "length nxt' = length nxt"
    "\<forall>i < length nxt. chain m' (nxt' ! i) (fold (push_at ix) (concat css') ?nss ! i)"
    using Cons.IH [of css' ?nss nxt1 m1] Cons.prems(1,2,5) disj(2,3) r1(4,5) css by auto
  then show ?case using r1(1,2) css by (auto intro: same_entries_trans)
qed

lemma has_single_bit_pow2: "has_single_bit (2 ^ j)"
proof -
  have "(2 :: nat) ^ j AND mask j = 0" by (simp flip: take_bit_eq_mask)
  then show ?thesis by (simp add: has_single_bit_def mask_eq_exp_minus_1)
qed

lemma table_keyed_relink:
  assumes "table_keyed t" "same_entries (slab t) (slab t')" "chars t' = chars t" "hashSeed t' = hashSeed t"
  shows "table_keyed t'"
proof -
  have "hash32 t' = hash32 t" using assms(4) by (simp add: fun_eq_iff hash32_def)
  moreover have "hash e = hash32 t (kvKey (kv_of (chars t) e))" if e: "slab t' a = Some e" for a e
  proof -
    have "same_entries (slab t') (slab t)" using assms(2) by (rule same_entries_sym)
    then obtain f where "slab t a = Some f" "unlinked e = unlinked f"
      using e by (rule same_entries_Some)
    then show ?thesis
      using assms(1) unlinked_fields(4) [of e f] unlinked_reads(2) [of e f "chars t"]
      by (auto simp: table_keyed_def)
  qed
  ultimately show ?thesis
    using assms(1) same_entries_mem(2) [OF assms(2)] unfolding table_keyed_def assms(3) by simp
qed

lemma Table_rehash_correct:
  assumes wf: "table_wf css t" and k: "bucketCount t = 2 ^ k" "k < 63"
  shows "\<exists>css' t'. Table_rehash (bucketCount t * 2) t = Some t' \<and> table_wf css' t' \<and>
    bucketCount t' = 2 ^ Suc k \<and> same_entries (slab t) (slab t') \<and> mset (concat css') = mset (concat css) \<and>
    t' = t\<lparr>slab := slab t', buckets := buckets t'\<rparr>"
proof -
  note wfD = table_wfD [OF wf] and ch = table_chainsD [OF table_wfD(3) [OF wf]]
  let ?n = "2 ^ Suc k :: nat" and ?msk = "2 ^ Suc k - 1 :: u64"
  let ?ix = "\<lambda>a. case slab t a of Some e \<Rightarrow> unat (ucast (hash e) :: u64) mod ?n | None \<Rightarrow> 0"
  let ?nss = "replicate ?n [] :: addr list list"
  have msk: "of_nat (bucketCount t * 2) - 1 = ?msk" by (simp add: k mult.commute)
  have ix: "unat (ucast (hash e) AND ?msk) = ?ix a" if "slab t a = Some e" for a e
    unfolding unat_and_mask using that by simp
  obtain m' nxt' where r: "relinkAll ?msk (buckets t) (slab t, replicate ?n None) = Some (m', nxt')"
    "same_entries (slab t) m'" "length nxt' = ?n"
    "\<forall>i < ?n. chain m' (nxt' ! i) (fold (push_at ?ix) (concat css) ?nss ! i)"
    using relinkAll_correct [of css "buckets t" ?nss "replicate ?n None" "slab t" ?msk ?ix]
      ch(1-3) ix by (auto simp: bucketCount_def simp del: replicate_Suc power_Suc)
  let ?t = "t\<lparr>slab := m', buckets := nxt'\<rparr>" and ?css = "fold (push_at ?ix) (concat css) ?nss"
  have run: "Table_rehash (bucketCount t * 2) t = Some ?t"
    using r(1) has_single_bit_pow2 [of "Suc k"] k
    by (simp add: Table_rehash_def msk Let_def mult.commute)
  have ixl: "?ix a < ?n" for a by (simp split: option.splits)
  have ms: "mset (concat ?css) = mset (concat css)"
    using fold_push_mset [of "concat css" ?ix ?nss] ixl by (simp add: mset_concat sum_list_replicate)
  have bc: "bucketCount ?t = ?n" by (simp add: bucketCount_def r(3))
  have "table_chains ?css ?t"
    unfolding table_chains_def
  proof (intro conjI allI impI ballI)
    show "distinct (concat ?css)" using ms ch(3) mset_eq_imp_distinct_iff by blast
    have "set (concat ?css) = set (concat css)" using ms by (metis set_mset_mset)
    then show "set (concat ?css) = dom (slab ?t)"
      using ch(4) same_entries_dom [OF r(2)] by simp
    fix i assume i: "i < bucketCount ?t"
    then show "chain (slab ?t) (buckets ?t ! i) (?css ! i)" using r(4) bc by simp
    fix a e assume a: "a \<in> set (?css ! i)" "slab ?t a = Some e"
    then have "?ix a = i" using fold_push_where [of i ?nss a ?ix "concat css"] i bc by simp
    moreover have "same_entries m' (slab t)" using r(2) by (rule same_entries_sym)
    ultimately show "bucketOf ?t (hash e) = i"
      using a(2) bucketOf_shape [OF bc]
      by (auto elim!: same_entries_Some dest: unlinked_fields(4))
  qed (use r(3) bc in simp_all)
  moreover have "table_shape ?t" using k bc wfD(1) unfolding table_shape_def
    by (intro exI [of _ "Suc k"]) auto
  moreover have "table_keyed ?t"
    by (rule table_keyed_relink [OF wfD(4)]) (simp_all add: r(2))
  moreover have "liveCount ?t = length (concat ?css)"
    using wfD(5) arg_cong [OF ms, of size] by simp
  ultimately have "table_wf ?css ?t"
    using same_entries_mem(1) [OF r(2)] wfD(2) by (simp add: table_wf_def)
  then show ?thesis using run bc ms r(2) by (intro exI [of _ ?css] exI [of _ ?t]) simp
qed

end
