(* ===== verification/Table_Ops.thy ===== *)
theory Table_Ops
  imports Table_Inv
begin

text \<open>
  Correctness of the operations that change the table: construction, insertion with growth,
  assignment in place, removal and clearing. Each lemma says that the operation does not
  fail (no stray access, no double free, every loop returns), keeps the invariant
  \<open>Table_inv\<close>, and acts on the abstract view as a finite map would.
\<close>

definition Table_inv :: "('p \<Rightarrow> addr set) \<Rightarrow> ('p \<Rightarrow> bool) \<Rightarrow> 'p Table \<Rightarrow> bool" where
  "Table_inv live pool_inv t \<longleftrightarrow>
     (\<exists>css. table_wf css t) \<and> pool_inv (pool t) \<and> live (pool t) = dom (slab t)"

section \<open>Bytes of an entry\<close>

definition payload_bytes :: "CharHeap \<Rightarrow> payload \<Rightarrow> string" where
  "payload_bytes h d = (case d of BufPtr p \<Rightarrow> the (blocks h p) | InlineBuf b \<Rightarrow> b)"

lemma kv_of_bytes:
  assumes "entry_ok h e"
  shows "kvKey (kv_of h e) = take (unat (keyLen e)) (payload_bytes h (bytes e))"
    and "kvVal (kv_of h e) = take (unat (valLen e)) (drop (unat (keyLen e)) (payload_bytes h (bytes e)))"
  using assms unfolding entry_ok_def
  by (auto simp: kv_of_def Entry_key_def Entry_value_def getBufData_def heap_read_def
      payload_bytes_def mem_simps elim!: payload_roomE)

lemma take_append_split:
  assumes "take (n + m) b = k @ v" "length k = n"
  shows "take n b = k" "take m (drop n b) = v"
proof -
  have "take n (take (n + m) b) = k" "drop n (take (n + m) b) = v" using assms by simp_all
  then show "take n b = k" "take m (drop n b) = v" by (simp_all add: drop_take)
qed

lemma unat_of_length: "n < 2 ^ 32 \<Longrightarrow> unat (of_nat n :: u32) = n"
  by (simp add: unat_of_nat)

lemma unat_of_lengths:
  "a + b < 2 ^ 32 \<Longrightarrow> unat (of_nat a + of_nat b :: u32) = a + b"
  by (simp add: unat_of_nat flip: of_nat_add)

lemma spill_iff:
  "a + b < 2 ^ 32 \<Longrightarrow> (of_nat a + of_nat b :: u32) > kInlineCap \<longleftrightarrow> 32 < a + b"
  by (simp add: word_less_nat_alt unat_of_lengths kInlineCap_def)

text \<open>The bytes written by an insertion, in either representation.\<close>

lemma insert_bytes:
  fixes key val :: string
  assumes ok: "mem_ok m h" and len: "length key + length val < 2 ^ 32"
    and kl: "kl = of_nat (length key)" and vl: "vl = of_nat (length val)"
    and hp: "(hp, h1) = (if kl + vl > kInlineCap
        then (case new_chars (unat (kl + vl)) h of (p, h) \<Rightarrow> (Some p, h)) else (None, h))"
  shows "\<exists>dat h'. fill_bytes hp kl key vl val h1 = Some (dat, h') \<and>
    dom (blocks h') = dom (blocks h) \<union> set_option (payload_block dat) \<and>
    set_option (payload_block dat) \<inter> dom (blocks h) = {} \<and>
    (\<forall>p \<in> dom (blocks h). blocks h' p = blocks h p) \<and>
    (\<forall>p \<in> dom (blocks h'). p < brk h') \<and>
    (\<forall>e. bytes e = dat \<longrightarrow> keyLen e = kl \<longrightarrow> valLen e = vl \<longrightarrow>
       entry_ok h' e \<and> kvKey (kv_of h' e) = key \<and> kvVal (kv_of h' e) = val)"
proof (cases "32 < length key + length val")
  case True
  have fresh: "brk h \<notin> dom (blocks h)" using mem_okD(4) [OF ok] by blast
  let ?h = "h\<lparr>blocks := (blocks h)(brk h \<mapsto> key @ val), brk := Suc (brk h)\<rparr>"
  have u: "unat kl = length key" "unat vl = length val" "unat (kl + vl) = length key + length val"
    using len by (simp_all add: kl vl unat_of_length unat_of_lengths)
  have fill: "fill_bytes hp kl key vl val h1 = Some (BufPtr (brk h), ?h)"
    using True len hp u by (simp add: kl vl spill_iff new_chars_def fill_bytes_def heap_write_def mem_simps)
  moreover have "entry_ok ?h e \<and> kvKey (kv_of ?h e) = key \<and> kvVal (kv_of ?h e) = val"
    if "bytes e = BufPtr (brk h)" "keyLen e = kl" "valLen e = vl" for e
  proof -
    have "spilled e" using that True len by (simp add: spilled_def kl vl spill_iff)
    then have "entry_ok ?h e" using that len u by (simp add: entry_ok_def)
    with that u show ?thesis by (simp add: kv_of_bytes payload_bytes_def)
  qed
  moreover have "\<forall>p \<in> dom (blocks ?h). p < brk ?h"
    using mem_okD(4) [OF ok] by (auto simp: less_Suc_eq)
  ultimately show ?thesis using fresh by (intro exI [of _ "BufPtr (brk h)"] exI [of _ ?h]) auto
next
  case False
  let ?b = "key @ val @ replicate (32 - (length key + length val)) NUL"
  have u: "unat kl = length key" "unat vl = length val"
    using len by (simp_all add: kl vl unat_of_length)
  have "hp = None" "h1 = h" using hp False len by (simp_all add: kl vl spill_iff)
  then have "fill_bytes hp kl key vl val h1 = Some (InlineBuf ?b, h)"
    using False u by (simp add: fill_bytes_def kInlineCap_def mem_simps)
  moreover have "entry_ok h e \<and> kvKey (kv_of h e) = key \<and> kvVal (kv_of h e) = val"
    if "bytes e = InlineBuf ?b" "keyLen e = kl" "valLen e = vl" for e
  proof -
    have "\<not> spilled e" using that False len by (simp add: spilled_def kl vl spill_iff)
    then have "entry_ok h e" using that False len u by (simp add: entry_ok_def kInlineCap_def)
    with that u show ?thesis by (simp add: kv_of_bytes payload_bytes_def)
  qed
  ultimately show ?thesis using mem_okD(4) [OF ok]
    by (intro exI [of _ "InlineBuf ?b"] exI [of _ h]) auto
qed

section \<open>Keys under an update of one entry\<close>

lemma table_keyed_upd:
  assumes keyed: "table_keyed t"
    and upd: "slab t' = (slab t)(a := eo)" "table_view t' = (table_view t)(a := map_option (kv_of (chars t')) eo)"
      "hashSeed t' = hashSeed t"
    and new: "\<And>e. eo = Some e \<Longrightarrow> hash e = hash32 t (kvKey (kv_of (chars t') e)) \<and>
      (\<forall>b y. b \<noteq> a \<longrightarrow> table_view t b = Some y \<longrightarrow> kvKey y \<noteq> kvKey (kv_of (chars t') e))"
  shows "table_keyed t'"
proof -
  have h32: "hash32 t' = hash32 t" using upd(3) by (simp add: fun_eq_iff hash32_def)
  have "hash f = hash32 t (kvKey (kv_of (chars t') f))" if f: "slab t' b = Some f" for b f
  proof (cases "b = a")
    case True
    then show ?thesis using f new upd(1) by auto
  next
    case False
    then have "slab t b = Some f" "table_view t b = table_view t' b" using f upd by simp_all
    then have "kv_of (chars t') f = kv_of (chars t) f" using f by (simp add: mem_view_def)
    then show ?thesis using keyed \<open>slab t b = Some f\<close> by (simp add: table_keyed_def)
  qed
  moreover have "b = c" if "table_view t' b = Some x" "table_view t' c = Some y" "kvKey x = kvKey y" for b c x y
    using that keyed new unfolding upd(2) table_keyed_def by (fastforce split: if_splits)
  ultimately show ?thesis unfolding table_keyed_def h32 by blast
qed

section \<open>Construction\<close>

lemma Table_init_correct:
  assumes "unat n \<le> 2 ^ 63" "pool_inv p" "live p = {}"
  shows "\<exists>t. Table_init p n seed = Some t \<and> Table_inv live pool_inv t \<and>
    table_view t = Map.empty \<and> hashSeed t = seed"
proof -
  obtain j where j: "nextPow2 n = Some (2 ^ j)" "j \<le> 63" using assms(1) by (rule nextPow2_correct)
  have "\<exists>k. 2 \<le> k \<and> k \<le> 63 \<and> unat (max kMinBuckets (2 ^ j :: u64)) = 2 ^ k"
  proof (cases "kMinBuckets \<le> (2 ^ j :: u64)")
    case True
    have u: "unat (2 ^ j :: u64) = 2 ^ j" using j(2) by (simp add: unat_pow2_u64)
    then have "(2 :: nat) ^ 2 \<le> 2 ^ j" using True by (simp add: kMinBuckets_def word_le_nat_alt)
    then have "2 \<le> j" by (rule power_le_imp_le_exp [rotated]) simp
    then show ?thesis using True u j(2) by (intro exI [of _ j]) (simp add: max_def)
  next
    case False
    then show ?thesis by (intro exI [of _ 2]) (simp add: max_def kMinBuckets_def)
  qed
  then obtain k where k: "2 \<le> k" "k \<le> 63" "unat (max kMinBuckets (2 ^ j :: u64)) = 2 ^ k" by blast
  let ?t = "\<lparr>buckets = replicate (2 ^ k) None, slab = Map.empty, chars = empty_heap, pool = p,
    liveCount = 0, hashSeed = seed\<rparr>"
  have "table_wf (replicate (2 ^ k) []) ?t"
    using k mem_ok_empty
    by (auto simp: table_wf_def table_shape_def table_chains_def table_keyed_def
        bucketCount_def mem_view_def)
  then have "Table_inv live pool_inv ?t" using assms(2,3) by (auto simp: Table_inv_def)
  then show ?thesis using j(1) k(3) by (simp add: Table_init_def mem_view_def)
qed

section \<open>Growth\<close>

lemma Table_maybeGrow_correct:
  assumes wf: "table_wf css t" and cap: "liveCount t \<le> kPoolCapacity"
  shows "\<exists>css' t'. Table_maybeGrow t = Some t' \<and> table_wf css' t' \<and> same_entries (slab t) (slab t') \<and>
    t' = t\<lparr>slab := slab t', buckets := buckets t'\<rparr> \<and>
    (bucketCount t' = bucketCount t \<or> bucketCount t' = 2 * bucketCount t)"
proof (cases "liveCount t > bucketCount t")
  case True
  obtain k where k: "bucketCount t = 2 ^ k" using table_wfD(1) [OF wf] by (auto simp: table_shape_def)
  have "(2 :: nat) ^ k < 2 ^ 18" using True cap k by (simp add: kPoolCapacity_def)
  then have "k < 63" using power_less_imp_less_exp [of "2 :: nat" k 18] by simp
  then show ?thesis
    using Table_rehash_correct [OF wf k] True k by (auto simp: Table_maybeGrow_def)
next
  case False
  then show ?thesis using wf by (auto simp: Table_maybeGrow_def intro!: exI [of _ css])
qed

section \<open>Insertion\<close>

text \<open>Linking a fresh entry at the head of its bucket.\<close>

lemma link_head_wf:
  fixes t :: "'p Table"
  assumes wf: "table_wf css t" and fresh: "slab t a = None"
    and e: "hash e = hash32 t key" "nextp e = buckets t ! bucketOf t (hash e)"
      "kvKey (kv_of h e) = key"
    and absent: "\<And>b x. table_view t b = Some x \<Longrightarrow> kvKey x \<noteq> key"
    and mem: "mem_ok ((slab t)(a \<mapsto> e)) h"
      "mem_view ((slab t)(a \<mapsto> e)) h = (table_view t)(a \<mapsto> kv_of h e)"
    and i_def: "i = bucketOf t (hash e)"
    and t'_def: "t' = t\<lparr>buckets := (buckets t)[i := Some a], slab := (slab t)(a \<mapsto> e), chars := h,
    pool := p, liveCount := liveCount t + 1\<rparr>"
  shows "table_wf (css[i := a # css ! i]) t'"
proof -
  note wfD = table_wfD [OF wf] and ch = table_chainsD [OF table_wfD(3) [OF wf]]
  have i: "i < bucketCount t" "i < length css"
    using bucketOf_less [OF wfD(1)] ch(1) by (simp_all add: i_def)
  have bc: "bucketCount t' = bucketCount t" by (simp add: t'_def bucketCount_def)
  have ms: "mset (concat (css[i := a # css ! i])) = add_mset a (mset (concat css))"
    using concat_update_mset [of i css "a # css ! i"] i by simp
  have a: "a \<notin> set (concat css)" "\<And>j. j < bucketCount t \<Longrightarrow> a \<notin> set (css ! j)"
    using fresh ch(4) chain_in_dom [OF ch(2)] by blast+
  have bo: "bucketOf t' = bucketOf t" using bc by (rule bucketOf_cong)
  have "table_chains (css[i := a # css ! i]) t'"
    unfolding table_chains_def bc bo
  proof (intro conjI allI impI ballI)
    show "distinct (concat (css[i := a # css ! i]))"
      using ms a(1) ch(3) by (metis distinct.simps(2) mset.simps(2) mset_eq_imp_distinct_iff)
    show "set (concat (css[i := a # css ! i])) = dom (slab t')"
      using arg_cong [OF ms, of set_mset] ch(4) by (simp add: t'_def)
    fix j assume j: "j < bucketCount t"
    have "chain (slab t') (buckets t ! j) (css ! j)"
      using chain_upd_outside [OF a(2) [OF j] ch(2) [OF j]] by (simp add: t'_def)
    then show "chain (slab t') (buckets t' ! j) (css[i := a # css ! i] ! j)"
      using i j e(2) by (cases "j = i") (auto simp: t'_def bucketCount_def i_def)
    fix b f assume "b \<in> set (css[i := a # css ! i] ! j)" "slab t' b = Some f"
    then show "bucketOf t (hash f) = j"
      using ch(5) [OF j, of b f] i j a(2) [OF j]
      by (cases "j = i") (auto simp: t'_def i_def split: if_splits)
  qed (use ch(1) in simp)
  moreover have "table_keyed t'"
    using e(1,3) absent mem(2)
    by (intro table_keyed_upd [OF wfD(4), where a = a and eo = "Some e"]) (auto simp: t'_def)
  moreover have "liveCount t' = length (concat (css[i := a # css ! i]))"
    using arg_cong [OF ms, of size] wfD(5) by (simp add: t'_def)
  moreover have "table_shape t'" using wfD(1) bc by (simp add: table_shape_def)
  ultimately show ?thesis using mem(1) by (simp add: table_wf_def t'_def)
qed

section \<open>Assignment in place\<close>

text \<open>Replacing the entry at an address without touching its link or its hash.\<close>

lemma replace_wf:
  assumes wf: "table_wf css t" and e: "slab t a = Some e"
    and e': "nextp e' = nextp e" "hash e' = hash e" "kvKey (kv_of h e') = kvKey (kv_of (chars t) e)"
    and mem: "mem_ok ((slab t)(a \<mapsto> e')) h"
      "mem_view ((slab t)(a \<mapsto> e')) h = (table_view t)(a \<mapsto> kv_of h e')"
  shows "table_wf css (t\<lparr>slab := (slab t)(a \<mapsto> e'), chars := h\<rparr>)" (is "table_wf css ?t")
proof -
  note wfD = table_wfD [OF wf] and ch = table_chainsD [OF table_wfD(3) [OF wf]]
  have bc: "bucketCount ?t = bucketCount t" by (simp add: bucketCount_def)
  have bo: "bucketOf ?t = bucketOf t" using bc by (rule bucketOf_cong)
  have "table_chains css ?t"
    unfolding table_chains_def bc bo
  proof (intro conjI allI impI ballI)
    fix i assume i: "i < bucketCount t"
    show "chain (slab ?t) (buckets ?t ! i) (css ! i)"
      using ch(2) [OF i] e e'(1) by (auto elim: chain_cong [rotated])
    fix b f assume "b \<in> set (css ! i)" "slab ?t b = Some f"
    then show "bucketOf t (hash f) = i"
      using ch(5) [OF i] e e'(2) by (auto split: if_splits)
  qed (use ch e in auto)
  moreover have "table_keyed ?t"
  proof (rule table_keyed_upd [OF wfD(4), where a = a and eo = "Some e'"])
    have x: "table_view t a = Some (kv_of (chars t) e)" using e by (simp add: mem_view_def)
    fix f assume "Some e' = Some f"
    then show "hash f = hash32 t (kvKey (kv_of (chars ?t) f)) \<and>
        (\<forall>b y. b \<noteq> a \<longrightarrow> table_view t b = Some y \<longrightarrow> kvKey y \<noteq> kvKey (kv_of (chars ?t) f))"
      using wfD(4) e e' x unfolding table_keyed_def by auto
  qed (use mem in simp_all)
  moreover have "table_shape ?t" using wfD(1) bc by (simp add: table_shape_def)
  ultimately show ?thesis using mem(1) wfD(5) by (simp add: table_wf_def)
qed

text \<open>
  What the four cases of \<open>Table::assign\<close> leave behind: the new bytes and heap satisfy the
  premises of \<open>mem_update\<close>, and the entry reads as the old key with the new value.
\<close>

definition reassigned :: "CharHeap \<Rightarrow> Entry \<Rightarrow> string \<Rightarrow> payload \<Rightarrow> CharHeap \<Rightarrow> bool" where
  "reassigned h e val dat h' \<longleftrightarrow>
     dom (blocks h') = (dom (blocks h) - own (Some e)) \<union> set_option (payload_block dat) \<and>
     set_option (payload_block dat) \<inter> dom (blocks h) \<subseteq> own (Some e) \<and>
     (\<forall>p \<in> dom (blocks h) - own (Some e). blocks h' p = blocks h p) \<and>
     (\<forall>p \<in> dom (blocks h'). p < brk h') \<and>
     payload_room h' (unat (keyLen e) + length val > 32) dat (unat (keyLen e) + length val) \<and>
     take (unat (keyLen e) + length val) (payload_bytes h' dat) = kvKey (kv_of h e) @ val"

lemma assign_sizes:
  fixes val :: string
  assumes "unat (keyLen e) + length val < 2 ^ 32"
  shows "unat (of_nat (length val) :: u32) = length val"
    and "unat (keyLen e + of_nat (length val)) = unat (keyLen e) + length val"
    and "keyLen e + of_nat (length val) > kInlineCap \<longleftrightarrow> 32 < unat (keyLen e) + length val"
    and "of_nat (length val) > valLen e \<longleftrightarrow> unat (valLen e) < length val"
proof -
  show vl: "unat (of_nat (length val) :: u32) = length val"
    "unat (keyLen e + of_nat (length val)) = unat (keyLen e) + length val"
    using assms by (simp_all add: unat_of_length unat_len_sum)
  show "keyLen e + of_nat (length val) > kInlineCap \<longleftrightarrow> 32 < unat (keyLen e) + length val"
    "of_nat (length val) > valLen e \<longleftrightarrow> unat (valLen e) < length val"
    by (simp_all add: word_less_nat_alt vl kInlineCap_def)
qed

lemma assign_key:
  assumes "entry_ok h e"
  shows "Entry_key h e = Some (kvKey (kv_of h e))" "length (kvKey (kv_of h e)) = unat (keyLen e)"
    and "payload_room h (spilled e) (bytes e) (unat (keyLen e) + unat (valLen e))"
    and "kvKey (kv_of h e) = take (unat (keyLen e)) (payload_bytes h (bytes e))"
  using entry_key_kv [OF assms] entry_key_length [OF assms] kv_of_bytes(1) [OF assms] assms
  by (simp_all add: entry_ok_def)

lemma assign_new_block:
  assumes ok: "mem_ok (slab t) (chars t)" and e: "slab t a = Some e"
    and len: "unat (keyLen e) + length val < 2 ^ 32"
    and new: "32 < unat (keyLen e) + length val" "\<not> spilled e \<or> unat (valLen e) < length val"
  shows "\<exists>dat h'. Table_assign a val t = Some (t\<lparr>slab := (slab t)(a \<mapsto>
      e\<lparr>bytes := dat, valLen := of_nat (length val)\<rparr>), chars := h'\<rparr>) \<and> reassigned (chars t) e val dat h'"
proof -
  let ?h = "chars t"
  let ?h' = "?h\<lparr>blocks := (\<lambda>p. if spilled e \<and> entry_block e = Some p then None
    else ((blocks ?h)(brk ?h \<mapsto> kvKey (kv_of ?h e) @ val)) p), brk := Suc (brk ?h)\<rparr>"
  note k = assign_key [OF mem_okD(1) [OF ok e]] and sz = assign_sizes [OF len]
  have brk: "brk ?h \<notin> dom (blocks ?h)" "\<And>p b. blocks ?h p = Some b \<Longrightarrow> p < brk ?h"
    using mem_okD(4) [OF ok] by blast+
  have "Table_assign a val t = Some (t\<lparr>slab := (slab t)(a \<mapsto>
    e\<lparr>bytes := BufPtr (brk ?h), valLen := of_nat (length val)\<rparr>), chars := ?h'\<rparr>)"
    using k(3) new brk k(1,2) sz(1,2)
    by (auto simp: Table_assign_def Let_def e sz(3,4) new_chars_def heap_write_def mem_simps
        fun_eq_iff elim!: payload_roomE)
  moreover have "reassigned ?h e val (BufPtr (brk ?h)) ?h'"
    using k(3) new brk k(1,2) by (auto simp: reassigned_def payload_bytes_def less_Suc_eq
        split: if_splits elim!: payload_roomE)
  ultimately show ?thesis by blast
qed

lemma assign_old_block:
  assumes ok: "mem_ok (slab t) (chars t)" and e: "slab t a = Some e"
    and len: "unat (keyLen e) + length val < 2 ^ 32"
    and old: "spilled e" "32 < unat (keyLen e) + length val \<Longrightarrow> length val \<le> unat (valLen e)"
  shows "\<exists>dat h'. Table_assign a val t = Some (t\<lparr>slab := (slab t)(a \<mapsto>
      e\<lparr>bytes := dat, valLen := of_nat (length val)\<rparr>), chars := h'\<rparr>) \<and> reassigned (chars t) e val dat h'"
proof -
  let ?h = "chars t" and ?kl = "unat (keyLen e)" and ?vl = "of_nat (length val) :: u32"
  let ?k = "kvKey (kv_of ?h e)" and ?n = "unat (keyLen e) + length val"
  note k = assign_key [OF mem_okD(1) [OF ok e]] and sz = assign_sizes [OF len]
  have brk: "\<And>p b. blocks ?h p = Some b \<Longrightarrow> p < brk ?h" using mem_okD(4) [OF ok] by blast
  obtain p b where p: "bytes e = BufPtr p" "blocks ?h p = Some b" "?kl + unat (valLen e) \<le> length b"
    using k(3) old(1) by (auto elim!: payload_roomE)
  have kb: "?k = take ?kl b" using k(4) p by (simp add: payload_bytes_def)
  show ?thesis
  proof (cases "32 < ?n")
    case True
    let ?b = "take ?kl b @ val @ drop ?n b"
    let ?h' = "?h\<lparr>blocks := (blocks ?h)(p \<mapsto> ?b)\<rparr>"
    have n: "?n \<le> length b" "\<not> unat (valLen e) < length val" using old(2) True p(3) by simp_all
    have "Table_assign a val t = Some (t\<lparr>slab := (slab t)(a \<mapsto>
        e\<lparr>bytes := BufPtr p, valLen := ?vl\<rparr>), chars := ?h'\<rparr>)"
      using old(1) True n sz(1,2) p by (simp add: Table_assign_def Let_def e sz(3,4) heap_write_def mem_simps)
    moreover have "reassigned ?h e val (BufPtr p) ?h'"
      using n p brk True kb by (auto simp: reassigned_def payload_bytes_def)
    ultimately show ?thesis by blast
  next
    case False
    let ?b = "?k @ val @ replicate (32 - ?n) NUL" and ?h' = "?h\<lparr>blocks := (blocks ?h)(p := None)\<rparr>"
    have "Table_assign a val t = Some (t\<lparr>slab := (slab t)(a \<mapsto>
        e\<lparr>bytes := InlineBuf ?b, valLen := ?vl\<rparr>), chars := ?h'\<rparr>)"
      using old(1) False sz(1,2) p k(2) kb
      by (simp add: Table_assign_def Let_def e sz(3,4) heap_read_def mem_simps)
    moreover have "reassigned ?h e val (InlineBuf ?b) ?h'"
      using p brk False k(2) by (auto simp: reassigned_def payload_bytes_def split: if_splits)
    ultimately show ?thesis by blast
  qed
qed

lemma assign_inline:
  assumes ok: "mem_ok (slab t) (chars t)" and e: "slab t a = Some e"
    and len: "unat (keyLen e) + length val < 2 ^ 32"
    and inl: "\<not> spilled e" "\<not> 32 < unat (keyLen e) + length val"
  shows "\<exists>dat h'. Table_assign a val t = Some (t\<lparr>slab := (slab t)(a \<mapsto>
      e\<lparr>bytes := dat, valLen := of_nat (length val)\<rparr>), chars := h'\<rparr>) \<and> reassigned (chars t) e val dat h'"
proof -
  let ?h = "chars t" and ?kl = "unat (keyLen e)"
  note k = assign_key [OF mem_okD(1) [OF ok e]] and sz = assign_sizes [OF len]
  have brk: "\<And>p b. blocks ?h p = Some b \<Longrightarrow> p < brk ?h" using mem_okD(4) [OF ok] by blast
  obtain b where b: "bytes e = InlineBuf b" "?kl + unat (valLen e) \<le> length b" "length b = 32"
    using k(3) inl(1) by (auto elim!: payload_roomE)
  let ?b = "take ?kl b @ val @ drop (?kl + length val) b"
  have "kvKey (kv_of ?h e) = take ?kl b" using k(4) b by (simp add: payload_bytes_def)
  moreover have "Table_assign a val t = Some (t\<lparr>slab := (slab t)(a \<mapsto>
      e\<lparr>bytes := InlineBuf ?b, valLen := of_nat (length val)\<rparr>), chars := ?h\<rparr>)"
    using inl sz(1,2) b by (simp add: Table_assign_def Let_def e sz(3,4) mem_simps)
  moreover have "reassigned ?h e val (InlineBuf ?b) ?h"
    using b brk inl calculation(1) by (auto simp: reassigned_def payload_bytes_def)
  ultimately show ?thesis by blast
qed

lemma Table_assign_bytes:
  assumes "mem_ok (slab t) (chars t)" "slab t a = Some e" "unat (keyLen e) + length val < 2 ^ 32"
  shows "\<exists>dat h'. Table_assign a val t = Some (t\<lparr>slab := (slab t)(a \<mapsto>
      e\<lparr>bytes := dat, valLen := of_nat (length val)\<rparr>), chars := h'\<rparr>) \<and> reassigned (chars t) e val dat h'"
proof (cases "32 < unat (keyLen e) + length val \<and> (\<not> spilled e \<or> unat (valLen e) < length val)")
  case True
  then show ?thesis using assign_new_block [OF assms] by blast
next
  case False
  then show ?thesis
    using assign_old_block [OF assms] assign_inline [OF assms] by (cases "spilled e") auto
qed

section \<open>Removal\<close>

lemma findLink_correct:
  assumes "deref t link = Some l" "chain (slab t) l (as @ a # bs)" "a \<notin> set as"
  shows "findLink t a link = Some (if as = [] then link else NextOf (last as))"
  using assms
proof (induction as arbitrary: link l)
  case Nil
  then show ?case by (simp add: findLink.simps)
next
  case (Cons c as)
  then obtain f where f: "l = Some c" "slab t c = Some f" "chain (slab t) (nextp f) (as @ a # bs)" by auto
  have "findLink t a (NextOf c) = Some (if as = [] then NextOf c else NextOf (last as))"
    using f Cons.prems(3) by (intro Cons.IH [where l = "nextp f"]) simp_all
  then show ?case using Cons.prems(1,3) f(1) by (subst findLink.simps) simp
qed

text \<open>The heap without the block of a freed entry.\<close>

definition freed :: "CharHeap \<Rightarrow> Entry \<Rightarrow> CharHeap" where
  "freed h e = h\<lparr>blocks := (blocks h) |` (- own (Some e))\<rparr>"

lemma entry_free_correct:
  assumes "entry_ok (chars t) e"
  shows "entry_free ops a e t =
    Some (t\<lparr>slab := (slab t)(a := None), chars := freed (chars t) e, pool := deallocate ops a (pool t)\<rparr>)"
  using assms unfolding entry_ok_def
  by (auto simp: entry_free_def freed_def fun_eq_iff restrict_map_def elim!: payload_roomE)

lemma freed_mem:
  assumes "mem_ok m h" "m a = Some e"
  shows "mem_ok (m(a := None)) (freed h e)"
    and "mem_view (m(a := None)) (freed h e) = (mem_view m h)(a := None)"
  using mem_update [OF assms(1), of "freed h e" a None] mem_okD(4) [OF assms(1)] assms(2)
  by (auto simp: freed_def Diff_eq)

text \<open>
  Taking an entry out of its chain: either the bucket slot or the predecessor's link is
  redirected to its successor.
\<close>

definition unlink_slab :: "(addr \<rightharpoonup> Entry) \<Rightarrow> addr list \<Rightarrow> Entry \<Rightarrow> addr \<rightharpoonup> Entry" where
  "unlink_slab m as e =
     (if as = [] then m else m(last as \<mapsto> (the (m (last as)))\<lparr>nextp := nextp e\<rparr>))"

lemma unlink_chain:
  assumes "chain m l (as @ a # bs)" "distinct (as @ a # bs)" "m a = Some e"
  shows "chain ((unlink_slab m as e)(a := None)) (if as = [] then nextp e else l) (as @ bs)"
proof (cases as rule: rev_cases)
  case Nil
  then show ?thesis using assms by (auto simp: unlink_slab_def intro: chain_upd_outside simp del: fun_upd_apply)
next
  case (snoc as' c)
  have "chain m l (as' @ c # a # bs)" "distinct (as' @ c # a # bs)" using assms snoc by simp_all
  moreover from this obtain f where f: "m c = Some f" using chain_append [of m l as' c "a # bs"] by auto
  ultimately have "chain (m(c \<mapsto> f\<lparr>nextp := nextp e\<rparr>)) l (as' @ c # bs)"
    using assms(3) by (intro chain_bypass)
  then have "chain ((m(c \<mapsto> f\<lparr>nextp := nextp e\<rparr>))(a := None)) l (as' @ c # bs)"
    by (rule chain_upd_outside [rotated]) (use assms(2) snoc in auto)
  then show ?thesis using snoc f by (simp add: unlink_slab_def)
qed

lemma unlink_slab_other:
  "chain m l (as @ a # bs) \<Longrightarrow> b \<notin> set as \<Longrightarrow> unlink_slab m as e b = m b"
  by (auto simp: unlink_slab_def)

lemma unlink_same_entries:
  assumes "chain m l (as @ a # bs)"
  shows "same_entries m (unlink_slab m as e)"
proof (cases as rule: rev_cases)
  case (snoc as' c)
  then have "chain m l (as' @ c # a # bs)" using assms by simp
  then obtain f where "m c = Some f" using chain_append by metis
  then show ?thesis using snoc same_entries_upd [of m m c f] by (simp add: unlink_slab_def)
qed (simp add: unlink_slab_def)

lemma unlink_step:
  assumes wf: "table_wf css t" and e: "slab t a = Some e" and i: "i = bucketOf t (hash e)"
    and split: "css ! i = as @ a # bs"
  shows "\<exists>link. findLink t a (Slot i) = Some link \<and>
    set_link t link (nextp e) = Some (t\<lparr>buckets := (buckets t)[i := if as = [] then nextp e else buckets t ! i],
      slab := unlink_slab (slab t) as e\<rparr>)"
proof -
  note wfD = table_wfD [OF wf] and ch = table_chainsD [OF table_wfD(3) [OF wf]]
  have il: "i < bucketCount t" using bucketOf_less [OF wfD(1)] i by simp
  have chain: "chain (slab t) (buckets t ! i) (as @ a # bs)" using ch(2) [OF il] split by simp
  have "distinct (css ! i)" using ch(1,3) il by (simp add: distinct_concat_iff)
  then have find: "findLink t a (Slot i) = Some (if as = [] then Slot i else NextOf (last as))"
    using findLink_correct [OF _ chain, of "Slot i"] il split by (simp add: bucket_at_ok)
  show ?thesis
  proof (cases as rule: rev_cases)
    case Nil
    then show ?thesis using find il by (simp add: unlink_slab_def)
  next
    case (snoc as' c)
    then obtain f where "slab t c = Some f" using chain chain_append [of "slab t" _ as' c "a # bs"] by auto
    then show ?thesis using snoc find by (simp add: unlink_slab_def)
  qed
qed

lemma concat_update_remove1:
  assumes "i < length css" "css ! i = as @ a # bs" "distinct (concat css)"
  shows "distinct (concat (css[i := as @ bs]))" "a \<notin> set (concat (css[i := as @ bs]))"
    "set (concat css) = insert a (set (concat (css[i := as @ bs])))"
    "length (concat css) = Suc (length (concat (css[i := as @ bs])))"
proof -
  let ?c = "concat (css[i := as @ bs])"
  have ms: "mset (concat css) = mset (a # ?c)"
    using concat_update_mset [OF assms(1), of "as @ bs"] assms(2) by simp
  have "distinct (a # ?c)" using mset_eq_imp_distinct_iff [OF ms] assms(3) by simp
  then show "distinct ?c" "a \<notin> set ?c" by simp_all
  show "set (concat css) = insert a (set ?c)" "length (concat css) = Suc (length ?c)"
    using mset_eq_setD [OF ms] mset_eq_length [OF ms] by simp_all
qed

lemma unlink_chains:
  assumes wf: "table_wf css t" and e: "slab t a = Some e" and i: "i = bucketOf t (hash e)"
    and split: "css ! i = as @ a # bs"
    and t': "buckets t' = (buckets t)[i := if as = [] then nextp e else buckets t ! i]"
      "slab t' = (unlink_slab (slab t) as e)(a := None)"
  shows "table_chains (css[i := as @ bs]) t'"
proof -
  note wfD = table_wfD [OF wf] and ch = table_chainsD [OF table_wfD(3) [OF wf]]
  let ?m = "unlink_slab (slab t) as e"
  have il: "i < bucketCount t" using in_own_chain [OF wfD(3) e] i by auto
  have dist: "distinct (css ! i)" using ch(1,3) il by (simp add: distinct_concat_iff)
  have chain: "chain (slab t) (buckets t ! i) (as @ a # bs)" using ch(2) [OF il] split by simp
  have same: "same_entries (slab t) ?m" using chain by (rule unlink_same_entries)
  have bc: "bucketCount t' = bucketCount t" using t' by (simp add: bucketCount_def)
  have bo: "bucketOf t' = bucketOf t" using bc by (rule bucketOf_cong)
  have dc: "distinct (concat (css[i := as @ bs]))" "a \<notin> set (concat (css[i := as @ bs]))"
    "set (concat css) = insert a (set (concat (css[i := as @ bs])))"
    using concat_update_remove1(1-3) [OF _ split ch(3)] il ch(1) by simp_all
  show ?thesis
    unfolding table_chains_def bc bo
  proof (intro conjI allI impI ballI)
    have "dom (slab t') = dom (slab t) - {a}" using same_entries_dom [OF same] t' by auto
    then show "set (concat (css[i := as @ bs])) = dom (slab t')" using ch(4) dc(2,3) by auto
    fix j assume j: "j < bucketCount t"
    show "chain (slab t') (buckets t' ! j) (css[i := as @ bs] ! j)"
    proof (cases "j = i")
      case True
      then show ?thesis
        using unlink_chain [OF chain _ e] dist split il ch(1) t' by (simp add: bucketCount_def)
    next
      case False
      have "set (css ! i) \<inter> set (css ! j) = {}"
        using chains_disjoint [OF wfD(3) il j] False by simp
      then have eq: "(?m(a := None)) b = slab t b" if "b \<in> set (css ! j)" for b
        using that unlink_slab_other [OF chain, of b e] split by auto
      have "chain (?m(a := None)) (buckets t ! j) (css ! j)"
        by (rule chain_cong [OF _ ch(2) [OF j]]) (simp only: eq)
      then show ?thesis using False t' by simp
    qed
    fix b f assume b: "b \<in> set (css[i := as @ bs] ! j)" "slab t' b = Some f"
    then have "?m b = Some f" using t' by (simp split: if_splits)
    with same_entries_sym [OF same] obtain g where g: "slab t b = Some g" "unlinked f = unlinked g"
      by (rule same_entries_Some)
    have "b \<in> set (css ! j)" using b(1) split il ch(1) by (cases "j = i") auto
    then show "bucketOf t (hash f) = j" using ch(5) [OF j _ g(1)] unlinked_fields(4) [OF g(2)] by simp
  qed (use dc ch(1) in simp_all)
qed

text \<open>
  Removal at the level of chains. The chain of the bucket loses one element and every other
  bucket is untouched, which is what lets a scan remove the entries it visits.
\<close>

lemma Table_remove_wf:
  assumes wf: "table_wf css t" and e: "slab t a = Some e"
  defines "i \<equiv> bucketOf t (hash e)"
  shows "\<exists>t'. Table_remove ops a t = Some t' \<and> table_wf (css[i := remove1 a (css ! i)]) t' \<and>
    table_view t' = (table_view t)(a := None) \<and> pool t' = deallocate ops a (pool t) \<and>
    bucketCount t' = bucketCount t \<and> hashSeed t' = hashSeed t \<and> liveCount t' = liveCount t - 1"
proof -
  note wfD = table_wfD [OF wf] and ch = table_chainsD [OF table_wfD(3) [OF wf]]
  have il: "i < bucketCount t" "a \<in> set (css ! i)" using in_own_chain [OF wfD(3) e] i_def by auto
  then obtain as bs where split: "css ! i = as @ a # bs" by (auto dest: split_list)
  have dist: "distinct (css ! i)" using ch(1,3) il by (simp add: distinct_concat_iff)
  then have rem: "remove1 a (css ! i) = as @ bs" using split by (simp add: remove1_append)
  have chain: "chain (slab t) (buckets t ! i) (as @ a # bs)" using ch(2) [OF il(1)] split by simp
  let ?m = "unlink_slab (slab t) as e"
  let ?b = "(buckets t)[i := if as = [] then nextp e else buckets t ! i]"
  let ?t1 = "t\<lparr>buckets := ?b, slab := ?m\<rparr>"
  let ?t = "?t1\<lparr>slab := ?m(a := None), chars := freed (chars t) e, pool := deallocate ops a (pool t),
    liveCount := liveCount t - 1\<rparr>"
  have same: "same_entries (slab t) ?m" using chain by (rule unlink_same_entries)
  have ma: "?m a = Some e" using unlink_slab_other [OF chain] dist split e by simp
  obtain link where "findLink t a (Slot i) = Some link" "set_link t link (nextp e) = Some ?t1"
    using unlink_step [OF wf e _ split] i_def by blast
  then have run: "Table_remove ops a t = Some ?t"
    using e mem_okD(1) [OF wfD(2) e] by (simp add: Table_remove_def i_def [symmetric] entry_free_correct)
  have mem: "mem_ok (?m(a := None)) (freed (chars t) e)"
    "mem_view (?m(a := None)) (freed (chars t) e) = (table_view t)(a := None)"
    using freed_mem [of ?m "chars t" a e] same_entries_mem [OF same, of "chars t"] wfD(2) ma by simp_all
  have bc: "bucketCount ?t = bucketCount t" by (simp add: bucketCount_def)
  have "table_chains (css[i := as @ bs]) ?t"
    using i_def by (intro unlink_chains [OF wf e _ split]) simp_all
  moreover have "table_keyed ?t1" by (rule table_keyed_relink [OF wfD(4)]) (simp_all add: same)
  then have "table_keyed ?t"
    by (rule table_keyed_upd [where a = a and eo = None])
      (simp_all add: mem(2) same_entries_mem(2) [OF same, of "chars t"])
  moreover have "table_shape ?t" using wfD(1) bc by (simp add: table_shape_def)
  moreover have "liveCount ?t = length (concat (css[i := as @ bs]))"
    using concat_update_remove1(4) [OF _ split ch(3)] il ch(1) wfD(5) by simp
  ultimately have "table_wf (css[i := as @ bs]) ?t" using mem(1) by (simp add: table_wf_def)
  then show ?thesis using run rem mem(2) bc by simp
qed

context entry_pool
begin

abbreviation inv :: "'p Table \<Rightarrow> bool" where
  "inv t \<equiv> Table_inv live pool_inv t"

lemma inv_wf: "inv t \<Longrightarrow> \<exists>css. table_wf css t"
  by (simp add: Table_inv_def)

lemma inv_size: "inv t \<Longrightarrow> Table_size t = card (dom (table_view t)) \<and> Table_size t \<le> kPoolCapacity"
  using live_bounded [of "pool t"] by (auto simp: Table_inv_def Table_size_def liveCount_card)

lemma Table_insert_correct:
  assumes inv: "inv t" and room: "Table_size t < kPoolCapacity"
    and len: "length key + length val < 2 ^ 32"
    and absent: "\<And>b x. table_view t b = Some x \<Longrightarrow> kvKey x \<noteq> key"
  shows "\<exists>a t'. Table_insert ops key val t = Some (Some a, t') \<and> inv t' \<and> table_view t a = None \<and>
    table_view t' = (table_view t)(a \<mapsto> \<lparr>kvKey = key, kvVal = val, kvExp = kNoExpiry, kvLru = 0\<rparr>) \<and>
    (bucketCount t' = bucketCount t \<or> bucketCount t' = 2 * bucketCount t) \<and> hashSeed t' = hashSeed t"
proof -
  from inv obtain css where wf: "table_wf css t" by (auto dest: inv_wf)
  have pl: "pool_inv (pool t)" "live (pool t) = dom (slab t)" using inv by (auto simp: Table_inv_def)
  have "card (live (pool t)) < kPoolCapacity"
    using room liveCount_card [OF wf] pl(2) by (simp add: Table_size_def)
  with pl(1) obtain a p' where al: "tryAllocate ops (pool t) = Some (a, p')" "a \<notin> live (pool t)"
    "live p' = insert a (live (pool t))" "pool_inv p'" by (rule alloc_succeeds)
  let ?kl = "of_nat (length key) :: u32" and ?vl = "of_nat (length val) :: u32"
  obtain hp h1 where hp: "(hp, h1) = (if ?kl + ?vl > kInlineCap
      then (case new_chars (unat (?kl + ?vl)) (chars t) of (p, h) \<Rightarrow> (Some p, h)) else (None, chars t))"
    by (metis surj_pair)
  note wfD = table_wfD [OF wf]
  obtain dat h' where fill: "fill_bytes hp ?kl key ?vl val h1 = Some (dat, h')"
    and fd: "dom (blocks h') = dom (blocks (chars t)) \<union> set_option (payload_block dat)"
      "set_option (payload_block dat) \<inter> dom (blocks (chars t)) = {}"
      "\<forall>p \<in> dom (blocks (chars t)). blocks h' p = blocks (chars t) p" "\<forall>p \<in> dom (blocks h'). p < brk h'"
      "\<forall>e. bytes e = dat \<longrightarrow> keyLen e = ?kl \<longrightarrow> valLen e = ?vl \<longrightarrow>
         entry_ok h' e \<and> kvKey (kv_of h' e) = key \<and> kvVal (kv_of h' e) = val"
    using insert_bytes [OF wfD(2) len refl refl hp] by blast
  let ?i = "bucketOf t (hash32 t key)"
  let ?e = "\<lparr>nextp = buckets t ! ?i, expiresAtMs = kNoExpiry, hash = hash32 t key, lruClock = 0,
    keyLen = ?kl, valLen = ?vl, bytes = dat\<rparr>"
  have fresh: "slab t a = None" using al(2) pl(2) by auto
  have e: "entry_ok h' ?e" "kv_of h' ?e = \<lparr>kvKey = key, kvVal = val, kvExp = kNoExpiry, kvLru = 0\<rparr>"
    using fd(5) by (auto simp: kv_of_def)
  have mem: "mem_ok ((slab t)(a \<mapsto> ?e)) h'"
    "mem_view ((slab t)(a \<mapsto> ?e)) h' = (table_view t)(a \<mapsto> kv_of h' ?e)"
    using mem_update [OF wfD(2), of h' a "Some ?e"] fresh fd e(1) by auto
  let ?t1 = "t\<lparr>buckets := (buckets t)[?i := Some a], slab := (slab t)(a \<mapsto> ?e), chars := h',
    pool := p', liveCount := liveCount t + 1\<rparr>"
  have wf1: "table_wf (css[?i := a # css ! ?i]) ?t1"
    using link_head_wf [OF wf fresh, where e = ?e and key = key and h = h'] absent mem e(2) by simp
  have "liveCount ?t1 \<le> kPoolCapacity" using room by (simp add: Table_size_def)
  then obtain css' t' where g: "Table_maybeGrow ?t1 = Some t'" "table_wf css' t'"
    "same_entries (slab ?t1) (slab t')" "t' = ?t1\<lparr>slab := slab t', buckets := buckets t'\<rparr>"
    "bucketCount t' = bucketCount ?t1 \<or> bucketCount t' = 2 * bucketCount ?t1"
    using Table_maybeGrow_correct [OF wf1] by blast
  have bc: "bucketCount t' = bucketCount t \<or> bucketCount t' = 2 * bucketCount t"
    using g(5) by (simp add: bucketCount_def)
  have f: "chars t' = h'" "pool t' = p'" "hashSeed t' = hashSeed t" by (subst g(4), simp)+
  have "Table_insert ops key val t = Some (Some a, t')"
    using fill al(1) g(1) bucket_at_bucketOf [OF wfD(1)]
    by (simp add: Table_insert_def Let_def hp [symmetric])
  moreover have "inv t'"
    using g(2,3) f al pl(2) same_entries_dom [OF g(3)] by (auto simp: Table_inv_def)
  moreover have "table_view t' = (table_view t)(a \<mapsto> kv_of h' ?e)"
    using same_entries_mem(2) [OF g(3), of h'] mem(2) f(1) by simp
  ultimately show ?thesis using fresh f(3) bc e(2) by (auto simp: mem_view_def)
qed

lemma Table_assign_correct:
  assumes inv: "inv t" and x: "table_view t a = Some x"
    and len: "length (kvKey x) + length val < 2 ^ 32"
  shows "\<exists>t'. Table_assign a val t = Some t' \<and> inv t' \<and>
    table_view t' = (table_view t)(a \<mapsto> x\<lparr>kvVal := val\<rparr>) \<and>
    bucketCount t' = bucketCount t \<and> hashSeed t' = hashSeed t"
proof -
  from inv obtain css where wf: "table_wf css t" by (auto dest: inv_wf)
  note wfD = table_wfD [OF wf]
  obtain e where e: "slab t a = Some e" "x = kv_of (chars t) e" using x by (auto simp: mem_view_Some)
  have eok: "entry_ok (chars t) e" using mem_okD(1) [OF wfD(2) e(1)] .
  have kl: "length (kvKey x) = unat (keyLen e)" using entry_key_length [OF eok] e(2) by simp
  obtain dat h where r: "Table_assign a val t = Some (t\<lparr>slab := (slab t)(a \<mapsto>
      e\<lparr>bytes := dat, valLen := of_nat (length val)\<rparr>), chars := h\<rparr>)" "reassigned (chars t) e val dat h"
    using Table_assign_bytes [OF wfD(2) e(1), of val] len kl by auto
  let ?e = "e\<lparr>bytes := dat, valLen := of_nat (length val)\<rparr>"
  have vl: "unat (of_nat (length val) :: u32) = length val"
    "unat (keyLen e + of_nat (length val)) = unat (keyLen e) + length val"
    using len kl by (simp_all add: unat_of_length unat_len_sum)
  have "spilled ?e \<longleftrightarrow> unat (keyLen e) + length val > 32"
    by (simp add: spilled_def word_less_nat_alt vl)
  then have eok': "entry_ok h ?e" using r(2) len kl vl by (simp add: entry_ok_def reassigned_def)
  have kv: "kv_of h ?e = x\<lparr>kvVal := val\<rparr>"
  proof -
    have "take (unat (keyLen e) + length val) (payload_bytes h dat) = kvKey x @ val"
      using r(2) e(2) by (simp add: reassigned_def)
    then have "take (unat (keyLen e)) (payload_bytes h dat) = kvKey x"
      "take (length val) (drop (unat (keyLen e)) (payload_bytes h dat)) = val"
      using take_append_split [of "unat (keyLen e)" "length val"] kl by blast+
    then show ?thesis
      using kv_of_bytes [OF eok'] vl(1) e(2) by (simp add: kv_of_def)
  qed
  have mem: "mem_ok ((slab t)(a \<mapsto> ?e)) h"
    "mem_view ((slab t)(a \<mapsto> ?e)) h = (table_view t)(a \<mapsto> kv_of h ?e)"
    using mem_update [OF wfD(2), of h a "Some ?e"] e(1) eok' r(2) by (auto simp: reassigned_def)
  have "table_wf css (t\<lparr>slab := (slab t)(a \<mapsto> ?e), chars := h\<rparr>)"
    using mem kv e by (intro replace_wf [OF wf e(1)]) simp_all
  then show ?thesis
    using r(1) inv mem kv e(1) by (auto simp: Table_inv_def bucketCount_def)
qed

lemma entry_set_correct:
  assumes inv: "inv t" and x: "table_view t a = Some x"
    and f: "\<And>e. nextp (f e) = nextp e \<and> hash (f e) = hash e \<and> keyLen (f e) = keyLen e \<and>
      valLen (f e) = valLen e \<and> bytes (f e) = bytes e"
    and g: "\<And>h e. kv_of h (f e) = g (kv_of h e)"
  shows "\<exists>t'. entry_set a f t = Some t' \<and> inv t' \<and> table_view t' = (table_view t)(a \<mapsto> g x) \<and>
    bucketCount t' = bucketCount t \<and> hashSeed t' = hashSeed t"
proof -
  from inv obtain css where wf: "table_wf css t" by (auto dest: inv_wf)
  note wfD = table_wfD [OF wf]
  obtain e where e: "slab t a = Some e" "x = kv_of (chars t) e" using x by (auto simp: mem_view_Some)
  have ok: "entry_ok (chars t) (f e) = entry_ok (chars t) e"
    using f by (simp add: entry_ok_def spilled_def)
  have own: "dom (blocks (chars t)) = dom (blocks (chars t)) \<union> set_option (entry_block e)"
    using mem_okD(2) [OF wfD(2), of a] e(1) by auto
  have mem: "mem_ok ((slab t)(a \<mapsto> f e)) (chars t)"
    "mem_view ((slab t)(a \<mapsto> f e)) (chars t) = (table_view t)(a \<mapsto> kv_of (chars t) (f e))"
    using mem_update [OF wfD(2), of "chars t" a "Some (f e)"] e(1) f ok own mem_okD(1,4) [OF wfD(2)] by auto
  have key: "kvKey (kv_of (chars t) (f e)) = kvKey (kv_of (chars t) e)"
    using f by (simp add: kv_of_def Entry_key_def getBufData_def spilled_def)
  have "table_wf css (t\<lparr>slab := (slab t)(a \<mapsto> f e), chars := chars t\<rparr>)"
    using mem f key by (intro replace_wf [OF wf e(1)]) simp_all
  then show ?thesis
    using inv mem e g by (auto simp: entry_set_def Table_inv_def bucketCount_def)
qed

lemma Table_remove_correct:
  assumes inv: "inv t" and x: "table_view t a = Some x"
  shows "\<exists>t'. Table_remove ops a t = Some t' \<and> inv t' \<and> table_view t' = (table_view t)(a := None) \<and>
    bucketCount t' = bucketCount t \<and> hashSeed t' = hashSeed t"
proof -
  from inv obtain css where wf: "table_wf css t" by (auto dest: inv_wf)
  obtain e where e: "slab t a = Some e" using x by (auto simp: mem_view_Some)
  obtain t' where t': "Table_remove ops a t = Some t'" "\<exists>css. table_wf css t'"
    "table_view t' = (table_view t)(a := None)" "pool t' = deallocate ops a (pool t)"
    "bucketCount t' = bucketCount t" "hashSeed t' = hashSeed t"
    using Table_remove_wf [OF wf e] by blast
  have "dom (slab t') = dom (slab t) - {a}"
    using arg_cong [OF t'(3), of dom] by simp
  then show ?thesis
    using t' dealloc [of "pool t" a] inv e by (auto simp: Table_inv_def)
qed

text \<open>With no block left, insertion returns null and takes its spill block back.\<close>

lemma Table_insert_full:
  assumes inv: "inv t" and full: "Table_size t = kPoolCapacity"
    and len: "length key + length val < 2 ^ 32"
  shows "\<exists>t'. Table_insert ops key val t = Some (None, t') \<and> inv t' \<and> table_view t' = table_view t"
proof -
  from inv obtain css where wf: "table_wf css t" by (auto dest: inv_wf)
  note wfD = table_wfD [OF wf]
  have pl: "pool_inv (pool t)" "live (pool t) = dom (slab t)" using inv by (auto simp: Table_inv_def)
  have al: "tryAllocate ops (pool t) = None"
    using alloc_None [OF pl(1)] full liveCount_card [OF wf] pl(2) by (simp add: Table_size_def)
  have "brk (chars t) \<notin> dom (blocks (chars t))" using mem_okD(4) [OF wfD(2)] by blast
  then have b: "(blocks (chars t))(brk (chars t) := None) = blocks (chars t)" by auto
  have "\<exists>k. Table_insert ops key val t =
      Some (None, t\<lparr>chars := (chars t)\<lparr>brk := brk (chars t) + k\<rparr>\<rparr>)"
  proof (cases "32 < length key + length val")
    case True
    then show ?thesis using al b len
      by (intro exI [of _ 1]) (simp add: Table_insert_def Let_def spill_iff new_chars_def)
  next
    case False
    then show ?thesis using al len
      by (intro exI [of _ 0]) (simp add: Table_insert_def Let_def spill_iff)
  qed
  then obtain k where k: "Table_insert ops key val t =
      Some (None, t\<lparr>chars := (chars t)\<lparr>brk := brk (chars t) + k\<rparr>\<rparr>)" by blast
  let ?t = "t\<lparr>chars := (chars t)\<lparr>brk := brk (chars t) + k\<rparr>\<rparr>"
  let ?h = "(chars t)\<lparr>brk := brk (chars t) + k\<rparr>"
  have kv: "kv_of ?h = kv_of (chars t)" "entry_ok ?h = entry_ok (chars t)"
    using entry_frame [of _ ?h "chars t"] by (simp_all add: kv_of_def fun_eq_iff)
  have view: "table_view ?t = table_view t" by (simp add: mem_view_def kv)
  have "mem_ok (slab ?t) (chars ?t)"
    using wfD(2) kv(2) by (auto simp: mem_ok_def intro: trans_less_add1)
  moreover have "table_keyed ?t" using wfD(4) view kv by (simp add: table_keyed_def hash32_def)
  moreover have "table_chains css ?t" "table_shape ?t"
    using wfD(1,3) by (simp_all add: table_chains_def table_shape_def bucketCount_def bucketOf_def bucketMask_def)
  ultimately have "table_wf css ?t" using wfD(5) by (simp add: table_wf_def)
  then show ?thesis using k view pl by (auto simp: Table_inv_def)
qed

lemma clearChain_correct:
  assumes "chain (slab t) l as" "distinct as" "mem_ok (slab t) (chars t)" "pool_inv (pool t)"
    "live (pool t) = dom (slab t)"
  shows "\<exists>t'. clearChain ops l t = Some t' \<and> slab t' = slab t |` (- set as) \<and>
    mem_ok (slab t') (chars t') \<and> pool_inv (pool t') \<and> live (pool t') = dom (slab t') \<and>
    buckets t' = buckets t \<and> hashSeed t' = hashSeed t"
  using assms
proof (induction as arbitrary: l t)
  case Nil
  then show ?case by (simp add: chain_loops)
next
  case (Cons a as)
  then obtain e where e: "l = Some a" "slab t a = Some e" "chain (slab t) (nextp e) as" by auto
  let ?t = "t\<lparr>slab := (slab t)(a := None), chars := freed (chars t) e, pool := deallocate ops a (pool t)\<rparr>"
  have free: "entry_free ops a e t = Some ?t"
    using mem_okD(1) [OF Cons.prems(3) e(2)] by (rule entry_free_correct)
  have chain: "chain (slab ?t) (nextp e) as" using chain_upd_outside [OF _ e(3)] Cons.prems(2) by simp
  have mem: "mem_ok (slab ?t) (chars ?t)" using freed_mem(1) [OF Cons.prems(3) e(2)] by simp
  have pl: "pool_inv (pool ?t)" "live (pool ?t) = dom (slab ?t)"
    using dealloc [of "pool t" a] Cons.prems(4,5) e(2) by auto
  obtain t' where t': "clearChain ops (nextp e) ?t = Some t'" "slab t' = slab ?t |` (- set as)"
    "mem_ok (slab t') (chars t')" "pool_inv (pool t')" "live (pool t') = dom (slab t')"
    "buckets t' = buckets ?t" "hashSeed t' = hashSeed ?t"
    using Cons.IH [OF chain _ mem pl] Cons.prems(2) by (metis distinct.simps(2))
  have "slab t' = slab t |` (- set (a # as))"
    using t'(2) by (auto simp: restrict_map_def fun_eq_iff)
  then show ?case using t' free e by (simp add: chain_loops)
qed

lemma clearFrom_correct:
  assumes "i + n = length (buckets t)" "length css = length (buckets t)"
    "\<And>j. i \<le> j \<Longrightarrow> j < length (buckets t) \<Longrightarrow> chain (slab t) (buckets t ! j) (css ! j)"
    "distinct (concat (drop i css))" "mem_ok (slab t) (chars t)" "pool_inv (pool t)"
    "live (pool t) = dom (slab t)"
  shows "\<exists>t'. clearFrom ops n i t = Some t' \<and> slab t' = slab t |` (- set (concat (drop i css))) \<and>
    mem_ok (slab t') (chars t') \<and> pool_inv (pool t') \<and> live (pool t') = dom (slab t') \<and>
    buckets t' = take i (buckets t) @ replicate n None \<and> hashSeed t' = hashSeed t"
  using assms
proof (induction n arbitrary: i t)
  case 0
  then show ?case by (simp add: restrict_map_def)
next
  case (Suc n)
  have il: "i < length (buckets t)" using Suc.prems(1) by simp
  then have drop: "drop i css = css ! i # drop (Suc i) css" using Suc.prems(2) by (simp add: Cons_nth_drop_Suc)
  have dist: "distinct (css ! i)" "distinct (concat (drop (Suc i) css))"
    "set (css ! i) \<inter> set (concat (drop (Suc i) css)) = {}"
    using Suc.prems(4) unfolding drop by auto
  obtain t1 where t1: "clearChain ops (buckets t ! i) t = Some t1" "slab t1 = slab t |` (- set (css ! i))"
    "mem_ok (slab t1) (chars t1)" "pool_inv (pool t1)" "live (pool t1) = dom (slab t1)"
    "buckets t1 = buckets t" "hashSeed t1 = hashSeed t"
    using clearChain_correct [OF Suc.prems(3) [OF order_refl il] dist(1) Suc.prems(5-7)] by blast
  let ?t = "t1\<lparr>buckets := (buckets t1)[i := None]\<rparr>"
  have chain: "chain (slab ?t) (buckets ?t ! j) (css ! j)" if j: "Suc i \<le> j" "j < length (buckets ?t)" for j
  proof -
    have "css ! j \<in> set (drop (Suc i) css)"
      using j Suc.prems(2) t1(6) by (auto simp: in_set_conv_nth intro!: exI [of _ "j - Suc i"])
    then have "set (css ! i) \<inter> set (css ! j) = {}" using dist(3) by auto
    then have "chain (slab t1) (buckets t ! j) (css ! j)"
      using j t1(2,6) Suc.prems(3) [of j]
      by (intro chain_cong [of "css ! j" "slab t1" "slab t"]) (auto simp: restrict_map_def)
    then show ?thesis using j t1(6) by simp
  qed
  obtain t' where t': "clearFrom ops n (Suc i) ?t = Some t'"
    "slab t' = slab ?t |` (- set (concat (drop (Suc i) css)))"
    "mem_ok (slab t') (chars t')" "pool_inv (pool t')" "live (pool t') = dom (slab t')"
    "buckets t' = take (Suc i) (buckets ?t) @ replicate n None" "hashSeed t' = hashSeed ?t"
    using Suc.IH [of "Suc i" ?t, OF _ _ chain] Suc.prems(1,2) dist(2) t1 by auto
  have "slab t' = slab t |` (- set (concat (drop i css)))"
    using t'(2) t1(2) unfolding drop by (auto simp: restrict_map_def fun_eq_iff)
  moreover have "buckets t' = take i (buckets t) @ replicate (Suc n) None"
    using t'(6) t1(6) il by (simp add: take_Suc_conv_app_nth)
  ultimately show ?case using t' t1(1,7) il by (simp add: bucket_at_def bucketCount_def)
qed

lemma Table_clear_correct:
  assumes inv: "inv t"
  shows "\<exists>t'. Table_clear ops t = Some t' \<and> inv t' \<and> table_view t' = Map.empty \<and>
    blocks (chars t') = Map.empty \<and> live (pool t') = {} \<and>
    bucketCount t' = bucketCount t \<and> hashSeed t' = hashSeed t"
proof -
  from inv obtain css where wf: "table_wf css t" by (auto dest: inv_wf)
  note wfD = table_wfD [OF wf] and ch = table_chainsD [OF table_wfD(3) [OF wf]]
  have pl: "pool_inv (pool t)" "live (pool t) = dom (slab t)" using inv by (auto simp: Table_inv_def)
  obtain t1 where t1: "clearFrom ops (bucketCount t) 0 t = Some t1"
    "slab t1 = slab t |` (- set (concat css))" "mem_ok (slab t1) (chars t1)" "pool_inv (pool t1)"
    "live (pool t1) = dom (slab t1)" "buckets t1 = replicate (bucketCount t) None"
    "hashSeed t1 = hashSeed t"
    using clearFrom_correct [of 0 "bucketCount t" t css] ch wfD(2) pl by (auto simp: bucketCount_def)
  have slab: "slab t1 = Map.empty" using t1(2) ch(4) by (auto simp: restrict_map_def fun_eq_iff)
  let ?t = "t1\<lparr>liveCount := 0\<rparr>"
  have "table_wf (replicate (bucketCount t) []) ?t"
    using wfD(1) t1(3,6) slab
    by (auto simp: table_wf_def table_shape_def table_chains_def table_keyed_def bucketCount_def mem_view_def)
  moreover have "dom (blocks (chars t1)) = {}" using t1(3) slab by (simp add: mem_ok_def)
  ultimately show ?thesis
    using t1(1,4-7) slab by (auto simp: Table_clear_def Table_inv_def mem_view_def bucketCount_def)
qed

end

end
