(* ===== verification/Table_Scan.thy ===== *)
theory Table_Scan
  imports Table_Ops
begin

text \<open>
  Reading the table by position: the sampler returns an initial segment of the chains met
  from a random bucket on, so its entries are live and distinct; a scan of one bucket may
  remove the entry it was handed, because the link to the next one was read before.
\<close>

section \<open>Chains and their first link\<close>

definition head_link :: "addr list \<Rightarrow> addr option" where
  "head_link as = (case as of [] \<Rightarrow> None | a # _ \<Rightarrow> Some a)"

lemma head_link_simps [simp]: "head_link [] = None" "head_link (a # as) = Some a"
  by (simp_all add: head_link_def)

lemma chain_head: "chain m l as \<Longrightarrow> l = head_link as"
  by (cases as) auto

lemma chain_suffix: "chain m l (as @ bs) \<Longrightarrow> chain m (head_link bs) bs"
  by (induction as arbitrary: l) (auto dest: chain_head)

section \<open>Sampling\<close>

lemma sampleChain_correct:
  assumes "chain (slab t) link as"
  shows "sampleChain t n link out = Some (out @ take (n - length out) as)"
  using assms
proof (induction as arbitrary: link out)
  case Nil
  then show ?case by (simp add: chain_loops)
next
  case (Cons a as)
  then obtain e where e: "link = Some a" "slab t a = Some e" "chain (slab t) (nextp e) as" by auto
  then show ?case
    using Cons.IH [OF e(3), of "out @ [a]"] by (simp add: chain_loops take_Cons')
qed

text \<open>The chains of \<open>left\<close> consecutive buckets from \<open>i\<close> on, wrapping around.\<close>

definition chains_from :: "addr list list \<Rightarrow> nat \<Rightarrow> nat \<Rightarrow> addr list" where
  "chains_from css i left = concat (map (\<lambda>j. css ! ((i + j) mod length css)) [0..<left])"

lemma chains_from_0 [simp]: "chains_from css i 0 = []"
  by (simp add: chains_from_def)

lemma chains_from_Suc:
  "chains_from css i (Suc left) = css ! (i mod length css) @ chains_from css (Suc i mod length css) left"
proof -
  have "map (\<lambda>j. css ! ((i + j) mod length css)) [0..<Suc left] =
      css ! (i mod length css) # map (\<lambda>j. css ! ((i + Suc j) mod length css)) [0..<left]"
    by (subst upt_conv_Cons) (simp_all add: map_Suc_upt [symmetric] del: upt_Suc)
  then show ?thesis by (simp add: chains_from_def mod_add_left_eq)
qed

lemma next_index:
  assumes "bucketCount t = 2 ^ k" "k \<le> 63"
  shows "unat ((idx + 1) AND bucketMask t) = Suc (unat idx) mod 2 ^ k"
proof -
  have "unat (idx + 1) mod 2 ^ k = Suc (unat idx) mod 2 ^ 64 mod 2 ^ k"
    by (simp add: unat_word_ariths)
  also have "\<dots> = Suc (unat idx) mod 2 ^ k"
    using assms(2) by (intro mod_mod_cancel le_imp_power_dvd) simp
  finally show ?thesis by (simp only: unat_and_bucketMask [OF assms(1)])
qed

lemma sampleLoop_correct:
  assumes wf: "table_wf css t" and "unat idx < bucketCount t" "length out \<le> n"
  shows "sampleLoop t n left idx out = Some (take n (out @ chains_from css (unat idx) left))"
  using assms(2,3)
proof (induction left arbitrary: idx out)
  case 0
  then show ?case by simp
next
  case (Suc left)
  note ch = table_chainsD [OF table_wfD(3) [OF wf]]
  obtain k where k: "bucketCount t = 2 ^ k" "k \<le> 63"
    using table_wfD(1) [OF wf] by (auto simp: table_shape_def)
  show ?case
  proof (cases "length out < n")
    case True
    let ?c = "css ! unat idx" and ?idx = "(idx + 1) AND bucketMask t"
    have i: "unat ?idx = Suc (unat idx) mod length css" "unat ?idx < bucketCount t"
      using next_index [OF k] ch(1) k(1) by simp_all
    have "sampleLoop t n left ?idx (out @ take (n - length out) ?c) =
        Some (take n ((out @ take (n - length out) ?c) @ chains_from css (unat ?idx) left))"
      using i(2) Suc.prems(2) by (intro Suc.IH) (auto simp: min_def)
    also have "take n ((out @ take (n - length out) ?c) @ chains_from css (unat ?idx) left) =
        take n (out @ chains_from css (unat idx) (Suc left))"
      using Suc.prems ch(1) True by (simp add: chains_from_Suc i(1) min_def)
    finally show ?thesis
      using True sampleChain_correct [OF ch(2) [OF Suc.prems(1)]] Suc.prems(1)
      by (simp add: bucket_at_ok)
  next
    case False
    then show ?thesis using Suc.prems(2) by simp
  qed
qed

lemma chains_from_rotate:
  "left \<le> length css \<Longrightarrow> chains_from css i left = concat (take left (rotate i css))"
  unfolding chains_from_def
  by (rule arg_cong [of _ _ concat], rule nth_equalityI) (simp_all add: nth_rotate)

lemma chains_from_distinct:
  assumes "distinct (concat css)" "left \<le> length css"
  shows "distinct (chains_from css i left)" "set (chains_from css i left) \<subseteq> set (concat css)"
proof -
  let ?m = "i mod length css"
  have css: "concat css = concat (take ?m css) @ concat (drop ?m css)"
    by (metis append_take_drop_id concat_append)
  have rot: "concat (rotate i css) = chains_from css i left @ concat (drop left (rotate i css))"
    unfolding chains_from_rotate [OF assms(2)] by (metis append_take_drop_id concat_append)
  have "concat (rotate i css) = concat (drop ?m css) @ concat (take ?m css)"
    by (simp add: rotate_drop_take)
  then have "distinct (concat (rotate i css))" "set (concat (rotate i css)) = set (concat css)"
    using assms(1) css by auto
  then show "distinct (chains_from css i left)" "set (chains_from css i left) \<subseteq> set (concat css)"
    unfolding rot by auto
qed

text \<open>
  What the sampler promises: live and distinct entries, at most \<open>n\<close>, and at least one when
  the bucket it starts from is not empty.
\<close>

lemma Table_sampleSome_correct:
  assumes wf: "table_wf css t" and size: "Table_size t \<noteq> 0" and n: "0 < n"
  shows "\<exists>out. Table_sampleSome n rng t = Some (out, snd (splitmix64 rng)) \<and>
    distinct out \<and> set out \<subseteq> dom (slab t) \<and> length out \<le> n \<and>
    (css ! unat (fst (splitmix64 rng) AND bucketMask t) \<noteq> [] \<longrightarrow> out \<noteq> [])"
proof -
  note ch = table_chainsD [OF table_wfD(3) [OF wf]]
  obtain k where k: "bucketCount t = 2 ^ k" using table_wfD(1) [OF wf] by (auto simp: table_shape_def)
  let ?i = "unat (fst (splitmix64 rng) AND bucketMask t)" and ?b = "min (n * 10) (bucketCount t)"
  have i: "?i < bucketCount t" by (simp add: unat_and_bucketMask [OF k] k)
  let ?out = "take n (chains_from css ?i ?b)"
  have run: "Table_sampleSome n rng t = Some (?out, snd (splitmix64 rng))"
    using size n sampleLoop_correct [OF wf i, of "[]" n ?b]
    by (simp add: Table_sampleSome_def Let_def split_beta)
  have d: "distinct (chains_from css ?i ?b)" "set (chains_from css ?i ?b) \<subseteq> dom (slab t)"
    using chains_from_distinct [OF ch(3), of ?b ?i] ch(1,4) by simp_all
  have "?b = Suc (?b - 1)" using n k by simp
  then have "chains_from css ?i ?b \<noteq> []" if "css ! ?i \<noteq> []"
    using that i ch(1) chains_from_Suc [of css ?i "?b - 1"] by simp
  then show ?thesis
    using run d n by (auto dest: in_set_takeD simp: distinct_take)
qed

text \<open>Some seed of the generator's full period starts the walk at a bucket that is not empty.\<close>

lemma sample_hits:
  assumes wf: "table_wf css t" and size: "Table_size t \<noteq> 0"
  shows "\<exists>i < 2 ^ 64. css ! unat (fst (splitmix64 (rngAfter i rng)) AND bucketMask t) \<noteq> []"
proof -
  note ch = table_chainsD [OF table_wfD(3) [OF wf]]
  obtain k where k: "bucketCount t = 2 ^ k" "k \<le> 63"
    using table_wfD(1) [OF wf] by (auto simp: table_shape_def)
  have "concat css \<noteq> []" using size table_wfD(5) [OF wf] by (auto simp: Table_size_def)
  then obtain j where j: "j < length css" "css ! j \<noteq> []" by (auto simp: in_set_conv_nth)
  obtain i where i: "i < 2 ^ 64" "fst (splitmix64 (rngAfter i rng)) = of_nat j"
    using splitmix64_surj by blast
  have "(2 :: nat) ^ k \<le> 2 ^ 63" using k(2) by (rule power_increasing) simp
  then have "j < 2 ^ 64" using j(1) ch(1) k(1) by simp
  then have "unat (of_nat j :: u64) = j" by (simp add: unat_of_nat)
  then have "unat (of_nat j AND bucketMask t) = j"
    using j(1) ch(1) k(1) by (simp only: unat_and_bucketMask [OF k(1)]) simp
  then show ?thesis using i j(2) by auto
qed

end
