(* ===== verification/Store.thy ===== *)
theory Store
  imports Table_Scan
begin

text \<open>
  \<^verbatim>\<open>src/core/store.h\<close> and \<^verbatim>\<open>src/core/store.cpp\<close>: the key/value policy over a table, that is
  lazy expiry, eviction by sampled recency, and the incremental expire cycle. Operations
  thread the store and fail (\<open>None\<close>) where the source has undefined behaviour, a failed
  assertion or a loop that does not return. The two values a \<open>std::random_device\<close> would
  deliver are arguments of the constructor; the clock is the argument \<open>now\<close>.
\<close>

section \<open>State\<close>

definition kMaxPasses :: nat where "kMaxPasses = 16"

definition kKeepTtl :: int where "kKeepTtl = -2"

definition kRngSalt :: u64 where "kRngSalt = 0x9e3779b97f4a7c15"

datatype EvictionPolicy = KNoEviction | KAllKeysLru

record ExpireCycleResult =
  reaped :: nat
  passes :: nat

record Config =
  initialBuckets :: u64
  cfgMaxKeys :: u64
  seed :: u64
  cfgLruSamples :: u32
  cfgPolicy :: EvictionPolicy

definition Config_default :: Config where
  "Config_default = \<lparr>initialBuckets = 1024, cfgMaxKeys = 0, seed = 0, cfgLruSamples = 5,
     cfgPolicy = KNoEviction\<rparr>"

record 'p Store =
  rngState :: u64
  maxKeys :: nat
  expireCursor :: u64
  evictions :: u64
  expiredKeys :: u64
  lruSamples :: u32
  table :: "'p Table"
  policy :: EvictionPolicy

definition resolveSeed :: "u32 \<Rightarrow> u32 \<Rightarrow> u64 \<Rightarrow> u64" where
  "resolveSeed rd1 rd2 sd = (if sd \<noteq> 0 then sd else push_bit 32 (ucast rd1) OR ucast rd2)"

definition resolveMaxKeys :: "u64 \<Rightarrow> nat option" where
  "resolveMaxKeys n =
     do { require (unat n \<le> kPoolCapacity); Some (if n = 0 then kPoolCapacity else unat n) }"

definition Store_init :: "'p \<Rightarrow> u32 \<Rightarrow> u32 \<Rightarrow> Config \<Rightarrow> 'p Store option" where
  "Store_init p rd1 rd2 cfg =
     do { let sd = resolveSeed rd1 rd2 (seed cfg);
          n \<leftarrow> resolveMaxKeys (cfgMaxKeys cfg);
          t \<leftarrow> Table_init p (if cfgMaxKeys cfg = 0 then initialBuckets cfg
                            else max (initialBuckets cfg) (cfgMaxKeys cfg)) sd;
          require (cfgLruSamples cfg \<ge> 1 \<and> cfgLruSamples cfg \<le> 64);
          Some \<lparr>rngState = kRngSalt XOR sd, maxKeys = n, expireCursor = 0, evictions = 0,
                expiredKeys = 0, lruSamples = cfgLruSamples cfg, table = t, policy = cfgPolicy cfg\<rparr> }"

definition Store_size :: "'p Store \<Rightarrow> nat" where
  "Store_size s = Table_size (table s)"

definition Store_bucketCount :: "'p Store \<Rightarrow> nat" where
  "Store_bucketCount s = bucketCount (table s)"

section \<open>Lookup\<close>

text \<open>\<open>table_.remove(e)\<close> and a write through an \<open>Entry*\<close>, on the store.\<close>

definition Store_remove :: "'p pool_ops \<Rightarrow> addr \<Rightarrow> 'p Store \<Rightarrow> 'p Store option" where
  "Store_remove ops a s = do { t \<leftarrow> Table_remove ops a (table s); Some (s\<lparr>table := t\<rparr>) }"

definition Store_poke :: "addr \<Rightarrow> (Entry \<Rightarrow> Entry) \<Rightarrow> 'p Store \<Rightarrow> 'p Store option" where
  "Store_poke a f s = do { t \<leftarrow> entry_set a f (table s); Some (s\<lparr>table := t\<rparr>) }"

definition Store_lookup :: "'p pool_ops \<Rightarrow> string \<Rightarrow> int \<Rightarrow> 'p Store \<Rightarrow>
    (addr option \<times> 'p Store) option" where
  "Store_lookup ops key now s =
     do { found \<leftarrow> Table_find key (table s);
          case found of
            None \<Rightarrow> Some (None, s)
          | Some a \<Rightarrow>
              do { e \<leftarrow> slab (table s) a;
                   if Entry_expired e now
                   then do { s \<leftarrow> Store_remove ops a s;
                             Some (None, s\<lparr>expiredKeys := expiredKeys s + 1\<rparr>) }
                   else Some (Some a, s) } }"

definition Store_find :: "'p pool_ops \<Rightarrow> string \<Rightarrow> int \<Rightarrow> bool \<Rightarrow> 'p Store \<Rightarrow>
    (addr option \<times> 'p Store) option" where
  "Store_find ops key now touch s =
     do { (found, s) \<leftarrow> Store_lookup ops key now s;
          case found of
            None \<Rightarrow> Some (None, s)
          | Some a \<Rightarrow>
              if touch
              then do { s \<leftarrow> Store_poke a (\<lambda>e. e\<lparr>lruClock := of_int now\<rparr>) s; Some (Some a, s) }
              else Some (Some a, s) }"

section \<open>Eviction\<close>

definition idle :: "Entry \<Rightarrow> int \<Rightarrow> u32" where
  "idle e now = of_int now - lruClock e"

text \<open>\<open>while (n == 0) n += table_.sampleSome(out, rngState_)\<close>\<close>

partial_function (option) sampleUntil :: "'p Store \<Rightarrow> (addr list \<times> 'p Store) option" where
  "sampleUntil s =
     do { (out, rng) \<leftarrow> Table_sampleSome (unat (lruSamples s)) (rngState s) (table s);
          let s = s\<lparr>rngState := rng\<rparr>;
          if out = [] then sampleUntil s else Some (out, s) }"

text \<open>The loop over the sample, with \<open>hasExpiredOne\<close> and \<open>toEvict\<close>.\<close>

fun evictScan :: "'p pool_ops \<Rightarrow> int \<Rightarrow> addr list \<Rightarrow> bool \<Rightarrow> addr option \<Rightarrow> 'p Store \<Rightarrow>
    (bool \<times> addr option \<times> 'p Store) option" where
  "evictScan ops now [] hasExpiredOne toEvict s = Some (hasExpiredOne, toEvict, s)"
| "evictScan ops now (a # as) hasExpiredOne toEvict s =
     do { e \<leftarrow> slab (table s) a;
          if Entry_expired e now
          then do { s \<leftarrow> Store_remove ops a s;
                    evictScan ops now as True toEvict (s\<lparr>expiredKeys := expiredKeys s + 1\<rparr>) }
          else do { better \<leftarrow> (case toEvict of
                        None \<Rightarrow> Some True
                      | Some b \<Rightarrow> do { f \<leftarrow> slab (table s) b; Some (idle e now > idle f now) });
                    evictScan ops now as hasExpiredOne (if better then Some a else toEvict) s } }"

definition evictOne :: "'p pool_ops \<Rightarrow> int \<Rightarrow> 'p Store \<Rightarrow> 'p Store option" where
  "evictOne ops now s =
     do { require (lruSamples s \<le> 64);
          require (Store_size s \<noteq> 0);
          (out, s) \<leftarrow> sampleUntil s;
          (hasExpiredOne, toEvict, s) \<leftarrow> evictScan ops now out False None s;
          if hasExpiredOne then Some s
          else do { a \<leftarrow> toEvict;
                    s \<leftarrow> Store_remove ops a s;
                    Some (s\<lparr>evictions := evictions s + 1\<rparr>) } }"

section \<open>Writes\<close>

definition Store_set :: "'p pool_ops \<Rightarrow> string \<Rightarrow> string \<Rightarrow> int \<Rightarrow> int \<Rightarrow> 'p Store \<Rightarrow>
    (bool \<times> 'p Store) option" where
  "Store_set ops key val expireAtMs now s =
     do { (found, s) \<leftarrow> Store_lookup ops key now s;
          if expireAtMs \<noteq> kNoExpiry \<and> expireAtMs \<noteq> kKeepTtl \<and> expireAtMs < now
          then (case found of
                  Some a \<Rightarrow> do { s \<leftarrow> Store_remove ops a s; Some (True, s) }
                | None \<Rightarrow> Some (True, s))
          else case found of
            Some a \<Rightarrow>
              do { t \<leftarrow> Table_assign a val (table s);
                   s \<leftarrow> Store_poke a (\<lambda>e. if \<not> kKeepTtl = expireAtMs then e\<lparr>expiresAtMs := expireAtMs\<rparr> else e)
                          (s\<lparr>table := t\<rparr>);
                   s \<leftarrow> Store_poke a (\<lambda>e. e\<lparr>lruClock := of_int now\<rparr>) s;
                   Some (True, s) }
          | None \<Rightarrow>
              if Store_size s \<ge> maxKeys s \<and> policy s = KNoEviction then Some (False, s)
              else do { s \<leftarrow> (if Store_size s \<ge> maxKeys s then evictOne ops now s else Some s);
                        (r, t) \<leftarrow> Table_insert ops key val (table s);
                        a \<leftarrow> r;
                        s \<leftarrow> Store_poke a (\<lambda>e. e\<lparr>expiresAtMs :=
                               (if expireAtMs = kKeepTtl then kNoExpiry else expireAtMs)\<rparr>) (s\<lparr>table := t\<rparr>);
                        s \<leftarrow> Store_poke a (\<lambda>e. e\<lparr>lruClock := of_int now\<rparr>) s;
                        Some (True, s) } }"

definition Store_erase :: "'p pool_ops \<Rightarrow> string \<Rightarrow> int \<Rightarrow> 'p Store \<Rightarrow> (bool \<times> 'p Store) option" where
  "Store_erase ops key now s =
     do { (found, s) \<leftarrow> Store_lookup ops key now s;
          case found of
            None \<Rightarrow> Some (False, s)
          | Some a \<Rightarrow> do { s \<leftarrow> Store_remove ops a s; Some (True, s) } }"

definition Store_setExpireAt :: "'p pool_ops \<Rightarrow> string \<Rightarrow> int \<Rightarrow> int \<Rightarrow> 'p Store \<Rightarrow>
    (bool \<times> 'p Store) option" where
  "Store_setExpireAt ops key expireAtMs now s =
     do { (found, s) \<leftarrow> Store_lookup ops key now s;
          case found of
            None \<Rightarrow> Some (False, s)
          | Some a \<Rightarrow>
              do { require (expireAtMs \<noteq> kKeepTtl);
                   require (expireAtMs \<noteq> kNoExpiry);
                   if expireAtMs < now
                   then do { s \<leftarrow> Store_remove ops a s; Some (True, s) }
                   else do { s \<leftarrow> Store_poke a (\<lambda>e. e\<lparr>lruClock := of_int now\<rparr>) s;
                             s \<leftarrow> Store_poke a (\<lambda>e. e\<lparr>expiresAtMs := expireAtMs\<rparr>) s;
                             Some (True, s) } } }"

definition Store_ttlMs :: "'p pool_ops \<Rightarrow> string \<Rightarrow> int \<Rightarrow> 'p Store \<Rightarrow> (int \<times> 'p Store) option" where
  "Store_ttlMs ops key now s =
     do { (found, s) \<leftarrow> Store_lookup ops key now s;
          case found of
            None \<Rightarrow> Some (-2, s)
          | Some a \<Rightarrow>
              do { e \<leftarrow> slab (table s) a;
                   if expiresAtMs e = kNoExpiry then Some (kNoExpiry, s)
                   else do { require (i64 (expiresAtMs e - now)); Some (expiresAtMs e - now, s) } } }"

section \<open>The expire cycle\<close>

text \<open>The visitor captures \<open>sampled\<close> and \<open>expired\<close> by reference: they travel with the store.\<close>

definition expireVisitor :: "'p pool_ops \<Rightarrow> int \<Rightarrow> addr \<Rightarrow> 'p Store \<times> nat \<times> nat \<Rightarrow>
    ('p Store \<times> nat \<times> nat) option" where
  "expireVisitor ops now a st =
     (case st of (s, sampled, expired) \<Rightarrow>
        do { e \<leftarrow> slab (table s) a;
             if Entry_expired e now
             then do { s \<leftarrow> Store_remove ops a s; Some (s, sampled + 1, expired + 1) }
             else Some (s, sampled + 1, expired) })"

text \<open>The inner \<open>for\<close> loop with \<open>maxBuckets - buckets\<close> iterations left; returns \<open>wrapped\<close>.\<close>

primrec sweepLoop :: "'p pool_ops \<Rightarrow> int \<Rightarrow> nat \<Rightarrow> nat \<Rightarrow> 'p Store \<times> nat \<times> nat \<Rightarrow>
    (bool \<times> 'p Store \<times> nat \<times> nat) option" where
  "sweepLoop ops now sampleLimit 0 st = Some (False, st)"
| "sweepLoop ops now sampleLimit (Suc left) st =
     (if fst (snd st) < sampleLimit
      then do { (c, s, sampled, expired) \<leftarrow>
                  Table_scanBucket (\<lambda>st. table (fst st)) (expireVisitor ops now)
                    (expireCursor (fst st)) st;
                let st = (s\<lparr>expireCursor := c\<rparr>, sampled, expired);
                if c = 0 then Some (True, st) else sweepLoop ops now sampleLimit left st }
      else Some (False, st))"

text \<open>The outer loop with \<open>kMaxPasses - passes\<close> passes left.\<close>

primrec passLoop :: "'p pool_ops \<Rightarrow> int \<Rightarrow> u64 \<Rightarrow> nat \<Rightarrow> ExpireCycleResult \<Rightarrow> 'p Store \<Rightarrow>
    (ExpireCycleResult \<times> 'p Store) option" where
  "passLoop ops now sampleLimit 0 r s = Some (r, s)"
| "passLoop ops now sampleLimit (Suc left) r s =
     do { (wrapped, s, sampled, expired) \<leftarrow>
            sweepLoop ops now (unat sampleLimit) (unat (sampleLimit * 20)) (s, 0, 0);
          let r = \<lparr>reaped = reaped r + expired, passes = passes r + 1\<rparr>;
          let s = s\<lparr>expiredKeys := expiredKeys s + of_nat expired\<rparr>;
          if wrapped \<or> expired * 10 \<le> sampled then Some (r, s)
          else passLoop ops now sampleLimit left r s }"

definition activeExpireCycle :: "'p pool_ops \<Rightarrow> int \<Rightarrow> u64 \<Rightarrow> 'p Store \<Rightarrow>
    (ExpireCycleResult \<times> 'p Store) option" where
  "activeExpireCycle ops now sampleLimit s =
     passLoop ops now sampleLimit kMaxPasses \<lparr>reaped = 0, passes = 0\<rparr> s"

definition Store_clear :: "'p pool_ops \<Rightarrow> 'p Store \<Rightarrow> 'p Store option" where
  "Store_clear ops s =
     do { t \<leftarrow> Table_clear ops (table s); Some (s\<lparr>table := t, expireCursor := 0\<rparr>) }"

definition Store_dtor :: "'p pool_ops \<Rightarrow> 'p Store \<Rightarrow> (CharHeap \<times> 'p) option" where
  "Store_dtor ops s = Table_dtor ops (table s)"

end
