(* ===== verification/Store_Inv.thy ===== *)
theory Store_Inv
  imports Store
begin

text \<open>
  The abstraction of the store: a finite map from keys to abstract entries, read through the
  addresses of the table; the store invariant; and the relation \<open>op_frame\<close> that every
  operation other than the expire cycle satisfies, from which it follows that none of them
  disturbs a sweep in progress.
\<close>

section \<open>Maps from keys\<close>

definition unique_keys :: "(addr \<rightharpoonup> kv) \<Rightarrow> bool" where
  "unique_keys v \<longleftrightarrow> (\<forall>a b x y. v a = Some x \<longrightarrow> v b = Some y \<longrightarrow> kvKey x = kvKey y \<longrightarrow> a = b)"

definition keymap :: "(addr \<rightharpoonup> kv) \<Rightarrow> string \<rightharpoonup> kv" where
  "keymap v k = (if \<exists>a x. v a = Some x \<and> kvKey x = k
     then Some (THE x. \<exists>a. v a = Some x \<and> kvKey x = k) else None)"

lemma unique_keys_same:
  assumes "unique_keys v" "v a = Some x" "v b = Some y" "kvKey y = kvKey x"
  shows "y = x"
proof -
  have "a = b" using assms unfolding unique_keys_def by metis
  then show ?thesis using assms(2,3) by simp
qed

lemma keymap_None: "keymap v k = None \<longleftrightarrow> (\<forall>a x. v a = Some x \<longrightarrow> kvKey x \<noteq> k)"
  by (auto simp: keymap_def)

lemma keymap_at:
  assumes "unique_keys v" "v a = Some x"
  shows "keymap v (kvKey x) = Some x"
proof -
  have "(THE y. \<exists>a. v a = Some y \<and> kvKey y = kvKey x) = x"
    using assms by (intro the_equality) (auto dest: unique_keys_same)
  then show ?thesis using assms(2) by (auto simp: keymap_def)
qed

lemma keymap_Some:
  assumes "unique_keys v"
  shows "keymap v k = Some x \<longleftrightarrow> (\<exists>a. v a = Some x \<and> kvKey x = k)"
proof
  assume k: "keymap v k = Some x"
  then obtain a y where y: "v a = Some y" "kvKey y = k" by (metis keymap_None option.distinct(1))
  then show "\<exists>a. v a = Some x \<and> kvKey x = k" using k keymap_at [OF assms y(1)] by auto
qed (auto dest: keymap_at [OF assms])

lemma keymap_eqI:
  assumes "unique_keys v" "\<And>k x. (\<exists>a. v a = Some x \<and> kvKey x = k) \<longleftrightarrow> m k = Some x"
  shows "keymap v = m"
proof
  fix k
  show "keymap v k = m k"
    using assms(2) [of _ k] keymap_Some [OF assms(1), of k] by (metis not_Some_eq)
qed

lemma unique_keys_upd:
  assumes "unique_keys v" "\<And>b y. v b = Some y \<Longrightarrow> kvKey y = kvKey x \<Longrightarrow> b = a"
  shows "unique_keys (v(a \<mapsto> x))"
  using assms unfolding unique_keys_def by (auto split: if_splits)

lemma unique_keys_sub: "unique_keys v \<Longrightarrow> v' \<subseteq>\<^sub>m v \<Longrightarrow> unique_keys v'"
  unfolding unique_keys_def map_le_def by (metis domI)

lemma keymap_upd:
  assumes v: "unique_keys v" and own: "\<And>b y. v b = Some y \<Longrightarrow> kvKey y = kvKey x \<Longrightarrow> b = a"
    and old: "\<And>y. v a = Some y \<Longrightarrow> kvKey y = kvKey x"
  shows "keymap (v(a \<mapsto> x)) = (keymap v)(kvKey x \<mapsto> x)"
proof (rule keymap_eqI [OF unique_keys_upd [OF v own]])
  fix k y
  show "(\<exists>b. (v(a \<mapsto> x)) b = Some y \<and> kvKey y = k) \<longleftrightarrow> ((keymap v)(kvKey x \<mapsto> x)) k = Some y"
  proof (cases "k = kvKey x")
    case True
    have "b \<noteq> a \<Longrightarrow> v b = Some y \<Longrightarrow> kvKey y \<noteq> kvKey x" for b using own [of b y] by blast
    then show ?thesis using True by (auto intro: exI [of _ a] split: if_splits)
  next
    case False
    have "b \<noteq> a" if "v b = Some y" "kvKey y = k" for b using that old [of y] False by auto
    then show ?thesis using False by (auto simp: keymap_Some [OF v] split: if_splits)
  qed
qed

lemma keymap_restrict:
  assumes v: "unique_keys v"
  shows "keymap (v |` (- R)) = keymap v |` (- {kvKey x | a x. a \<in> R \<and> v a = Some x})"
proof (rule keymap_eqI)
  show "unique_keys (v |` (- R))"
    using v by (rule unique_keys_sub) (auto simp: map_le_def restrict_map_def)
  fix k y
  show "(\<exists>b. (v |` (- R)) b = Some y \<and> kvKey y = k) \<longleftrightarrow>
      (keymap v |` (- {kvKey x | a x. a \<in> R \<and> v a = Some x})) k = Some y"
    using v by (auto simp: restrict_map_def keymap_Some [OF v] unique_keys_def split: if_splits)
qed

lemma keys_image: "R \<subseteq> dom v \<Longrightarrow> {kvKey x | a x. a \<in> R \<and> v a = Some x} = (\<lambda>a. kvKey (the (v a))) ` R"
  by (force simp: image_def)

lemma keymap_remove:
  assumes v: "unique_keys v" and x: "v a = Some x"
  shows "keymap (v(a := None)) = (keymap v)(kvKey x := None)"
proof -
  have "v(a := None) = v |` (- {a})" by (auto simp: restrict_map_def)
  moreover have "{kvKey x | b x. b \<in> {a} \<and> v b = Some x} = {kvKey x}" using x by auto
  moreover have "(keymap v)(kvKey x := None) = keymap v |` (- {kvKey x})" by (auto simp: restrict_map_def)
  ultimately show ?thesis using keymap_restrict [OF v, of "{a}"] by simp
qed

section \<open>Deadlines\<close>

definition kv_expired :: "kv \<Rightarrow> int \<Rightarrow> bool" where
  "kv_expired x now \<longleftrightarrow> kvExp x \<noteq> kNoExpiry \<and> kvExp x < now"

lemma Entry_expired_kv: "Entry_expired e now = kv_expired (kv_of h e) now"
  by (simp add: Entry_expired_def kv_expired_def kv_of_def)

lemma kv_expired_mono: "kv_expired x t \<Longrightarrow> t \<le> now \<Longrightarrow> kv_expired x now"
  by (simp add: kv_expired_def)

definition kv_idle :: "kv \<Rightarrow> int \<Rightarrow> u32" where
  "kv_idle x now = of_int now - kvLru x"

lemma idle_kv: "idle e now = kv_idle (kv_of h e) now"
  by (simp add: idle_def kv_idle_def kv_of_def)

definition live_at :: "int \<Rightarrow> (string \<rightharpoonup> kv) \<Rightarrow> string \<rightharpoonup> kv" where
  "live_at now m k = (case m k of None \<Rightarrow> None | Some x \<Rightarrow> if kv_expired x now then None else Some x)"

lemma live_at_Some: "live_at now m k = Some x \<longleftrightarrow> m k = Some x \<and> \<not> kv_expired x now"
  by (auto simp: live_at_def split: option.splits)

lemma live_at_upd:
  "live_at now (m(k \<mapsto> x)) = (live_at now m)(k := if kv_expired x now then None else Some x)"
  "live_at now (m(k := None)) = (live_at now m)(k := None)"
  by (auto simp: live_at_def fun_eq_iff)

text \<open>
  What one eviction may take out of the store: expired entries, or else exactly one entry, the
  one idle for longest in a sample of at most \<open>n\<close> live entries.
\<close>

definition evicted :: "nat \<Rightarrow> int \<Rightarrow> ('a \<rightharpoonup> kv) \<Rightarrow> 'a set \<Rightarrow> bool" where
  "evicted n now v R \<longleftrightarrow> R \<noteq> {} \<and> R \<subseteq> dom v \<and>
     ((\<forall>a \<in> R. kv_expired (the (v a)) now) \<or>
      (\<exists>a out. R = {a} \<and> a \<in> set out \<and> set out \<subseteq> dom v \<and> length out \<le> n \<and>
         (\<forall>b \<in> set out. \<not> kv_expired (the (v b)) now \<and> kv_idle (the (v b)) now \<le> kv_idle (the (v a)) now)))"

lemma evicted_lruI:
  "a \<in> set out \<Longrightarrow> set out \<subseteq> dom v \<Longrightarrow> length out \<le> n \<Longrightarrow>
     \<forall>b \<in> set out. \<not> kv_expired (the (v b)) now \<and> kv_idle (the (v b)) now \<le> kv_idle (the (v a)) now \<Longrightarrow>
     evicted n now v {a}"
  unfolding evicted_def by (intro conjI disjI2 exI [of _ a] exI [of _ out]) auto

lemma evicted_keymap:
  assumes v: "unique_keys v" and R: "evicted n now v R"
  shows "evicted n now (keymap v) {kvKey x | a x. a \<in> R \<and> v a = Some x}" (is "evicted n now ?m ?K")
proof -
  let ?k = "\<lambda>a. kvKey (the (v a))"
  have m: "?m (?k a) = v a" if "a \<in> dom v" for a using that keymap_at [OF v, of a] by auto
  have sub: "R \<subseteq> dom v" "R \<noteq> {}" using R by (auto simp: evicted_def)
  have K: "?K = ?k ` R" using sub(1) by (rule keys_image)
  have dom: "?k ` A \<subseteq> dom ?m" if "A \<subseteq> dom v" for A using that m by force
  from R consider "\<forall>a \<in> R. kv_expired (the (v a)) now"
    | a out where "R = {a}" "a \<in> set out" "set out \<subseteq> dom v" "length out \<le> n"
      "\<forall>b \<in> set out. \<not> kv_expired (the (v b)) now \<and> kv_idle (the (v b)) now \<le> kv_idle (the (v a)) now"
    unfolding evicted_def by blast
  then show ?thesis
  proof cases
    case 1
    have "?m (?k a) = v a" if "a \<in> R" for a using that m sub(1) by blast
    then have "\<forall>k \<in> ?k ` R. kv_expired (the (?m k)) now" using 1 by simp
    then show ?thesis using dom [OF sub(1)] sub(2) unfolding evicted_def K by blast
  next
    case 2
    have "?m (?k b) = v b" if "b \<in> set out" for b using that m 2(3) by blast
    then have "\<forall>k \<in> ?k ` set out. \<not> kv_expired (the (?m k)) now \<and>
        kv_idle (the (?m k)) now \<le> kv_idle (the (?m (?k a))) now"
      using 2(2,5) by simp
    then have "evicted n now ?m {?k a}"
      using 2(2,4) dom [OF 2(3)] by (intro evicted_lruI [of _ "map ?k out"]) simp_all
    then show ?thesis using K 2(1) by simp
  qed
qed

lemma keymap_card:
  assumes v: "unique_keys v"
  shows "card (dom (keymap v)) = card (dom v)"
proof -
  have "dom (keymap v) = (\<lambda>a. kvKey (the (v a))) ` dom v"
    by (force simp: image_def keymap_Some [OF v])
  moreover have "inj_on (\<lambda>a. kvKey (the (v a))) (dom v)"
    using v by (auto simp: inj_on_def unique_keys_def)
  ultimately show ?thesis by (simp add: card_image)
qed

section \<open>The invariant\<close>

abbreviation store_view :: "'p Store \<Rightarrow> addr \<rightharpoonup> kv" where
  "store_view s \<equiv> table_view (table s)"

abbreviation store_map :: "'p Store \<Rightarrow> string \<rightharpoonup> kv" where
  "store_map s \<equiv> keymap (store_view s)"

definition Store_inv :: "('p \<Rightarrow> addr set) \<Rightarrow> ('p \<Rightarrow> bool) \<Rightarrow> 'p Store \<Rightarrow> bool" where
  "Store_inv live pool_inv s \<longleftrightarrow>
     Table_inv live pool_inv (table s) \<and> Store_size s \<le> maxKeys s \<and>
     0 < maxKeys s \<and> maxKeys s \<le> kPoolCapacity \<and> 1 \<le> lruSamples s \<and> lruSamples s \<le> 64 \<and>
     unat (expireCursor s) < Store_bucketCount s \<and>
     (\<forall>a x. store_view s a = Some x \<longrightarrow> i64 (kvExp x))"

lemma Store_inv_fields [simp]:
  "Store_inv live pool_inv (s\<lparr>expiredKeys := n\<rparr>) = Store_inv live pool_inv s"
  "Store_inv live pool_inv (s\<lparr>evictions := n\<rparr>) = Store_inv live pool_inv s"
  "Store_inv live pool_inv (s\<lparr>rngState := r\<rparr>) = Store_inv live pool_inv s"
  by (simp_all add: Store_inv_def Store_size_def Store_bucketCount_def)

section \<open>Sweeps\<close>

text \<open>The bucket of a key, and its position in the order in which the cursor visits buckets.\<close>

definition key_bucket :: "'p Table \<Rightarrow> string \<Rightarrow> nat" where
  "key_bucket t key = bucketOf t (hash32 t key)"

text \<open>
  \<open>swept t0 s\<close>: no entry in a bucket the cursor has passed is expired at time \<open>t0\<close>. A sweep
  starts at cursor 0, where this holds trivially.
\<close>

definition swept :: "int \<Rightarrow> 'p Store \<Rightarrow> bool" where
  "swept t0 s \<longleftrightarrow> (\<forall>k a x. Store_bucketCount s = 2 ^ k \<longrightarrow> store_view s a = Some x \<longrightarrow>
     revn k (key_bucket (table s) (kvKey x)) < revn k (unat (expireCursor s)) \<longrightarrow>
     \<not> kv_expired x t0)"

definition fresher :: "int \<Rightarrow> (addr \<rightharpoonup> kv) \<Rightarrow> (addr \<rightharpoonup> kv) \<Rightarrow> bool" where
  "fresher now v v' \<longleftrightarrow> (\<forall>a x. v' a = Some x \<longrightarrow> \<not> kv_expired x now \<or>
     (\<exists>b y. v b = Some y \<and> kvKey y = kvKey x \<and> kvExp y = kvExp x))"

definition op_frame :: "int \<Rightarrow> 'p Store \<Rightarrow> 'p Store \<Rightarrow> bool" where
  "op_frame now s s' \<longleftrightarrow>
     maxKeys s' = maxKeys s \<and> lruSamples s' = lruSamples s \<and> policy s' = policy s \<and>
     expireCursor s' = expireCursor s \<and> hashSeed (table s') = hashSeed (table s) \<and>
     (\<exists>j. Store_bucketCount s' = Store_bucketCount s * 2 ^ j) \<and>
     fresher now (store_view s) (store_view s')"

lemma fresher_refl: "fresher now v v"
  by (auto simp: fresher_def)

lemma fresher_sub: "v' \<subseteq>\<^sub>m v \<Longrightarrow> fresher now v v'"
  unfolding fresher_def map_le_def by (metis domI)

lemma fresher_trans:
  assumes "fresher now u v" "fresher now v w"
  shows "fresher now u w"
  unfolding fresher_def
proof (intro allI impI)
  fix a x assume "w a = Some x"
  then consider "\<not> kv_expired x now" | b y where "v b = Some y" "kvKey y = kvKey x" "kvExp y = kvExp x"
    using assms(2) unfolding fresher_def by metis
  then show "\<not> kv_expired x now \<or> (\<exists>b y. u b = Some y \<and> kvKey y = kvKey x \<and> kvExp y = kvExp x)"
  proof cases
    case 2
    then show ?thesis using assms(1) unfolding fresher_def kv_expired_def by metis
  qed simp
qed

lemma op_frame_refl [simp]: "op_frame now s s"
  by (auto simp: op_frame_def fresher_refl intro: exI [of _ 0])

lemma op_frame_trans: "op_frame now s s' \<Longrightarrow> op_frame now s' s'' \<Longrightarrow> op_frame now s s''"
  unfolding op_frame_def by (auto intro: fresher_trans simp: mult.assoc simp flip: power_add)

lemma op_frame_fields [simp]:
  "op_frame now s (s'\<lparr>expiredKeys := n\<rparr>) = op_frame now s s'"
  "op_frame now s (s'\<lparr>evictions := n\<rparr>) = op_frame now s s'"
  "op_frame now s (s'\<lparr>rngState := r\<rparr>) = op_frame now s s'"
  "op_frame now (s\<lparr>rngState := r\<rparr>) s' = op_frame now s s'"
  "op_frame now (s\<lparr>expiredKeys := n\<rparr>) s' = op_frame now s s'"
  by (simp_all add: op_frame_def Store_bucketCount_def)

lemma revn_shift: "revn (k + j) v div 2 ^ j = revn k v"
proof (induction j)
  case (Suc j)
  have "revn (k + Suc j) v div 2 ^ Suc j = (2 * revn (k + j) v + (v div 2 ^ (k + j)) mod 2) div 2 div 2 ^ j"
    by (simp add: revn_snoc div_mult2_eq del: revn.simps)
  also have "(2 * revn (k + j) v + (v div 2 ^ (k + j)) mod 2) div 2 = revn (k + j) v" by simp
  finally show ?case using Suc by simp
qed simp

lemma revn_scale: "v < 2 ^ k \<Longrightarrow> revn (k + j) v = 2 ^ j * revn k v"
proof (induction j)
  case (Suc j)
  have "v < 2 ^ (k + j)" using Suc.prems by (rule order_less_le_trans) simp
  then show ?case using Suc revn_double [of v "k + j"] by simp
qed simp

text \<open>Growth by any power of two keeps the set of passed keys, hence the sweep.\<close>

lemma swept_frame:
  assumes sw: "swept t0 s" and fr: "op_frame now s s'" and t0: "t0 \<le> now"
    and shape: "table_shape (table s)" and c: "unat (expireCursor s) < Store_bucketCount s"
  shows "swept t0 s'"
  unfolding swept_def
proof (intro allI impI)
  fix k' a x
  assume k': "Store_bucketCount s' = 2 ^ k'" and x: "store_view s' a = Some x"
    and rank: "revn k' (key_bucket (table s') (kvKey x)) < revn k' (unat (expireCursor s'))"
  obtain k where k: "Store_bucketCount s = 2 ^ k"
    using shape by (auto simp: table_shape_def Store_bucketCount_def)
  obtain j where "Store_bucketCount s' = Store_bucketCount s * 2 ^ j" using fr by (auto simp: op_frame_def)
  then have j: "k' = k + j" using k k' by (simp flip: power_add)
  have hs: "hashSeed (table s') = hashSeed (table s)" "expireCursor s' = expireCursor s"
    using fr by (simp_all add: op_frame_def)
  have bucket: "revn k (key_bucket (table s') (kvKey x)) = revn k (key_bucket (table s) (kvKey x))"
  proof -
    let ?h = "unat (ucast (hash32 (table s) (kvKey x)) :: u64)"
    have "key_bucket (table s) (kvKey x) = ?h mod 2 ^ k" "key_bucket (table s') (kvKey x) = ?h mod 2 ^ (k + j)"
      using k k' j hs(1) by (simp_all add: key_bucket_def bucketOf_shape Store_bucketCount_def hash32_def)
    moreover have "revn k (?h mod 2 ^ (k + j)) = revn k (?h mod 2 ^ (k + j) mod 2 ^ k)" by (simp only: revn_mod)
    moreover have "?h mod 2 ^ (k + j) mod 2 ^ k = ?h mod 2 ^ k" by (simp add: mod_mod_cancel le_imp_power_dvd)
    ultimately show ?thesis by simp
  qed
  have "revn k' (key_bucket (table s') (kvKey x)) < 2 ^ j * revn k (unat (expireCursor s))"
    using rank hs(2) revn_scale [of "unat (expireCursor s)" k j] c k j by simp
  then have "revn k' (key_bucket (table s') (kvKey x)) div 2 ^ j < revn k (unat (expireCursor s))"
    by (simp add: less_mult_imp_div_less mult.commute)
  then have passed: "revn k (key_bucket (table s) (kvKey x)) < revn k (unat (expireCursor s))"
    unfolding j revn_shift bucket .
  show "\<not> kv_expired x t0"
  proof
    assume ex: "kv_expired x t0"
    then have "kv_expired x now" using t0 by (rule kv_expired_mono)
    then obtain b y where y: "store_view s b = Some y" "kvKey y = kvKey x" "kvExp y = kvExp x"
      using fr x unfolding op_frame_def fresher_def by blast
    then have "\<not> kv_expired y t0" using sw k passed unfolding swept_def by metis
    then show False using ex y(3) by (simp add: kv_expired_def)
  qed
qed

end
