(* ===== verification/Store_Ops.thy ===== *)
theory Store_Ops
  imports Store_Inv
begin

text \<open>
  Correctness of the store's lookups and writes over any pool that meets \<open>entry_pool\<close>. Each
  operation returns (so it is memory-safe and its loops end), keeps \<open>Store_inv\<close>, and acts on
  the map from keys to entries as specified; all of them satisfy \<open>op_frame\<close>.
\<close>

context entry_pool
begin

abbreviation sinv :: "'p Store \<Rightarrow> bool" where
  "sinv s \<equiv> Store_inv live pool_inv s"

lemma sinvD:
  assumes "sinv s"
  shows "inv (table s)" "Store_size s \<le> maxKeys s" "0 < maxKeys s" "maxKeys s \<le> kPoolCapacity"
    "1 \<le> lruSamples s" "lruSamples s \<le> 64" "unat (expireCursor s) < Store_bucketCount s"
    "store_view s a = Some x \<Longrightarrow> i64 (kvExp x)"
  using assms by (auto simp: Store_inv_def)

lemma sinv_view:
  assumes "sinv s"
  shows "unique_keys (store_view s)" "Store_size s = card (dom (store_view s))"
    "finite (dom (store_view s))" "table_shape (table s)"
proof -
  obtain css where "table_wf css (table s)" using inv_wf [OF sinvD(1) [OF assms]] by blast
  note wfD = table_wfD [OF this]
  show "unique_keys (store_view s)" using wfD(4) by (auto simp: table_keyed_def unique_keys_def)
  show "finite (dom (store_view s))" using finite_slab [OF wfD(3)] by simp
  show "table_shape (table s)" by (rule wfD(1))
  show "Store_size s = card (dom (store_view s))"
    using inv_size [OF sinvD(1) [OF assms]] by (simp add: Store_size_def)
qed

lemma store_table_step:
  assumes s: "sinv s" and t: "inv t'" "hashSeed t' = hashSeed (table s)"
      "\<exists>j. bucketCount t' = bucketCount (table s) * 2 ^ j"
    and size: "card (dom (table_view t')) \<le> maxKeys s"
    and view: "fresher now (store_view s) (table_view t')" "\<And>a x. table_view t' a = Some x \<Longrightarrow> i64 (kvExp x)"
  shows "sinv (s\<lparr>table := t'\<rparr>) \<and> op_frame now s (s\<lparr>table := t'\<rparr>)"
proof -
  obtain j where j: "bucketCount t' = bucketCount (table s) * 2 ^ j" using t(3) by blast
  have "unat (expireCursor s) < bucketCount (table s)"
    using sinvD(7) [OF s] by (simp add: Store_bucketCount_def)
  also have "\<dots> \<le> bucketCount t'" unfolding j by simp
  finally have "unat (expireCursor s) < bucketCount t'" .
  moreover have "Table_size t' \<le> maxKeys s" using inv_size [OF t(1)] size by simp
  ultimately have "sinv (s\<lparr>table := t'\<rparr>)"
    using s t(1) view(2) by (simp add: Store_inv_def Store_size_def Store_bucketCount_def)
  then show ?thesis using t view(1) by (simp add: op_frame_def Store_bucketCount_def)
qed

lemma Store_remove_correct:
  assumes s: "sinv s" and x: "store_view s a = Some x"
  shows "\<exists>s'. Store_remove ops a s = Some s' \<and> sinv s' \<and> op_frame now s s' \<and>
    store_view s' = (store_view s)(a := None) \<and> s' = s\<lparr>table := table s'\<rparr>"
proof -
  obtain t' where t': "Table_remove ops a (table s) = Some t'" "inv t'"
    "table_view t' = (store_view s)(a := None)" "bucketCount t' = bucketCount (table s)"
    "hashSeed t' = hashSeed (table s)"
    using Table_remove_correct [OF sinvD(1) [OF s] x] by blast
  have "card (dom (store_view s) - {a}) \<le> card (dom (store_view s))"
    using sinv_view(3) [OF s] by (rule card_mono) blast
  then have size: "card (dom (table_view t')) \<le> maxKeys s"
    using sinvD(2) [OF s] sinv_view(2) [OF s] t'(3) by simp
  have "fresher now (store_view s) (table_view t')"
    unfolding t'(3) by (rule fresher_sub) (auto simp: map_le_def)
  moreover have "i64 (kvExp y)" if "table_view t' b = Some y" for b y
    using that sinvD(8) [OF s, of b y] t'(3) by (auto split: if_splits)
  ultimately have "sinv (s\<lparr>table := t'\<rparr>) \<and> op_frame now s (s\<lparr>table := t'\<rparr>)"
    using t' size by (intro store_table_step [OF s]) (auto intro: exI [of _ 0])
  then show ?thesis using t'(1,3) by (auto simp: Store_remove_def)
qed

lemma replace_view:
  assumes s: "sinv s" and x: "store_view s a = Some x" and t: "inv t'" "hashSeed t' = hashSeed (table s)"
      "bucketCount t' = bucketCount (table s)" "table_view t' = (store_view s)(a \<mapsto> y)"
    and y: "kvKey y = kvKey x" "i64 (kvExp y)" "\<not> kv_expired y now \<or> kvExp y = kvExp x"
  shows "sinv (s\<lparr>table := t'\<rparr>) \<and> op_frame now s (s\<lparr>table := t'\<rparr>)"
proof (rule store_table_step [OF s t(1,2)])
  have "dom (table_view t') = dom (store_view s)"
    unfolding t(4) using domI [of "store_view s", OF x] by (simp add: insert_absorb del: mem_view_dom)
  then show "card (dom (table_view t')) \<le> maxKeys s" using sinvD(2) [OF s] sinv_view(2) [OF s] by simp
  have "\<not> kv_expired z now \<or> (\<exists>b w. store_view s b = Some w \<and> kvKey w = kvKey z \<and> kvExp w = kvExp z)"
    if "((store_view s)(a \<mapsto> y)) b = Some z" for b z
    using that x y(1,3) by (cases "b = a") auto
  then show "fresher now (store_view s) (table_view t')" unfolding t(4) fresher_def by blast
  show "i64 (kvExp z)" if "table_view t' b = Some z" for b z
    using that sinvD(8) [OF s, of b z] y(2) unfolding t(4) by (cases "b = a") auto
qed (use t(3) in \<open>auto intro: exI [of _ 0]\<close>)

lemma Store_poke_correct:
  assumes s: "sinv s" and x: "store_view s a = Some x"
    and f: "\<And>e. nextp (f e) = nextp e \<and> hash (f e) = hash e \<and> keyLen (f e) = keyLen e \<and>
      valLen (f e) = valLen e \<and> bytes (f e) = bytes e"
    and g: "\<And>h e. kv_of h (f e) = g (kv_of h e)"
    and y: "kvKey (g x) = kvKey x" "i64 (kvExp (g x))" "\<not> kv_expired (g x) now \<or> kvExp (g x) = kvExp x"
  shows "\<exists>s'. Store_poke a f s = Some s' \<and> sinv s' \<and> op_frame now s s' \<and>
    store_view s' = (store_view s)(a \<mapsto> g x) \<and> s' = s\<lparr>table := table s'\<rparr>"
proof -
  obtain t' where t': "entry_set a f (table s) = Some t'" "inv t'"
    "table_view t' = (store_view s)(a \<mapsto> g x)" "bucketCount t' = bucketCount (table s)"
    "hashSeed t' = hashSeed (table s)"
    using entry_set_correct [OF sinvD(1) [OF s] x f g] by blast
  have "sinv (s\<lparr>table := t'\<rparr>) \<and> op_frame now s (s\<lparr>table := t'\<rparr>)"
    using replace_view [OF s x t'(2,5,4,3) y] .
  then show ?thesis using t'(1,3) by (auto simp: Store_poke_def)
qed

lemma poke_lru:
  assumes "sinv s" "store_view s a = Some x"
  shows "\<exists>s'. Store_poke a (\<lambda>e. e\<lparr>lruClock := c\<rparr>) s = Some s' \<and> sinv s' \<and> op_frame now s s' \<and>
    store_view s' = (store_view s)(a \<mapsto> x\<lparr>kvLru := c\<rparr>) \<and> s' = s\<lparr>table := table s'\<rparr>"
  using assms sinvD(8) [OF assms]
  by (intro Store_poke_correct [where g = "\<lambda>x. x\<lparr>kvLru := c\<rparr>"])
    (auto simp: kv_of_def Entry_key_def Entry_value_def getBufData_def spilled_def)

lemma poke_exp:
  assumes "sinv s" "store_view s a = Some x" "i64 d" "d = kNoExpiry \<or> now \<le> d"
  shows "\<exists>s'. Store_poke a (\<lambda>e. e\<lparr>expiresAtMs := d\<rparr>) s = Some s' \<and> sinv s' \<and> op_frame now s s' \<and>
    store_view s' = (store_view s)(a \<mapsto> x\<lparr>kvExp := d\<rparr>) \<and> s' = s\<lparr>table := table s'\<rparr>"
  using assms
  by (intro Store_poke_correct [where g = "\<lambda>x. x\<lparr>kvExp := d\<rparr>"])
    (auto simp: kv_of_def Entry_key_def Entry_value_def getBufData_def spilled_def kv_expired_def)

section \<open>Lookup\<close>

text \<open>What a lookup leaves of the map: an expired entry under the key is dropped.\<close>

lemma Store_lookup_correct:
  assumes s: "sinv s"
  shows "\<exists>r s'. Store_lookup ops key now s = Some (r, s') \<and> sinv s' \<and> op_frame now s s' \<and>
    store_view s' \<subseteq>\<^sub>m store_view s \<and>
    (case live_at now (store_map s) key of
       Some x \<Rightarrow> s' = s \<and> (\<exists>a. r = Some a \<and> store_view s a = Some x \<and> kvKey x = key)
     | None \<Rightarrow> r = None \<and> store_map s' = (store_map s)(key := None) \<and>
         s' = s\<lparr>table := table s', expiredKeys := expiredKeys s'\<rparr> \<and>
         expiredKeys s' = expiredKeys s + (if store_map s key = None then 0 else 1))"
proof -
  note u = sinv_view(1) [OF s]
  obtain css where wf: "table_wf css (table s)" using inv_wf [OF sinvD(1) [OF s]] by blast
  obtain r where r: "Table_find key (table s) = Some r"
    "case r of Some a \<Rightarrow> (\<exists>x. store_view s a = Some x \<and> kvKey x = key)
     | None \<Rightarrow> (\<forall>a x. store_view s a = Some x \<longrightarrow> kvKey x \<noteq> key)"
    using Table_find_correct [OF wf] by blast
  show ?thesis
  proof (cases r)
    case None
    then have m: "store_map s key = None" using r(2) by (simp add: keymap_None)
    then have "(store_map s)(key := None) = store_map s" by auto
    then show ?thesis using r(1) None m s by (simp add: Store_lookup_def live_at_def)
  next
    case (Some a)
    then obtain x where x: "store_view s a = Some x" "kvKey x = key" using r(2) by auto
    then obtain e where e: "slab (table s) a = Some e" "x = kv_of (chars (table s)) e"
      by (auto simp: mem_view_Some)
    have m: "store_map s key = Some x" using keymap_at [OF u x(1)] x(2) by simp
    have ex: "Entry_expired e now = kv_expired x now" using e(2) by (simp add: Entry_expired_kv)
    show ?thesis
    proof (cases "kv_expired x now")
      case True
      obtain s' where s': "Store_remove ops a s = Some s'" "sinv s'" "op_frame now s s'"
        "store_view s' = (store_view s)(a := None)" "s' = s\<lparr>table := table s'\<rparr>"
        using Store_remove_correct [OF s x(1)] by blast
      have "expiredKeys s' = expiredKeys s" by (subst s'(5)) simp
      moreover have "store_map s' = (store_map s)(key := None)"
        unfolding s'(4) using keymap_remove [OF u x(1)] x(2) by simp
      ultimately show ?thesis
        using True r(1) Some e(1) ex m s'(1-4)
        by (simp add: Store_lookup_def live_at_def s'(5) [symmetric])
    next
      case False
      then show ?thesis using r(1) Some e(1) ex m x s by (simp add: Store_lookup_def live_at_def)
    qed
  qed
qed

end

end
