(* ===== verification/Store_Evict.thy ===== *)
theory Store_Evict
  imports Store_Ops
begin

text \<open>
  Eviction. The sampling loop ends because the generator's outputs cover every bucket within
  one period; the scan over the sample removes the expired entries, and if there is none the
  entry with the largest idle time among those sampled.
\<close>

lemma rngAfter_Suc: "rngAfter (Suc i) r = rngAfter i (snd (splitmix64 r))"
  by (simp add: rngAfter_def funpow_Suc_right del: funpow.simps splitmix64_state)

definition set_expired :: "int \<Rightarrow> (addr \<rightharpoonup> kv) \<Rightarrow> addr list \<Rightarrow> addr set" where
  "set_expired now v out = {a \<in> set out. kv_expired (the (v a)) now}"

lemma set_expired_simps:
  "set_expired now v [] = {}"
  "set_expired now v (a # out) = (if kv_expired (the (v a)) now then {a} else {}) \<union> set_expired now v out"
  by (auto simp: set_expired_def)

lemma set_expired_other: "a \<notin> set out \<Longrightarrow> set_expired now (v(a := y)) out = set_expired now v out"
  by (auto simp: set_expired_def)

text \<open>The candidate the scan ends with, as a function of the view alone.\<close>

fun pickIdle :: "int \<Rightarrow> (addr \<rightharpoonup> kv) \<Rightarrow> addr list \<Rightarrow> addr option \<Rightarrow> addr option" where
  "pickIdle now v [] w = w"
| "pickIdle now v (a # out) w =
     pickIdle now v out
       (if kv_expired (the (v a)) now then w
        else case w of
          None \<Rightarrow> Some a
        | Some b \<Rightarrow> if kv_idle (the (v a)) now > kv_idle (the (v b)) now then Some a else w)"

lemma pickIdle_other:
  "a \<notin> set out \<Longrightarrow> w \<noteq> Some a \<Longrightarrow> pickIdle now (v(a := y)) out w = pickIdle now v out w"
  by (induction out arbitrary: w) (auto split: option.splits)

lemma pickIdle_max:
  assumes "C = (set out - set_expired now v out) \<union> set_option w"
  shows "C \<noteq> {} \<Longrightarrow> \<exists>c. pickIdle now v out w = Some c \<and> c \<in> C \<and>
    (\<forall>b \<in> C. kv_idle (the (v b)) now \<le> kv_idle (the (v c)) now)"
  using assms
proof (induction out arbitrary: w C)
  case Nil
  then show ?case by (auto simp: set_expired_simps)
next
  case (Cons a out)
  let ?w = "if kv_expired (the (v a)) now then w else case w of None \<Rightarrow> Some a
    | Some b \<Rightarrow> if kv_idle (the (v a)) now > kv_idle (the (v b)) now then Some a else w"
  let ?C = "(set out - set_expired now v out) \<union> set_option ?w"
  have sub: "?C \<subseteq> C"
    unfolding Cons.prems(2) by (auto simp: set_expired_def split: option.splits if_splits)
  have dom: "\<exists>d \<in> ?C. kv_idle (the (v b)) now \<le> kv_idle (the (v d)) now" if "b \<in> C" for b
    using that unfolding Cons.prems(2)
    by (cases w) (auto simp: set_expired_def not_less intro: less_imp_le split: if_splits)
  then have "?C \<noteq> {}" using Cons.prems(1) by blast
  from Cons.IH [OF this refl] obtain c where c: "pickIdle now v out ?w = Some c" "c \<in> ?C"
    "\<forall>b \<in> ?C. kv_idle (the (v b)) now \<le> kv_idle (the (v c)) now" by blast
  have "kv_idle (the (v b)) now \<le> kv_idle (the (v c)) now" if "b \<in> C" for b
    using dom [OF that] c(3) by (meson order_trans)
  then show ?case using c(1,2) sub by (simp only: pickIdle.simps) blast
qed

context entry_pool
begin

lemma sampleUntil_correct:
  assumes wf: "table_wf css (table s)" and size: "Store_size s \<noteq> 0" and n: "1 \<le> lruSamples s"
  shows "\<exists>out r. sampleUntil s = Some (out, s\<lparr>rngState := r\<rparr>) \<and> out \<noteq> [] \<and> distinct out \<and>
    set out \<subseteq> dom (slab (table s)) \<and> length out \<le> unat (lruSamples s)"
proof -
  have n': "0 < unat (lruSamples s)" using n by (simp add: word_le_nat_alt)
  have "\<exists>out r. sampleUntil s = Some (out, s\<lparr>rngState := r\<rparr>) \<and> out \<noteq> [] \<and> distinct out \<and>
      set out \<subseteq> dom (slab (table s)) \<and> length out \<le> unat (lruSamples s)"
    if "css ! unat (fst (splitmix64 (rngAfter i (rngState s))) AND bucketMask (table s)) \<noteq> []"
      "table_wf css (table s)" "Table_size (table s) \<noteq> 0" "0 < unat (lruSamples s)" for i s
    using that
  proof (induction i arbitrary: s)
    case 0
    then show ?case
      using Table_sampleSome_correct [OF 0(2-4), of "rngState s"]
      by (subst sampleUntil.simps) (auto simp: rngAfter_def)
  next
    case (Suc i)
    obtain out where out: "Table_sampleSome (unat (lruSamples s)) (rngState s) (table s) =
        Some (out, snd (splitmix64 (rngState s)))" "distinct out" "set out \<subseteq> dom (slab (table s))"
      "length out \<le> unat (lruSamples s)"
      using Table_sampleSome_correct [OF Suc.prems(2-4), of "rngState s"] by blast
    show ?case
    proof (cases "out = []")
      case True
      let ?s = "s\<lparr>rngState := snd (splitmix64 (rngState s))\<rparr>"
      have "\<exists>out r. sampleUntil ?s = Some (out, ?s\<lparr>rngState := r\<rparr>) \<and> out \<noteq> [] \<and> distinct out \<and>
          set out \<subseteq> dom (slab (table ?s)) \<and> length out \<le> unat (lruSamples ?s)"
        using Suc.prems by (intro Suc.IH) (simp_all add: rngAfter_Suc)
      then show ?thesis using out(1) True by (subst sampleUntil.simps) simp
    qed (use out in \<open>subst sampleUntil.simps, auto\<close>)
  qed
  then show ?thesis
    using sample_hits [OF wf, of "rngState s"] size wf n' by (auto simp: Store_size_def)
qed

lemma evictScan_correct:
  assumes "sinv s" "distinct out" "set out \<subseteq> dom (store_view s)"
    and "\<And>b. w = Some b \<Longrightarrow> b \<notin> set out \<and> b \<in> dom (store_view s)"
  shows "\<exists>s'. evictScan ops now out h w s =
      Some (h \<or> set_expired now (store_view s) out \<noteq> {}, pickIdle now (store_view s) out w, s') \<and>
    sinv s' \<and> op_frame now s s' \<and> store_view s' = store_view s |` (- set_expired now (store_view s) out) \<and>
    s' = s\<lparr>table := table s', expiredKeys := expiredKeys s + of_nat (card (set_expired now (store_view s) out))\<rparr>"
  using assms
proof (induction out arbitrary: h w s)
  case Nil
  then show ?case by (simp add: set_expired_simps restrict_map_def)
next
  case (Cons a out)
  obtain x where x: "store_view s a = Some x" using Cons.prems(3) by (auto simp del: mem_view_dom)
  then obtain e where e: "slab (table s) a = Some e" "x = kv_of (chars (table s)) e"
    by (auto simp: mem_view_Some)
  have ex: "Entry_expired e now = kv_expired x now" using e(2) by (simp add: Entry_expired_kv)
  have a: "a \<notin> set out" "w \<noteq> Some a" using Cons.prems(2,4) by auto
  let ?E = "set_expired now (store_view s) out"
  show ?case
  proof (cases "kv_expired x now")
    case True
    obtain s1 where s1: "Store_remove ops a s = Some s1" "sinv s1" "op_frame now s s1"
      "store_view s1 = (store_view s)(a := None)" "s1 = s\<lparr>table := table s1\<rparr>"
      using Store_remove_correct [OF Cons.prems(1) x] by blast
    have ek: "expiredKeys s1 = expiredKeys s" by (subst s1(5)) simp
    let ?s = "s1\<lparr>expiredKeys := expiredKeys s1 + 1\<rparr>"
    have v: "store_view ?s = (store_view s)(a := None)" using s1(4) by simp
    have E: "set_expired now (store_view ?s) out = ?E" unfolding v using a(1) by (rule set_expired_other)
    have P: "pickIdle now (store_view ?s) out w = pickIdle now (store_view s) out w"
      unfolding v using a by (rule pickIdle_other)
    have prem: "set out \<subseteq> dom (store_view ?s)" "w = Some b \<Longrightarrow> b \<notin> set out \<and> b \<in> dom (store_view ?s)" for b
      unfolding v using Cons.prems(3,4) a by (auto simp del: mem_view_dom)
    obtain s' where IH: "evictScan ops now out True w ?s = Some (True, pickIdle now (store_view s) out w, s')"
      "sinv s'" "op_frame now ?s s'" "store_view s' = store_view ?s |` (- ?E)"
      "s' = ?s\<lparr>table := table s', expiredKeys := expiredKeys ?s + of_nat (card ?E)\<rparr>"
      using Cons.IH [of ?s w True, unfolded E P] s1(2) Cons.prems(2) prem by auto
    have "card (insert a ?E) = Suc (card ?E)" using a(1) by (simp add: set_expired_def)
    then have "s' = s\<lparr>table := table s', expiredKeys := expiredKeys s + of_nat (card (insert a ?E))\<rparr>"
      by (subst IH(5), subst s1(5)) (simp add: ek)
    moreover have "store_view s' = store_view s |` (- insert a ?E)"
      unfolding IH(4) v by (auto simp: restrict_map_def)
    moreover have "op_frame now s s'" using op_frame_trans [OF s1(3)] IH(3) by simp
    ultimately show ?thesis using True x e(1) ex s1(1) IH(1,2) by (simp add: set_expired_simps)
  next
    case False
    let ?w = "case w of None \<Rightarrow> Some a | Some b \<Rightarrow>
      if kv_idle (the (store_view s a)) now > kv_idle (the (store_view s b)) now then Some a else w"
    have w: "evictScan ops now (a # out) h w s = evictScan ops now out h ?w s"
    proof (cases w)
      case None
      then show ?thesis using e(1) ex False by simp
    next
      case (Some b)
      then obtain f where f: "slab (table s) b = Some f" using Cons.prems(4) by auto
      then have "idle f now = kv_idle (the (store_view s b)) now" "idle e now = kv_idle (the (store_view s a)) now"
        using e(1) by (simp_all add: mem_view_def idle_kv)
      then show ?thesis using Some e(1) f ex False by simp
    qed
    have "?w = Some b \<Longrightarrow> b \<notin> set out \<and> b \<in> dom (store_view s)" for b
      using Cons.prems(4) a(1) x by (auto simp del: mem_view_dom split: option.splits if_splits)
    then show ?thesis
      using Cons.IH [OF Cons.prems(1), of ?w h] Cons.prems(2,3) False x w
      by (simp add: set_expired_simps del: evictScan.simps)
  qed
qed

lemma evictOne_correct:
  assumes s: "sinv s" and size: "Store_size s \<noteq> 0"
  shows "\<exists>s' R. evictOne ops now s = Some s' \<and> sinv s' \<and> op_frame now s s' \<and>
    evicted (unat (lruSamples s)) now (store_view s) R \<and> store_view s' = store_view s |` (- R)"
proof -
  obtain css where wf: "table_wf css (table s)" using inv_wf [OF sinvD(1) [OF s]] by blast
  obtain out r where out: "sampleUntil s = Some (out, s\<lparr>rngState := r\<rparr>)" "out \<noteq> []" "distinct out"
    "set out \<subseteq> dom (store_view s)" "length out \<le> unat (lruSamples s)"
    using sampleUntil_correct [OF wf size sinvD(5) [OF s]] by auto
  let ?s = "s\<lparr>rngState := r\<rparr>" and ?E = "set_expired now (store_view s) out"
  obtain s1 where s1: "evictScan ops now out False None ?s =
      Some (?E \<noteq> {}, pickIdle now (store_view s) out None, s1)"
    "sinv s1" "op_frame now s s1" "store_view s1 = store_view s |` (- ?E)"
    using evictScan_correct [of ?s out None now False] s out by auto
  have run: "evictOne ops now s = (if ?E \<noteq> {} then Some s1 else
      do { a \<leftarrow> pickIdle now (store_view s) out None; s \<leftarrow> Store_remove ops a s1;
           Some (s\<lparr>evictions := evictions s + 1\<rparr>) })"
    using size sinvD(6) [OF s] out(1) s1(1) by (simp add: evictOne_def)
  show ?thesis
  proof (cases "?E = {}")
    case False
    then have "evicted (unat (lruSamples s)) now (store_view s) ?E"
      using out(4) by (auto simp: evicted_def set_expired_def)
    then show ?thesis using False run s1 by auto
  next
    case True
    have "set out \<noteq> {}" using out(2) by simp
    then obtain c where c: "pickIdle now (store_view s) out None = Some c" "c \<in> set out"
      "\<forall>b \<in> set out. kv_idle (the (store_view s b)) now \<le> kv_idle (the (store_view s c)) now"
      using pickIdle_max [of "set out" out now "store_view s" None] True by auto
    have v1: "store_view s1 = store_view s" using s1(4) True by (simp add: restrict_map_def)
    obtain x where "store_view s1 c = Some x" using c(2) out(4) v1 by (auto simp del: mem_view_dom)
    then obtain s2 where s2: "Store_remove ops c s1 = Some s2" "sinv s2" "op_frame now s1 s2"
      "store_view s2 = (store_view s1)(c := None)"
      using Store_remove_correct [OF s1(2)] by blast
    have "evicted (unat (lruSamples s)) now (store_view s) {c}"
      using c out(4,5) True by (intro evicted_lruI [of _ out]) (auto simp: set_expired_def)
    moreover have "store_view s2 = store_view s |` (- {c})"
      unfolding s2(4) v1 by (auto simp: restrict_map_def)
    moreover have "op_frame now s s2" using s1(3) s2(3) by (rule op_frame_trans)
    ultimately show ?thesis using True run c(1) s2(1,2) by auto
  qed
qed

end

end
