(* ===== verification/Store_Write.thy ===== *)
theory Store_Write
  imports Store_Evict
begin

text \<open>
  The public operations of the store, stated over the map from keys to entries: construction,
  \<open>find\<close>, \<open>set\<close>, \<open>erase\<close>, \<open>setExpireAt\<close>, \<open>ttlMs\<close> and \<open>clear\<close>.
\<close>

definition new_kv :: "string \<Rightarrow> string \<Rightarrow> int \<Rightarrow> int \<Rightarrow> kv" where
  "new_kv key val d now = \<lparr>kvKey = key, kvVal = val, kvExp = d, kvLru = of_int now\<rparr>"

definition past_deadline :: "int \<Rightarrow> int \<Rightarrow> bool" where
  "past_deadline d now \<longleftrightarrow> d \<noteq> kNoExpiry \<and> d \<noteq> kKeepTtl \<and> d < now"

text \<open>
  The contract of \<open>Store::set\<close> on the key map \<open>m\<close>: reply and resulting map. \<open>cap\<close>, \<open>n\<close> and
  \<open>pol\<close> are the configured bound, sample size and policy.
\<close>

definition set_spec :: "nat \<Rightarrow> nat \<Rightarrow> EvictionPolicy \<Rightarrow> string \<Rightarrow> string \<Rightarrow> int \<Rightarrow> int \<Rightarrow>
    (string \<rightharpoonup> kv) \<Rightarrow> bool \<Rightarrow> (string \<rightharpoonup> kv) \<Rightarrow> bool" where
  "set_spec cap n pol key val d now m r m' \<longleftrightarrow>
     (if past_deadline d now then r \<and> m' = m(key := None)
      else case live_at now m key of
        Some x \<Rightarrow> r \<and> m' = m(key \<mapsto> new_kv key val (if d = kKeepTtl then kvExp x else d) now)
      | None \<Rightarrow>
          let m1 = m(key := None); x = new_kv key val (if d = kKeepTtl then kNoExpiry else d) now in
          if card (dom m1) < cap then r \<and> m' = m1(key \<mapsto> x)
          else if pol = KNoEviction then \<not> r \<and> m' = m1
          else r \<and> (\<exists>K. evicted n now m1 K \<and> m' = (m1 |` (- K))(key \<mapsto> x)))"

lemma kv_comm: "x\<lparr>kvLru := c, kvExp := d\<rparr> = x\<lparr>kvExp := d, kvLru := c\<rparr>"
  by simp

lemma view_replace_map:
  assumes "unique_keys v" "v a = Some x" "kvKey y = kvKey x" "key = kvKey x"
  shows "keymap (v(a \<mapsto> y)) = (keymap v)(key \<mapsto> y)"
proof -
  have "b = a" if "v b = Some z" "kvKey z = kvKey y" for b z
    using assms(1,2,3) that unfolding unique_keys_def by metis
  then have "keymap (v(a \<mapsto> y)) = (keymap v)(kvKey y \<mapsto> y)"
    using assms(2,3) by (intro keymap_upd [OF assms(1)]) auto
  then show ?thesis using assms(3,4) by simp
qed

context entry_pool
begin

lemma Store_init_correct:
  assumes p: "pool_inv p" "live p = {}" and b: "unat (initialBuckets cfg) \<le> 2 ^ 63"
    and n: "unat (cfgMaxKeys cfg) \<le> kPoolCapacity" "1 \<le> cfgLruSamples cfg" "cfgLruSamples cfg \<le> 64"
  shows "\<exists>s. Store_init p rd1 rd2 cfg = Some s \<and> sinv s \<and> store_map s = Map.empty \<and> expireCursor s = 0 \<and>
    maxKeys s = (if cfgMaxKeys cfg = 0 then kPoolCapacity else unat (cfgMaxKeys cfg)) \<and>
    lruSamples s = cfgLruSamples cfg \<and> policy s = cfgPolicy cfg"
proof -
  let ?b = "if cfgMaxKeys cfg = 0 then initialBuckets cfg else max (initialBuckets cfg) (cfgMaxKeys cfg)"
  have "unat ?b \<le> 2 ^ 63" using b n(1) by (auto simp: max_def kPoolCapacity_def)
  then obtain t where t: "Table_init p ?b (resolveSeed rd1 rd2 (seed cfg)) = Some t" "inv t"
    "table_view t = Map.empty"
    using Table_init_correct [of _ pool_inv p live] p by blast
  have size: "Table_size t = 0" using inv_size [OF t(2)] arg_cong [OF t(3), of dom] by simp
  have "0 < bucketCount t" using inv_wf [OF t(2)] by (auto simp: table_wf_def table_shape_def)
  moreover have "cfgMaxKeys cfg = 0 \<or> 0 < unat (cfgMaxKeys cfg)" by (auto simp: unat_gt_0)
  ultimately show ?thesis
    using t n size
    by (auto simp: Store_init_def resolveMaxKeys_def Store_inv_def Store_size_def Store_bucketCount_def
        keymap_def kPoolCapacity_def)
qed

lemma lookup_cases:
  assumes s: "sinv s"
  obtains (hit) a x where "live_at now (store_map s) key = Some x" "Store_lookup ops key now s = Some (Some a, s)"
      "store_view s a = Some x" "kvKey x = key" "\<not> kv_expired x now"
    | (miss) s1 where "live_at now (store_map s) key = None" "Store_lookup ops key now s = Some (None, s1)"
      "sinv s1" "op_frame now s s1" "store_map s1 = (store_map s)(key := None)"
proof -
  obtain r s1 where r: "Store_lookup ops key now s = Some (r, s1)" "sinv s1" "op_frame now s s1"
    "case live_at now (store_map s) key of
       Some x \<Rightarrow> s1 = s \<and> (\<exists>a. r = Some a \<and> store_view s a = Some x \<and> kvKey x = key)
     | None \<Rightarrow> r = None \<and> store_map s1 = (store_map s)(key := None) \<and>
         s1 = s\<lparr>table := table s1, expiredKeys := expiredKeys s1\<rparr> \<and>
         expiredKeys s1 = expiredKeys s + (if store_map s key = None then 0 else 1)"
    using Store_lookup_correct [OF s] by blast
  show ?thesis
  proof (cases "live_at now (store_map s) key")
    case None
    then show ?thesis using r miss by simp
  next
    case (Some x)
    then have "\<not> kv_expired x now" by (simp add: live_at_Some)
    then show ?thesis using Some r hit by auto
  qed
qed

lemma remove_key:
  assumes s: "sinv s" and x: "store_view s a = Some x"
  shows "\<exists>s'. Store_remove ops a s = Some s' \<and> sinv s' \<and> op_frame now s s' \<and>
    store_map s' = (store_map s)(kvKey x := None)"
  using Store_remove_correct [OF s x] keymap_remove [OF sinv_view(1) [OF s] x] by metis

lemma touch_key:
  assumes s: "sinv s" and x: "store_view s a = Some x"
  shows "\<exists>s'. Store_poke a (\<lambda>e. e\<lparr>lruClock := c\<rparr>) s = Some s' \<and> sinv s' \<and> op_frame now s s' \<and>
    store_view s' a = Some (x\<lparr>kvLru := c\<rparr>) \<and> store_map s' = (store_map s)(kvKey x \<mapsto> x\<lparr>kvLru := c\<rparr>)"
  using poke_lru [OF s x, of c now] view_replace_map [OF sinv_view(1) [OF s] x, of "x\<lparr>kvLru := c\<rparr>"] by auto

lemma redate_key:
  assumes s: "sinv s" and x: "store_view s a = Some x" and d: "i64 d" "d = kNoExpiry \<or> now \<le> d"
  shows "\<exists>s'. Store_poke a (\<lambda>e. e\<lparr>expiresAtMs := d\<rparr>) s = Some s' \<and> sinv s' \<and> op_frame now s s' \<and>
    store_view s' a = Some (x\<lparr>kvExp := d\<rparr>) \<and> store_map s' = (store_map s)(kvKey x \<mapsto> x\<lparr>kvExp := d\<rparr>)"
  using poke_exp [OF s x d] view_replace_map [OF sinv_view(1) [OF s] x, of "x\<lparr>kvExp := d\<rparr>"] by auto

lemma Store_find_correct:
  assumes s: "sinv s"
  shows "\<exists>r s'. Store_find ops key now touch s = Some (r, s') \<and> sinv s' \<and> op_frame now s s' \<and>
    (case live_at now (store_map s) key of
       None \<Rightarrow> r = None \<and> store_map s' = (store_map s)(key := None)
     | Some x \<Rightarrow> \<exists>a. r = Some a \<and>
         (let y = if touch then x\<lparr>kvLru := of_int now\<rparr> else x in
            store_view s' a = Some y \<and> store_map s' = (store_map s)(key \<mapsto> y)))"
proof (cases rule: lookup_cases [OF s, where now = now and key = key, case_names hit miss])
  case (hit a x)
  have same: "(store_map s)(key \<mapsto> x) = store_map s"
    using keymap_at [OF sinv_view(1) [OF s] hit(3)] hit(4) by auto
  show ?thesis
    using touch_key [OF s hit(3), of "of_int now" now] hit s same
    by (cases touch) (auto simp: Store_find_def Let_def)
next
  case (miss s1)
  then show ?thesis by (simp add: Store_find_def)
qed

lemma Store_erase_correct:
  assumes s: "sinv s"
  shows "\<exists>s'. Store_erase ops key now s = Some (live_at now (store_map s) key \<noteq> None, s') \<and> sinv s' \<and>
    op_frame now s s' \<and> store_map s' = (store_map s)(key := None)"
proof (cases rule: lookup_cases [OF s, where now = now and key = key, case_names hit miss])
  case (hit a x)
  then show ?thesis using remove_key [OF s hit(3), of now] by (auto simp: Store_erase_def)
next
  case (miss s1)
  then show ?thesis by (simp add: Store_erase_def)
qed

lemma Store_setExpireAt_correct:
  assumes s: "sinv s" and d: "i64 d" "d \<noteq> kKeepTtl" "d \<noteq> kNoExpiry"
  shows "\<exists>s'. Store_setExpireAt ops key d now s = Some (live_at now (store_map s) key \<noteq> None, s') \<and> sinv s' \<and>
    op_frame now s s' \<and> store_map s' =
      (case live_at now (store_map s) key of
         Some x \<Rightarrow> (store_map s)(key := if d < now then None else Some (x\<lparr>kvExp := d, kvLru := of_int now\<rparr>))
       | None \<Rightarrow> (store_map s)(key := None))"
proof (cases rule: lookup_cases [OF s, where now = now and key = key, case_names hit miss])
  case (hit a x)
  show ?thesis
  proof (cases "d < now")
    case True
    then show ?thesis using hit d remove_key [OF s hit(3), of now] by (auto simp: Store_setExpireAt_def)
  next
    case False
    obtain s1 where s1: "Store_poke a (\<lambda>e. e\<lparr>lruClock := of_int now\<rparr>) s = Some s1" "sinv s1" "op_frame now s s1"
      "store_view s1 a = Some (x\<lparr>kvLru := of_int now\<rparr>)"
      "store_map s1 = (store_map s)(key \<mapsto> x\<lparr>kvLru := of_int now\<rparr>)"
      using touch_key [OF s hit(3), of "of_int now" now] hit(4) by blast
    obtain s2 where s2: "Store_poke a (\<lambda>e. e\<lparr>expiresAtMs := d\<rparr>) s1 = Some s2" "sinv s2" "op_frame now s1 s2"
      "store_map s2 = (store_map s1)(key \<mapsto> x\<lparr>kvExp := d, kvLru := of_int now\<rparr>)"
      using redate_key [OF s1(2,4) d(1), of now, unfolded kv_comm] False hit(4) by auto
    show ?thesis
      using hit d False s1 s2 op_frame_trans [OF s1(3) s2(3)] by (simp add: Store_setExpireAt_def)
  qed
next
  case (miss s1)
  then show ?thesis by (simp add: Store_setExpireAt_def)
qed

lemma Store_ttlMs_correct:
  assumes s: "sinv s" and now: "0 \<le> now"
  shows "\<exists>s'. Store_ttlMs ops key now s =
      Some (case live_at now (store_map s) key of None \<Rightarrow> -2
        | Some x \<Rightarrow> if kvExp x = kNoExpiry then -1 else kvExp x - now, s') \<and>
    sinv s' \<and> op_frame now s s' \<and>
    store_map s' = (case live_at now (store_map s) key of None \<Rightarrow> (store_map s)(key := None) | Some x \<Rightarrow> store_map s)"
proof (cases rule: lookup_cases [OF s, where now = now and key = key, case_names hit miss])
  case (hit a x)
  then obtain e where e: "slab (table s) a = Some e" "x = kv_of (chars (table s)) e"
    by (auto simp: mem_view_Some)
  have ex: "expiresAtMs e = kvExp x" using e(2) by (simp add: kv_of_def)
  have "i64 (kvExp x - now)" if "kvExp x \<noteq> kNoExpiry"
    using sinvD(8) [OF s hit(3)] hit(5) that now by (simp add: i64_def kv_expired_def)
  then show ?thesis using hit s e(1) ex by (auto simp: Store_ttlMs_def kNoExpiry_def)
next
  case (miss s1)
  then show ?thesis by (simp add: Store_ttlMs_def)
qed

lemma Store_clear_correct:
  assumes s: "sinv s"
  shows "\<exists>s'. Store_clear ops s = Some s' \<and> sinv s' \<and> store_map s' = Map.empty \<and> expireCursor s' = 0 \<and>
    maxKeys s' = maxKeys s \<and> lruSamples s' = lruSamples s \<and> policy s' = policy s \<and>
    blocks (chars (table s')) = Map.empty \<and> live (pool (table s')) = {}"
proof -
  obtain t' where t': "Table_clear ops (table s) = Some t'" "inv t'" "table_view t' = Map.empty"
    "blocks (chars t') = Map.empty" "live (pool t') = {}"
    using Table_clear_correct [OF sinvD(1) [OF s]] by blast
  have size: "Table_size t' = 0" using inv_size [OF t'(2)] arg_cong [OF t'(3), of dom] by simp
  have "0 < bucketCount t'" using inv_wf [OF t'(2)] by (auto simp: table_wf_def table_shape_def)
  then show ?thesis
    using t' size sinvD(3-6) [OF s]
    by (auto simp: Store_clear_def Store_inv_def Store_size_def Store_bucketCount_def keymap_def)
qed

lemma Store_dtor_correct:
  assumes s: "sinv s"
  shows "\<exists>h q. Store_dtor ops s = Some (h, q) \<and> blocks h = Map.empty \<and> live q = {}"
  using Table_clear_correct [OF sinvD(1) [OF s]] by (auto simp: Store_dtor_def Table_dtor_def)

end

end
