(* ===== verification/Store_Set.thy ===== *)
theory Store_Set
  imports Store_Write
begin

text \<open>
  \<open>Store::set\<close> meets \<open>set_spec\<close>: past deadline, overwrite in place, insertion with room,
  refusal when full, insertion after an eviction.
\<close>

context entry_pool
begin

lemma overwrite_key:
  assumes s: "sinv s" and x: "store_view s a = Some x" "kvKey x = key" "\<not> kv_expired x now"
    and len: "length key + length val < 2 ^ 32" and d: "i64 d" "\<not> past_deadline d now"
  shows "\<exists>s'. do { t \<leftarrow> Table_assign a val (table s);
         s \<leftarrow> Store_poke a (\<lambda>e. if \<not> kKeepTtl = d then e\<lparr>expiresAtMs := d\<rparr> else e) (s\<lparr>table := t\<rparr>);
         s \<leftarrow> Store_poke a (\<lambda>e. e\<lparr>lruClock := of_int now\<rparr>) s;
         Some (True, s) } = Some (True, s') \<and> sinv s' \<and> op_frame now s s' \<and>
    store_map s' = (store_map s)(key \<mapsto> new_kv key val (if d = kKeepTtl then kvExp x else d) now)"
proof -
  let ?y = "x\<lparr>kvVal := val\<rparr>" and ?d = "if d = kKeepTtl then kvExp x else d"
  obtain t where t: "Table_assign a val (table s) = Some t" "inv t" "table_view t = (store_view s)(a \<mapsto> ?y)"
    "bucketCount t = bucketCount (table s)" "hashSeed t = hashSeed (table s)"
    using Table_assign_correct [OF sinvD(1) [OF s] x(1), of val] len x(2) by auto
  let ?s = "s\<lparr>table := t\<rparr>"
  have s1: "sinv ?s" "op_frame now s ?s"
    using replace_view [OF s x(1) t(2,5,4,3), of now] sinvD(8) [OF s x(1)] by simp_all
  have v1: "store_view ?s = (store_view s)(a \<mapsto> ?y)" using t(3) by simp
  have m1: "store_map ?s = (store_map s)(key \<mapsto> ?y)" "store_view ?s a = Some ?y"
    unfolding v1 by (rule view_replace_map [OF sinv_view(1) [OF s] x(1)], use x(2) in simp_all)
  have "\<exists>s2. Store_poke a (\<lambda>e. if \<not> kKeepTtl = d then e\<lparr>expiresAtMs := d\<rparr> else e) ?s = Some s2 \<and> sinv s2 \<and>
      op_frame now ?s s2 \<and> store_view s2 a = Some (?y\<lparr>kvExp := ?d\<rparr>) \<and>
      store_map s2 = (store_map ?s)(key \<mapsto> ?y\<lparr>kvExp := ?d\<rparr>)"
  proof (cases "d = kKeepTtl")
    case True
    have "(store_map ?s)(key \<mapsto> ?y) = store_map ?s" "(store_view ?s)(a \<mapsto> ?y) = store_view ?s"
      using m1 by auto
    then show ?thesis
      using True s1(1) m1 Store_poke_correct [OF s1(1) m1(2), of "\<lambda>e. e" "\<lambda>x. x" now] sinvD(8) [OF s1(1) m1(2)]
      by auto
  next
    case False
    then show ?thesis
      using redate_key [OF s1(1) m1(2) d(1), of now] d(2) x(2) by (auto simp: past_deadline_def)
  qed
  then obtain s2 where s2: "Store_poke a (\<lambda>e. if \<not> kKeepTtl = d then e\<lparr>expiresAtMs := d\<rparr> else e) ?s = Some s2"
    "sinv s2" "op_frame now ?s s2" "store_view s2 a = Some (?y\<lparr>kvExp := ?d\<rparr>)"
    "store_map s2 = (store_map ?s)(key \<mapsto> ?y\<lparr>kvExp := ?d\<rparr>)" by blast
  obtain s3 where s3: "Store_poke a (\<lambda>e. e\<lparr>lruClock := of_int now\<rparr>) s2 = Some s3" "sinv s3" "op_frame now s2 s3"
    "store_map s3 = (store_map s2)(key \<mapsto> ?y\<lparr>kvExp := ?d, kvLru := of_int now\<rparr>)"
    using touch_key [OF s2(2,4), of "of_int now" now] x(2) by auto
  have "?y\<lparr>kvExp := ?d, kvLru := of_int now\<rparr> = new_kv key val ?d now" using x(2) by (simp add: new_kv_def)
  then have "store_map s3 = (store_map s)(key \<mapsto> new_kv key val ?d now)" using s3(4) s2(5) m1(1) by simp
  moreover have "op_frame now s s3" using s1(2) s2(3) s3(3) by (blast intro: op_frame_trans)
  ultimately show ?thesis using t(1) s2(1) s3(1,2) by auto
qed

lemma insert_key:
  assumes s: "sinv s" and absent: "store_map s key = None" and room: "Store_size s < maxKeys s"
    and len: "length key + length val < 2 ^ 32" and d: "i64 d" "\<not> past_deadline d now"
  shows "\<exists>s'. do { (r, t) \<leftarrow> Table_insert ops key val (table s);
         a \<leftarrow> r;
         s \<leftarrow> Store_poke a (\<lambda>e. e\<lparr>expiresAtMs := (if d = kKeepTtl then kNoExpiry else d)\<rparr>) (s\<lparr>table := t\<rparr>);
         s \<leftarrow> Store_poke a (\<lambda>e. e\<lparr>lruClock := of_int now\<rparr>) s;
         Some (True, s) } = Some (True, s') \<and> sinv s' \<and> op_frame now s s' \<and>
    store_map s' = (store_map s)(key \<mapsto> new_kv key val (if d = kKeepTtl then kNoExpiry else d) now)"
proof -
  let ?y = "\<lparr>kvKey = key, kvVal = val, kvExp = kNoExpiry, kvLru = 0\<rparr>"
  let ?d = "if d = kKeepTtl then kNoExpiry else d"
  note u = sinv_view(1) [OF s]
  have abs: "kvKey x \<noteq> key" if "store_view s b = Some x" for b x using absent that by (auto simp: keymap_None)
  have "Table_size (table s) < kPoolCapacity" using room sinvD(4) [OF s] by (simp add: Store_size_def)
  then obtain a t where t: "Table_insert ops key val (table s) = Some (Some a, t)" "inv t" "store_view s a = None"
    "table_view t = (store_view s)(a \<mapsto> ?y)"
    "bucketCount t = bucketCount (table s) \<or> bucketCount t = 2 * bucketCount (table s)"
    "hashSeed t = hashSeed (table s)"
    using Table_insert_correct [OF sinvD(1) [OF s] _ len] abs by blast
  let ?s = "s\<lparr>table := t\<rparr>"
  have s1: "sinv ?s \<and> op_frame now s ?s"
  proof (rule store_table_step [OF s t(2,6)])
    show "\<exists>j. bucketCount t = bucketCount (table s) * 2 ^ j"
      using t(5) by (auto intro: exI [of _ 0] exI [of _ 1])
    have "dom (table_view t) = insert a (dom (store_view s))" unfolding t(4) by (simp del: mem_view_dom)
    then show "card (dom (table_view t)) \<le> maxKeys s"
      using t(3) room sinv_view(2,3) [OF s] by (simp add: card_insert_if)
    show "fresher now (store_view s) (table_view t)"
      unfolding t(4) fresher_def by (auto simp: kv_expired_def)
    show "i64 (kvExp x)" if "table_view t b = Some x" for b x
      using that sinvD(8) [OF s, of b x] unfolding t(4)
      by (cases "b = a") (auto simp: i64_def kNoExpiry_def)
  qed
  have v1: "store_view ?s = (store_view s)(a \<mapsto> ?y)" using t(4) by simp
  have "keymap ((store_view s)(a \<mapsto> ?y)) = (store_map s)(kvKey ?y \<mapsto> ?y)"
    by (rule keymap_upd [OF u]) (use abs t(3) in auto)
  then have m1: "store_map ?s = (store_map s)(key \<mapsto> ?y)" "store_view ?s a = Some ?y"
    unfolding v1 by simp_all
  have dd: "i64 ?d" "?d = kNoExpiry \<or> now \<le> ?d" using d by (auto simp: past_deadline_def i64_def kNoExpiry_def)
  obtain s2 where s2: "Store_poke a (\<lambda>e. e\<lparr>expiresAtMs := ?d\<rparr>) ?s = Some s2"
    "sinv s2" "op_frame now ?s s2" "store_view s2 a = Some (?y\<lparr>kvExp := ?d\<rparr>)"
    "store_map s2 = (store_map ?s)(key \<mapsto> ?y\<lparr>kvExp := ?d\<rparr>)"
    using redate_key [OF conjunct1 [OF s1] m1(2) dd] unfolding kv.select_convs(1) by blast
  obtain s3 where s3: "Store_poke a (\<lambda>e. e\<lparr>lruClock := of_int now\<rparr>) s2 = Some s3" "sinv s3" "op_frame now s2 s3"
    "store_map s3 = (store_map s2)(key \<mapsto> ?y\<lparr>kvExp := ?d, kvLru := of_int now\<rparr>)"
    using touch_key [OF s2(2,4), of "of_int now" now] by auto
  have "store_map s3 = (store_map s)(key \<mapsto> new_kv key val ?d now)"
    using s3(4) s2(5) m1(1) by (simp add: new_kv_def)
  moreover have "op_frame now s s3" using s1 s2(3) s3(3) by (blast intro: op_frame_trans)
  ultimately show ?thesis using t(1) s2(1) s3(1,2) by auto
qed

lemma evict_keys:
  assumes s: "sinv s" and size: "Store_size s \<noteq> 0"
  shows "\<exists>s' K. evictOne ops now s = Some s' \<and> sinv s' \<and> op_frame now s s' \<and>
    evicted (unat (lruSamples s)) now (store_map s) K \<and> store_map s' = store_map s |` (- K) \<and>
    Store_size s' < Store_size s"
proof -
  obtain s' R where s': "evictOne ops now s = Some s'" "sinv s'" "op_frame now s s'"
    "evicted (unat (lruSamples s)) now (store_view s) R" "store_view s' = store_view s |` (- R)"
    using evictOne_correct [OF s size] by blast
  have "dom (store_view s') = dom (store_view s) - R" unfolding s'(5) dom_restrict by blast
  then have "dom (store_view s') \<subset> dom (store_view s)" using s'(4) by (auto simp: evicted_def)
  then have "Store_size s' < Store_size s"
    unfolding sinv_view(2) [OF s] sinv_view(2) [OF s'(2)]
    by (rule psubset_card_mono [OF sinv_view(3) [OF s]])
  then show ?thesis
    using s'(1-3) evicted_keymap [OF sinv_view(1) [OF s] s'(4)] keymap_restrict [OF sinv_view(1) [OF s], of R] s'(5)
    by auto
qed

lemma Store_set_correct:
  assumes s: "sinv s" and len: "length key + length val < 2 ^ 32" and d: "i64 d"
  shows "\<exists>r s'. Store_set ops key val d now s = Some (r, s') \<and> sinv s' \<and> op_frame now s s' \<and>
    set_spec (maxKeys s) (unat (lruSamples s)) (policy s) key val d now (store_map s) r (store_map s')"
proof (cases rule: lookup_cases [OF s, where now = now and key = key, case_names hit miss])
  case (hit a x)
  show ?thesis
  proof (cases "past_deadline d now")
    case True
    then show ?thesis
      using remove_key [OF s hit(3), of now] hit(2,4)
      by (auto simp: Store_set_def set_spec_def past_deadline_def)
  next
    case False
    then show ?thesis
      using overwrite_key [OF s hit(3-5) len d False] hit(1,2)
      by (auto simp: Store_set_def set_spec_def past_deadline_def)
  qed
next
  case (miss s1)
  have size: "Store_size s1 = card (dom ((store_map s)(key := None)))"
    using sinv_view(2) [OF miss(3)] keymap_card [OF sinv_view(1) [OF miss(3)]] miss(5) by simp
  have cfg: "maxKeys s1 = maxKeys s" "lruSamples s1 = lruSamples s" "policy s1 = policy s"
    using miss(4) by (simp_all add: op_frame_def)
  have absent: "store_map s1 key = None" using miss(5) by simp
  show ?thesis
  proof (cases "past_deadline d now")
    case True
    then show ?thesis using miss by (auto simp: Store_set_def set_spec_def past_deadline_def)
  next
    case False
    consider "Store_size s1 < maxKeys s1" | "Store_size s1 \<ge> maxKeys s1" "policy s1 = KNoEviction"
      | "Store_size s1 \<ge> maxKeys s1" "policy s1 = KAllKeysLru"
      using EvictionPolicy.exhaust [of "policy s1"] by fastforce
    then show ?thesis
    proof cases
      case 1
      then show ?thesis
        using insert_key [OF miss(3) absent 1 len d False] miss(1,2,4,5) False size cfg op_frame_trans [OF miss(4)]
        by (fastforce simp: Store_set_def set_spec_def past_deadline_def)
    next
      case 2
      then show ?thesis
        using miss False size cfg by (auto simp: Store_set_def set_spec_def past_deadline_def)
    next
      case 3
      have "Store_size s1 \<noteq> 0" using 3(1) sinvD(3) [OF miss(3)] by simp
      then obtain s2 K where s2: "evictOne ops now s1 = Some s2" "sinv s2" "op_frame now s1 s2"
        "evicted (unat (lruSamples s)) now ((store_map s)(key := None)) K"
        "store_map s2 = (store_map s)(key := None) |` (- K)" "Store_size s2 < Store_size s1"
        using evict_keys [OF miss(3), of now] cfg(2) miss(5) by auto
      have "Store_size s2 < maxKeys s2" "store_map s2 key = None"
        using s2(3,5,6) sinvD(2) [OF miss(3)] by (simp_all add: op_frame_def restrict_map_def)
      then obtain s3 where "Store_set ops key val d now s = Some (True, s3)" "sinv s3" "op_frame now s2 s3"
        "store_map s3 = (store_map s2)(key \<mapsto> new_kv key val (if d = kKeepTtl then kNoExpiry else d) now)"
        using insert_key [OF s2(2) _ _ len d False] 3 miss(1,2) s2(1) False
        by (auto simp: Store_set_def past_deadline_def)
      moreover from this have "op_frame now s s3" using miss(4) s2(3) by (blast intro: op_frame_trans)
      ultimately show ?thesis
        using s2(4,5) 3 False miss(1) size cfg by (auto simp: set_spec_def)
    qed
  qed
qed

end

end
