(* ===== verification/Store_Cycle.thy ===== *)
theory Store_Cycle
  imports Store_Set
begin

text \<open>
  The expire cycle. A scan of one bucket removes exactly its expired entries; a pass scans
  buckets in cursor order, so the passed part of the table stays free of expired entries; a
  cycle only removes expired entries, reports how many, and makes progress.
\<close>

lemma nextCursor_zero:
  assumes "k < 64"
  shows "nextCursor c (2 ^ k - 1) = 0 \<longleftrightarrow> revn k (unat c) + 1 = 2 ^ k"
proof -
  have zero: "revn k 0 = 0" by (induction k) simp_all
  have "nextCursor c (2 ^ k - 1) = 0 \<longleftrightarrow> (revn k (unat c) + 1) mod 2 ^ k = 0"
    using unat_nextCursor [OF assms, of c] rank_nextCursor [OF assms, of c] zero
    by (metis unat_eq_zero)
  also have "\<dots> \<longleftrightarrow> revn k (unat c) + 1 = 2 ^ k"
    using revn_less [of k "unat c"] by (cases "revn k (unat c) + 1 = 2 ^ k") auto
  finally show ?thesis .
qed

section \<open>What a cycle may change\<close>

definition clean :: "int \<Rightarrow> 'p Store \<Rightarrow> bool" where
  "clean t0 s \<longleftrightarrow> (\<forall>a x. store_view s a = Some x \<longrightarrow> \<not> kv_expired x t0)"

text \<open>A limit that lets a pass look at one bucket.\<close>

definition runs :: "u64 \<Rightarrow> bool" where
  "runs lim \<longleftrightarrow> lim \<noteq> 0 \<and> lim * 20 \<noteq> 0"

text \<open>\<open>reaps now s s' m\<close>: \<open>m\<close> entries are gone, all of them expired; the rest is as it was.\<close>

definition reaps :: "int \<Rightarrow> 'p Store \<Rightarrow> 'p Store \<Rightarrow> nat \<Rightarrow> bool" where
  "reaps now s s' m \<longleftrightarrow>
     maxKeys s' = maxKeys s \<and> lruSamples s' = lruSamples s \<and> policy s' = policy s \<and>
     hashSeed (table s') = hashSeed (table s) \<and> Store_bucketCount s' = Store_bucketCount s \<and>
     (\<exists>R \<subseteq> dom (store_view s). (\<forall>a \<in> R. kv_expired (the (store_view s a)) now) \<and>
        store_view s' = store_view s |` (- R) \<and> m = card R \<and> finite R)"

lemma reaps_refl: "reaps now s s 0"
  unfolding reaps_def by (auto intro!: exI [of _ "{}"] simp: restrict_map_def)

lemma reaps_trans:
  assumes "reaps now s s' m" "reaps now s' s'' n"
  shows "reaps now s s'' (m + n)"
proof -
  obtain R where R: "R \<subseteq> dom (store_view s)" "\<forall>a \<in> R. kv_expired (the (store_view s a)) now"
    "store_view s' = store_view s |` (- R)" "m = card R" "finite R" using assms(1) by (auto simp: reaps_def)
  obtain Q where Q: "Q \<subseteq> dom (store_view s')" "\<forall>a \<in> Q. kv_expired (the (store_view s' a)) now"
    "store_view s'' = store_view s' |` (- Q)" "n = card Q" "finite Q" using assms(2) by (auto simp: reaps_def)
  have d: "Q \<subseteq> dom (store_view s) - R" using Q(1) unfolding R(3) dom_restrict by blast
  then have "store_view s' a = store_view s a" if "a \<in> Q" for a
    using that unfolding R(3) by (auto simp: restrict_map_def)
  then have "\<forall>a \<in> Q. kv_expired (the (store_view s a)) now" using Q(2) by simp
  moreover have "store_view s'' = store_view s |` (- (R \<union> Q))"
    unfolding Q(3) R(3) by (auto simp: restrict_map_def)
  moreover have "card (R \<union> Q) = m + n" using d R(4,5) Q(4,5) by (subst card_Un_disjoint) auto
  ultimately have "\<exists>R \<subseteq> dom (store_view s). (\<forall>a \<in> R. kv_expired (the (store_view s a)) now) \<and>
      store_view s'' = store_view s |` (- R) \<and> m + n = card R \<and> finite R"
    using R(1,2,5) Q(5) d by (intro exI [of _ "R \<union> Q"]) auto
  then show ?thesis using assms by (simp add: reaps_def)
qed

lemma reaps_fields [simp]:
  "reaps now s (s'\<lparr>expiredKeys := n\<rparr>) m = reaps now s s' m"
  "reaps now s (s'\<lparr>expireCursor := c\<rparr>) m = reaps now s s' m"
  "reaps now (s\<lparr>expiredKeys := n\<rparr>) s' m = reaps now s s' m"
  by (simp_all add: reaps_def Store_bucketCount_def)

lemma reaps_sub: "reaps now s s' m \<Longrightarrow> store_view s' \<subseteq>\<^sub>m store_view s"
  by (auto simp: reaps_def map_le_def restrict_map_def simp del: mem_view_dom split: if_splits)

lemma reaps_live:
  assumes "reaps now s s' m" "now \<le> t" "unique_keys (store_view s)"
  shows "live_at t (store_map s') = live_at t (store_map s)"
proof -
  obtain R where R: "\<forall>a \<in> R. kv_expired (the (store_view s a)) now" "store_view s' = store_view s |` (- R)"
    using assms(1) by (auto simp: reaps_def)
  let ?K = "{kvKey x | a x. a \<in> R \<and> store_view s a = Some x}"
  have m: "store_map s' = store_map s |` (- ?K)" unfolding R(2) by (rule keymap_restrict [OF assms(3)])
  show ?thesis
  proof
    fix k
    show "live_at t (store_map s') k = live_at t (store_map s) k"
    proof (cases "k \<in> ?K")
      case True
      then obtain a x where a: "a \<in> R" "store_view s a = Some x" "kvKey x = k" by blast
      have "kv_expired x now" using R(1) a(1,2) by force
      then have "kv_expired x t" using assms(2) by (rule kv_expired_mono)
      then show ?thesis using keymap_at [OF assms(3) a(2)] a(3) True by (simp add: live_at_def m restrict_map_def)
    next
      case False
      then show ?thesis by (simp add: live_at_def m restrict_map_def)
    qed
  qed
qed

context entry_pool
begin

lemma reaps_size:
  assumes "reaps now s s' m" "sinv s" "sinv s'"
  shows "Store_size s = Store_size s' + m"
proof -
  obtain R where R: "R \<subseteq> dom (store_view s)" "store_view s' = store_view s |` (- R)" "m = card R" "finite R"
    using assms(1) by (auto simp: reaps_def)
  have "dom (store_view s') = dom (store_view s) - R" unfolding R(2) dom_restrict by blast
  then have "Store_size s' = card (dom (store_view s)) - m"
    using R(1,3,4) by (simp add: sinv_view(2) [OF assms(3)] card_Diff_subset)
  moreover have "m \<le> card (dom (store_view s))" using R(1,3) sinv_view(3) [OF assms(2)] by (simp add: card_mono)
  ultimately show ?thesis by (simp add: sinv_view(2) [OF assms(2)])
qed

section \<open>One bucket\<close>

lemma expireVisitor_step:
  "slab (table s) a = Some e \<Longrightarrow> expireVisitor ops now a (s, n, m) =
     (if Entry_expired e now then do { s \<leftarrow> Store_remove ops a s; Some (s, n + 1, m + 1) }
      else Some (s, n + 1, m))"
  by (simp add: expireVisitor_def)

lemma scanChain_expire:
  assumes "sinv s" "table_wf css (table s)" "i < bucketCount (table s)" "css ! i = pre @ todo"
  shows "\<exists>s'. scanChain (\<lambda>st. table (fst st)) (expireVisitor ops now) (head_link todo) (s, n, m) =
      Some (s', n + length todo, m + card (set_expired now (store_view s) todo)) \<and>
    sinv s' \<and> store_view s' = store_view s |` (- set_expired now (store_view s) todo) \<and>
    op_frame now s s' \<and> Store_bucketCount s' = Store_bucketCount s \<and> s' = s\<lparr>table := table s'\<rparr>"
  using assms
proof (induction todo arbitrary: s css pre n m)
  case Nil
  then show ?case by (simp add: chain_loops set_expired_simps restrict_map_def)
next
  case (Cons a todo)
  note s = Cons.prems(1) and wfD = table_wfD [OF Cons.prems(2)]
    and ch = table_chainsD [OF table_wfD(3) [OF Cons.prems(2)]]
  have "chain (slab (table s)) (buckets (table s) ! i) (pre @ a # todo)"
    using ch(2) [OF Cons.prems(3)] Cons.prems(4) by simp
  then obtain e where e: "slab (table s) a = Some e" "chain (slab (table s)) (nextp e) todo"
    using chain_append by blast
  have next_e: "nextp e = head_link todo" using e(2) by (rule chain_head)
  let ?x = "kv_of (chars (table s)) e"
  have x: "store_view s a = Some ?x" using e(1) by (simp add: mem_view_def)
  have ex: "Entry_expired e now = kv_expired ?x now" by (rule Entry_expired_kv)
  have dist: "distinct (css ! i)" using ch(1,3) Cons.prems(3) by (simp add: distinct_concat_iff)
  then have a: "a \<notin> set todo" "a \<notin> set pre" using Cons.prems(4) by simp_all
  show ?case
  proof (cases "kv_expired ?x now")
    case True
    obtain s1 where s1: "Store_remove ops a s = Some s1" "sinv s1" "op_frame now s s1"
      "store_view s1 = (store_view s)(a := None)" "s1 = s\<lparr>table := table s1\<rparr>"
      using Store_remove_correct [OF s x] by blast
    have i: "bucketOf (table s) (hash e) = i" using ch(5) [OF Cons.prems(3) _ e(1)] Cons.prems(4) by simp
    have "remove1 a (css ! i) = pre @ todo" using Cons.prems(4) a by (simp add: remove1_append)
    then obtain t1 where t1: "Table_remove ops a (table s) = Some t1" "table_wf (css[i := pre @ todo]) t1"
      "bucketCount t1 = bucketCount (table s)"
      using Table_remove_wf [OF Cons.prems(2) e(1), of ops] i by auto
    have eq: "table s1 = t1" using s1(1) t1(1) by (auto simp: Store_remove_def)
    have E: "set_expired now (store_view s1) todo = set_expired now (store_view s) todo"
      unfolding s1(4) using a(1) by (rule set_expired_other)
    obtain s' where IH: "scanChain (\<lambda>st. table (fst st)) (expireVisitor ops now) (head_link todo) (s1, n + 1, m + 1) =
        Some (s', n + 1 + length todo, m + 1 + card (set_expired now (store_view s) todo))"
      "sinv s'" "store_view s' = store_view s1 |` (- set_expired now (store_view s) todo)"
      "op_frame now s1 s'" "Store_bucketCount s' = Store_bucketCount s1" "s' = s1\<lparr>table := table s'\<rparr>"
      using Cons.IH [OF s1(2), of "css[i := pre @ todo]" pre "n + 1" "m + 1"] t1(2,3) eq Cons.prems(3) ch(1)
      unfolding E by auto
    have "card (insert a (set_expired now (store_view s) todo)) = Suc (card (set_expired now (store_view s) todo))"
      using a(1) by (simp add: set_expired_def)
    moreover have "store_view s' = store_view s |` (- insert a (set_expired now (store_view s) todo))"
      unfolding IH(3) s1(4) by (auto simp: restrict_map_def)
    moreover have "s' = s\<lparr>table := table s'\<rparr>" by (subst IH(6), subst s1(5)) simp
    moreover have "Store_bucketCount s' = Store_bucketCount s"
      using IH(5) eq t1(3) by (simp add: Store_bucketCount_def)
    ultimately show ?thesis
      using True x e(1) ex s1(1) IH(1,2) next_e op_frame_trans [OF s1(3) IH(4)]
      by (simp add: chain_loops expireVisitor_step set_expired_simps)
  next
    case False
    have "css ! i = (pre @ [a]) @ todo" using Cons.prems(4) by simp
    from Cons.IH [OF s Cons.prems(2,3) this, of "n + 1" m]
    show ?thesis using False x e(1) ex next_e
      by (simp add: chain_loops expireVisitor_step set_expired_simps)
  qed
qed

lemma scanBucket_expire:
  assumes s: "sinv s" and k: "Store_bucketCount s = 2 ^ k"
  shows "\<exists>s' n' m'. Table_scanBucket (\<lambda>st. table (fst st)) (expireVisitor ops now) (expireCursor s) (s, n, m) =
      Some (nextCursor (expireCursor s) (2 ^ k - 1), s', n', m + m') \<and>
    sinv s' \<and> reaps now s s' m' \<and> s' = s\<lparr>table := table s'\<rparr> \<and>
    (\<forall>a x. store_view s' a = Some x \<longrightarrow> key_bucket (table s) (kvKey x) = unat (expireCursor s) \<longrightarrow>
       \<not> kv_expired x now)"
proof -
  obtain css where wf: "table_wf css (table s)" using inv_wf [OF sinvD(1) [OF s]] by blast
  note wfD = table_wfD [OF wf] and ch = table_chainsD [OF table_wfD(3) [OF wf]]
  let ?c = "expireCursor s" and ?i = "unat (expireCursor s)"
  have k': "bucketCount (table s) = 2 ^ k" using k by (simp add: Store_bucketCount_def)
  have i: "?i < bucketCount (table s)" using sinvD(7) [OF s] by (simp add: Store_bucketCount_def)
  have at: "unat (?c AND bucketMask (table s)) = ?i"
    using i k' by (simp only: unat_and_bucketMask [OF k']) simp
  have head: "buckets (table s) ! ?i = head_link (css ! ?i)" using ch(2) [OF i] by (rule chain_head)
  let ?E = "set_expired now (store_view s) (css ! ?i)"
  obtain s' where s': "scanChain (\<lambda>st. table (fst st)) (expireVisitor ops now) (head_link (css ! ?i)) (s, n, m) =
      Some (s', n + length (css ! ?i), m + card ?E)" "sinv s'" "store_view s' = store_view s |` (- ?E)"
    "op_frame now s s'" "Store_bucketCount s' = Store_bucketCount s" "s' = s\<lparr>table := table s'\<rparr>"
    using scanChain_expire [OF s wf i, of "[]" "css ! ?i"] unfolding append_Nil by blast
  have "?E \<subseteq> dom (store_view s)"
    using chain_in_dom [OF ch(2) [OF i]] by (auto simp: set_expired_def)
  moreover have "\<forall>a \<in> ?E. kv_expired (the (store_view s a)) now" by (simp add: set_expired_def)
  moreover have "finite ?E" by (simp add: set_expired_def)
  ultimately have "reaps now s s' (card ?E)"
    using s'(3-5) unfolding reaps_def op_frame_def by blast
  moreover have "\<not> kv_expired x now"
    if "store_view s' a = Some x" "key_bucket (table s) (kvKey x) = ?i" for a x
  proof
    assume ex: "kv_expired x now"
    have v: "store_view s a = Some x" "a \<notin> ?E" using that(1) unfolding s'(3) by (auto simp: restrict_map_def split: if_splits)
    then obtain e where e: "slab (table s) a = Some e" "x = kv_of (chars (table s)) e" by (auto simp: mem_view_Some)
    then have "hash e = hash32 (table s) (kvKey x)" using wfD(4) by (simp add: table_keyed_def)
    then have "a \<in> set (css ! ?i)" using in_own_chain [OF wfD(3) e(1)] that(2) by (simp add: key_bucket_def)
    then show False using v ex by (simp add: set_expired_def)
  qed
  moreover have "bucketMask (table s) = 2 ^ k - 1" using k' by (rule bucketMask_shape)
  ultimately show ?thesis
    using s'(1,2,6) at i head by (auto simp: Table_scanBucket_def bucket_at_ok)
qed

section \<open>Passes\<close>

text \<open>With the cursor's own bucket scanned, every bucket up to it is clean.\<close>

lemma passed_clean:
  assumes s: "sinv s" and k: "Store_bucketCount s = 2 ^ k" and r: "reaps now s s' m"
    and own: "\<forall>a x. store_view s' a = Some x \<longrightarrow> key_bucket (table s) (kvKey x) = unat (expireCursor s) \<longrightarrow>
      \<not> kv_expired x now"
    and t0: "t0 \<le> now" and sw: "swept t0 s"
    and x: "store_view s' a = Some x"
    and le: "revn k (key_bucket (table s) (kvKey x)) \<le> revn k (unat (expireCursor s))"
  shows "\<not> kv_expired x t0"
proof (cases "key_bucket (table s) (kvKey x) = unat (expireCursor s)")
  case True
  then show ?thesis using own x kv_expired_mono t0 by blast
next
  case False
  have "key_bucket (table s) (kvKey x) < 2 ^ k" "unat (expireCursor s) < 2 ^ k"
    using k bucketOf_less [OF sinv_view(4) [OF s]] sinvD(7) [OF s]
    by (simp_all add: key_bucket_def Store_bucketCount_def)
  then have "revn k (key_bucket (table s) (kvKey x)) \<noteq> revn k (unat (expireCursor s))"
    using False by (metis revn_revn)
  moreover have "store_view s a = Some x" using x reaps_sub [OF r] by (auto simp: map_le_def dom_def)
  ultimately show ?thesis using sw k le unfolding swept_def by (metis le_neq_implies_less)
qed

text \<open>One step of the cursor.\<close>

lemma cursor_step:
  assumes s: "sinv s" and k: "Store_bucketCount s = 2 ^ k"
    and s': "sinv s'" "reaps now s s' m" "s' = s\<lparr>table := table s'\<rparr>"
      "\<forall>a x. store_view s' a = Some x \<longrightarrow> key_bucket (table s) (kvKey x) = unat (expireCursor s) \<longrightarrow> \<not> kv_expired x now"
    and c: "c = nextCursor (expireCursor s) (2 ^ k - 1)"
  shows "sinv (s'\<lparr>expireCursor := c\<rparr>)"
    and "t0 \<le> now \<Longrightarrow> swept t0 s \<Longrightarrow> if c = 0 then clean t0 s' else swept t0 (s'\<lparr>expireCursor := c\<rparr>)"
    and "c \<noteq> 0 \<Longrightarrow> revn k (unat c) = revn k (unat (expireCursor s)) + 1"
proof -
  let ?c = "unat (expireCursor s)"
  have "table_shape (table s)" by (rule sinv_view(4) [OF s])
  then have k64: "k < 64" using k by (auto simp: table_shape_def Store_bucketCount_def)
  have bc: "Store_bucketCount s' = 2 ^ k" "hashSeed (table s') = hashSeed (table s)"
    using s'(2) k by (simp_all add: reaps_def)
  show "sinv (s'\<lparr>expireCursor := c\<rparr>)"
    using s'(1) bc(1) nextCursor_less [OF k64, of "expireCursor s"]
    by (simp add: Store_inv_def Store_size_def Store_bucketCount_def c)
  have r: "revn k ?c < 2 ^ k" by (rule revn_less)
  have rank: "revn k (unat c) = (revn k ?c + 1) mod 2 ^ k" unfolding c by (rule rank_nextCursor [OF k64])
  have c0: "c = 0 \<longleftrightarrow> revn k ?c + 1 = 2 ^ k" unfolding c by (rule nextCursor_zero [OF k64])
  then show next_rank: "revn k (unat c) = revn k ?c + 1" if "c \<noteq> 0" using that rank r by simp
  have kb: "key_bucket (table s') = key_bucket (table s)"
    using bc k by (simp add: fun_eq_iff key_bucket_def hash32_def bucketOf_def bucketMask_def Store_bucketCount_def)
  assume t0: "t0 \<le> now" and sw: "swept t0 s"
  note passed = passed_clean [OF s k s'(2,4) t0 sw]
  show "if c = 0 then clean t0 s' else swept t0 (s'\<lparr>expireCursor := c\<rparr>)"
  proof (cases "c = 0")
    case True
    have "revn k (key_bucket (table s) y) \<le> revn k ?c" for y using c0 True revn_less [of k "key_bucket (table s) y"] by simp
    then show ?thesis using True passed by (auto simp: clean_def)
  next
    case False
    have "swept t0 (s'\<lparr>expireCursor := c\<rparr>)"
      unfolding swept_def
    proof (intro allI impI)
      fix k' a x
      assume k': "Store_bucketCount (s'\<lparr>expireCursor := c\<rparr>) = 2 ^ k'"
        and x: "store_view (s'\<lparr>expireCursor := c\<rparr>) a = Some x"
        and lt: "revn k' (key_bucket (table (s'\<lparr>expireCursor := c\<rparr>)) (kvKey x)) <
          revn k' (unat (expireCursor (s'\<lparr>expireCursor := c\<rparr>)))"
      have "k' = k" using k' bc(1) by (simp add: Store_bucketCount_def)
      then have "revn k (key_bucket (table s) (kvKey x)) \<le> revn k ?c"
        using lt kb next_rank [OF False] by simp
      then show "\<not> kv_expired x t0" using passed x by simp
    qed
    then show ?thesis using False by simp
  qed
qed

lemma sweepLoop_correct:
  assumes "sinv s" "Store_bucketCount s = 2 ^ k"
  shows "\<exists>w s' n' m'. sweepLoop ops now lim left (s, n, m) = Some (w, s', n', m + m') \<and>
    sinv s' \<and> reaps now s s' m' \<and> expiredKeys s' = expiredKeys s \<and> (w \<longrightarrow> expireCursor s' = 0) \<and>
    (\<forall>t0 \<le> now. swept t0 s \<longrightarrow> (if w then clean t0 s' else swept t0 s')) \<and>
    (\<not> w \<longrightarrow> revn k (unat (expireCursor s)) + (if n < lim \<and> 0 < left then 1 else 0) \<le>
       revn k (unat (expireCursor s')))"
  using assms
proof (induction left arbitrary: s n m)
  case 0
  then show ?case by (auto intro: exI [of _ 0] simp: reaps_refl)
next
  case (Suc left)
  show ?case
  proof (cases "n < lim")
    case False
    then show ?thesis
      using Suc.prems by (intro exI [of _ False] exI [of _ s] exI [of _ n] exI [of _ 0]) (simp add: reaps_refl)
  next
    case True
    let ?c = "nextCursor (expireCursor s) (2 ^ k - 1)"
    obtain s1 n1 m1 where s1: "Table_scanBucket (\<lambda>st. table (fst st)) (expireVisitor ops now) (expireCursor s) (s, n, m) =
        Some (?c, s1, n1, m + m1)" "sinv s1" "reaps now s s1 m1" "s1 = s\<lparr>table := table s1\<rparr>"
      "\<forall>a x. store_view s1 a = Some x \<longrightarrow> key_bucket (table s) (kvKey x) = unat (expireCursor s) \<longrightarrow> \<not> kv_expired x now"
      using scanBucket_expire [OF Suc.prems, of now n m] by blast
    let ?s = "s1\<lparr>expireCursor := ?c\<rparr>"
    have ek: "expiredKeys s1 = expiredKeys s" by (subst s1(4)) simp
    have bc: "Store_bucketCount ?s = 2 ^ k" using s1(3) Suc.prems(2) by (simp add: reaps_def Store_bucketCount_def)
    note step = cursor_step [OF Suc.prems s1(2-5) refl]
    show ?thesis
    proof (cases "?c = 0")
      case wrap: True
      have "\<forall>t0 \<le> now. swept t0 s \<longrightarrow> clean t0 ?s" using step(2) wrap by (auto simp: clean_def)
      then show ?thesis
        using True wrap s1(1,3) step(1) ek
        by (intro exI [of _ True] exI [of _ ?s] exI [of _ n1] exI [of _ m1]) simp
    next
      case go: False
      obtain w s' n' m' where IH: "sweepLoop ops now lim left (?s, n1, m + m1) = Some (w, s', n', m + m1 + m')"
        "sinv s'" "reaps now ?s s' m'" "expiredKeys s' = expiredKeys ?s" "w \<longrightarrow> expireCursor s' = 0"
        "\<forall>t0 \<le> now. swept t0 ?s \<longrightarrow> (if w then clean t0 s' else swept t0 s')"
        "\<not> w \<longrightarrow> revn k (unat (expireCursor ?s)) + (if n1 < lim \<and> 0 < left then 1 else 0) \<le> revn k (unat (expireCursor s'))"
        using Suc.IH [OF step(1) bc, where n = n1 and m = "m + m1"] by blast
      have "reaps now s s' (m1 + m')" using reaps_trans [of now s ?s m1 s' m'] s1(3) IH(3) by simp
      moreover have "\<not> w \<longrightarrow> revn k (unat (expireCursor s)) + 1 \<le> revn k (unat (expireCursor s'))"
        using IH(7) step(3) [OF go] by (auto split: if_splits)
      moreover have "\<forall>t0 \<le> now. swept t0 s \<longrightarrow> (if w then clean t0 s' else swept t0 s')"
        using IH(6) step(2) go by metis
      ultimately show ?thesis
        using True go s1(1) IH(1,2,4,5) ek by (intro exI [of _ w] exI [of _ s'] exI [of _ n'] exI [of _ "m1 + m'"]) (simp add: add.assoc)
    qed
  qed
qed

lemma passLoop_correct:
  assumes "sinv s" "Store_bucketCount s = 2 ^ k"
  shows "\<exists>w r' s' m'. passLoop ops now lim left r s = Some (r', s') \<and>
    reaped r' = reaped r + m' \<and> passes r \<le> passes r' \<and> passes r' \<le> passes r + left \<and>
    (0 < left \<longrightarrow> passes r < passes r') \<and>
    sinv s' \<and> reaps now s s' m' \<and> expiredKeys s' = expiredKeys s + of_nat m' \<and> (w \<longrightarrow> expireCursor s' = 0) \<and>
    (\<forall>t0 \<le> now. swept t0 s \<longrightarrow> (if w then clean t0 s' else swept t0 s')) \<and>
    (\<not> w \<longrightarrow> revn k (unat (expireCursor s)) + (if runs lim \<and> 0 < left then 1 else 0) \<le>
       revn k (unat (expireCursor s')))"
  using assms
proof (induction left arbitrary: s r)
  case 0
  then show ?case by (intro exI [of _ False] exI [of _ r] exI [of _ s] exI [of _ 0]) (simp add: reaps_refl)
next
  case (Suc left)
  obtain w1 s1 n1 m1 where s1: "sweepLoop ops now (unat lim) (unat (lim * 20)) (s, 0, 0) = Some (w1, s1, n1, m1)"
    "sinv s1" "reaps now s s1 m1" "expiredKeys s1 = expiredKeys s" "w1 \<longrightarrow> expireCursor s1 = 0"
    "\<forall>t0 \<le> now. swept t0 s \<longrightarrow> (if w1 then clean t0 s1 else swept t0 s1)"
    "\<not> w1 \<longrightarrow> revn k (unat (expireCursor s)) + (if 0 < unat lim \<and> 0 < unat (lim * 20) then 1 else 0) \<le>
       revn k (unat (expireCursor s1))"
    using sweepLoop_correct [OF Suc.prems, of now "unat lim" "unat (lim * 20)" 0 0] unfolding add_0 by blast
  have run: "0 < unat lim \<and> 0 < unat (lim * 20) \<longleftrightarrow> runs lim" by (auto simp: runs_def unat_gt_0)
  let ?s = "s1\<lparr>expiredKeys := expiredKeys s1 + of_nat m1\<rparr>"
  let ?r = "\<lparr>reaped = reaped r + m1, passes = passes r + 1\<rparr>"
  have sw: "swept t0 ?s = swept t0 s1" "clean t0 ?s = clean t0 s1" for t0
    by (simp_all add: swept_def clean_def Store_bucketCount_def)
  show ?case
  proof (cases "w1 \<or> m1 * 10 \<le> n1")
    case True
    then show ?thesis
      using s1 run sw by (intro exI [of _ w1] exI [of _ ?r] exI [of _ ?s] exI [of _ m1]) simp
  next
    case False
    have bc: "Store_bucketCount ?s = 2 ^ k" using s1(3) Suc.prems(2) by (simp add: reaps_def Store_bucketCount_def)
    have inv1: "sinv ?s" using s1(2) by simp
    obtain w r' s' m' where IH: "passLoop ops now lim left ?r ?s = Some (r', s')" "reaped r' = reaped ?r + m'"
      "passes ?r \<le> passes r'" "passes r' \<le> passes ?r + left" "sinv s'" "reaps now ?s s' m'"
      "expiredKeys s' = expiredKeys ?s + of_nat m'" "w \<longrightarrow> expireCursor s' = 0"
      "\<forall>t0 \<le> now. swept t0 ?s \<longrightarrow> (if w then clean t0 s' else swept t0 s')"
      "\<not> w \<longrightarrow> revn k (unat (expireCursor ?s)) + (if runs lim \<and> 0 < left then 1 else 0) \<le> revn k (unat (expireCursor s'))"
      using Suc.IH [OF inv1 bc, where r = ?r] by blast
    have "reaps now s s' (m1 + m')" using reaps_trans [of now s ?s m1 s' m'] s1(3) IH(6) by simp
    moreover have "\<not> w \<longrightarrow> revn k (unat (expireCursor s)) + (if runs lim then 1 else 0) \<le> revn k (unat (expireCursor s'))"
      using IH(10) s1(7) False unfolding run by auto
    moreover have "\<forall>t0 \<le> now. swept t0 s \<longrightarrow> (if w then clean t0 s' else swept t0 s')"
      using IH(9) s1(6) False sw(1) by simp
    ultimately show ?thesis
      using False s1(1,4) IH(1-5,7,8)
      by (intro exI [of _ w] exI [of _ r'] exI [of _ s'] exI [of _ "m1 + m'"]) (simp add: add.assoc)
  qed
qed

lemma activeExpireCycle_correct:
  assumes s: "sinv s" and k: "Store_bucketCount s = 2 ^ k"
  shows "\<exists>w r s'. activeExpireCycle ops now lim s = Some (r, s') \<and> 1 \<le> passes r \<and> passes r \<le> kMaxPasses \<and>
    sinv s' \<and> reaps now s s' (reaped r) \<and> expiredKeys s' = expiredKeys s + of_nat (reaped r) \<and>
    (w \<longrightarrow> expireCursor s' = 0) \<and>
    (\<forall>t0 \<le> now. swept t0 s \<longrightarrow> (if w then clean t0 s' else swept t0 s')) \<and>
    (\<not> w \<and> runs lim \<longrightarrow> revn k (unat (expireCursor s)) < revn k (unat (expireCursor s')))"
proof -
  obtain w r s' where "passLoop ops now lim kMaxPasses \<lparr>reaped = 0, passes = 0\<rparr> s = Some (r, s')"
    "passes r \<le> kMaxPasses" "0 < kMaxPasses \<longrightarrow> 0 < passes r"
    "sinv s'" "reaps now s s' (reaped r)" "expiredKeys s' = expiredKeys s + of_nat (reaped r)" "w \<longrightarrow> expireCursor s' = 0"
    "\<forall>t0 \<le> now. swept t0 s \<longrightarrow> (if w then clean t0 s' else swept t0 s')"
    "\<not> w \<longrightarrow> revn k (unat (expireCursor s)) + (if runs lim \<and> 0 < kMaxPasses then 1 else 0) \<le>
       revn k (unat (expireCursor s'))"
    using passLoop_correct [OF s k, of now lim kMaxPasses "\<lparr>reaped = 0, passes = 0\<rparr>"]
    unfolding ExpireCycleResult.select_convs add_0 by (elim exE conjE) simp
  then show ?thesis
    unfolding activeExpireCycle_def
    by (intro exI [of _ w] exI [of _ r] exI [of _ s']) (auto simp: kMaxPasses_def split: if_splits)
qed

end

end
