(* ===== verification/Store_Spec.thy ===== *)
theory Store_Spec
  imports Store_Cycle Simulation
begin

text \<open>
  The store against its specification. The specification is a map from keys to entries
  (value, deadline, recency) on which each operation is described without tables, chains or
  cursors; the simulation interface then covers every sequence of operations.
\<close>

section \<open>Operations and replies\<close>

datatype store_op =
    OpFind string bool | OpSet string string int | OpErase string | OpExpireAt string int
  | OpTtl string | OpCycle u64 | OpClear

datatype store_reply = RValue "string option" | RBool bool | RInt int | RCycle ExpireCycleResult | RUnit

text \<open>The value of the entry a lookup returned, read through the pointer.\<close>

definition read_value :: "'p Store \<Rightarrow> addr option \<Rightarrow> string option option" where
  "read_value s found =
     (case found of
        None \<Rightarrow> Some None
      | Some a \<Rightarrow> do { e \<leftarrow> slab (table s) a; v \<leftarrow> Entry_value (chars (table s)) e; Some (Some v) })"

fun store_step :: "'p pool_ops \<Rightarrow> int \<times> store_op \<Rightarrow> 'p Store \<Rightarrow> (store_reply \<times> 'p Store) option" where
  "store_step ops (now, OpFind key touch) s =
     do { (found, s) \<leftarrow> Store_find ops key now touch s; v \<leftarrow> read_value s found; Some (RValue v, s) }"
| "store_step ops (now, OpSet key val d) s =
     do { (b, s) \<leftarrow> Store_set ops key val d now s; Some (RBool b, s) }"
| "store_step ops (now, OpErase key) s =
     do { (b, s) \<leftarrow> Store_erase ops key now s; Some (RBool b, s) }"
| "store_step ops (now, OpExpireAt key d) s =
     do { (b, s) \<leftarrow> Store_setExpireAt ops key d now s; Some (RBool b, s) }"
| "store_step ops (now, OpTtl key) s =
     do { (i, s) \<leftarrow> Store_ttlMs ops key now s; Some (RInt i, s) }"
| "store_step ops (now, OpCycle lim) s =
     do { (res, s) \<leftarrow> activeExpireCycle ops now lim s; Some (RCycle res, s) }"
| "store_step ops (now, OpClear) s = do { s \<leftarrow> Store_clear ops s; Some (RUnit, s) }"

text \<open>What a caller owes: lengths and deadlines in range, a clock that is not negative.\<close>

fun op_ok :: "int \<times> store_op \<Rightarrow> bool" where
  "op_ok (now, OpSet key val d) \<longleftrightarrow> length key + length val < 2 ^ 32 \<and> i64 d"
| "op_ok (now, OpExpireAt key d) \<longleftrightarrow> i64 d \<and> d \<noteq> kKeepTtl \<and> d \<noteq> kNoExpiry"
| "op_ok (now, OpTtl key) \<longleftrightarrow> 0 \<le> now"
| "op_ok (now, _) \<longleftrightarrow> True"

section \<open>Specification\<close>

record spec_state =
  cap :: nat
  samples :: nat
  pol :: EvictionPolicy
  kvs :: "string \<rightharpoonup> kv"

fun op_spec :: "int \<times> store_op \<Rightarrow> spec_state \<Rightarrow> store_reply \<Rightarrow> (string \<rightharpoonup> kv) \<Rightarrow> bool" where
  "op_spec (now, OpFind key touch) a r m' \<longleftrightarrow>
     (case live_at now (kvs a) key of
        None \<Rightarrow> r = RValue None \<and> m' = (kvs a)(key := None)
      | Some x \<Rightarrow> r = RValue (Some (kvVal x)) \<and>
          m' = (kvs a)(key \<mapsto> if touch then x\<lparr>kvLru := of_int now\<rparr> else x))"
| "op_spec (now, OpSet key val d) a r m' \<longleftrightarrow>
     (\<exists>b. r = RBool b \<and> set_spec (cap a) (samples a) (pol a) key val d now (kvs a) b m')"
| "op_spec (now, OpErase key) a r m' \<longleftrightarrow>
     r = RBool (live_at now (kvs a) key \<noteq> None) \<and> m' = (kvs a)(key := None)"
| "op_spec (now, OpExpireAt key d) a r m' \<longleftrightarrow>
     r = RBool (live_at now (kvs a) key \<noteq> None) \<and>
     m' = (case live_at now (kvs a) key of
             Some x \<Rightarrow> (kvs a)(key := if d < now then None else Some (x\<lparr>kvExp := d, kvLru := of_int now\<rparr>))
           | None \<Rightarrow> (kvs a)(key := None))"
| "op_spec (now, OpTtl key) a r m' \<longleftrightarrow>
     r = RInt (case live_at now (kvs a) key of None \<Rightarrow> -2
           | Some x \<Rightarrow> if kvExp x = kNoExpiry then -1 else kvExp x - now) \<and>
     m' = (case live_at now (kvs a) key of None \<Rightarrow> (kvs a)(key := None) | Some x \<Rightarrow> kvs a)"
| "op_spec (now, OpCycle lim) a r m' \<longleftrightarrow>
     (\<exists>res K. r = RCycle res \<and> 1 \<le> passes res \<and> passes res \<le> kMaxPasses \<and> K \<subseteq> dom (kvs a) \<and>
        (\<forall>k \<in> K. kv_expired (the (kvs a k)) now) \<and> reaped res = card K \<and> m' = kvs a |` (- K))"
| "op_spec (now, OpClear) a r m' \<longleftrightarrow> r = RUnit \<and> m' = Map.empty"

definition store_spec :: "int \<times> store_op \<Rightarrow> spec_state \<Rightarrow> store_reply \<Rightarrow> spec_state \<Rightarrow> bool" where
  "store_spec p a r a' \<longleftrightarrow> cap a' = cap a \<and> samples a' = samples a \<and> pol a' = pol a \<and> op_spec p a r (kvs a')"

definition store_abs :: "'p Store \<Rightarrow> spec_state" where
  "store_abs s = \<lparr>cap = maxKeys s, samples = unat (lruSamples s), pol = policy s, kvs = store_map s\<rparr>"

section \<open>Refinement\<close>

lemma restrict_keys:
  assumes v: "unique_keys v" and R: "R \<subseteq> dom v" "\<forall>a \<in> R. kv_expired (the (v a)) now"
  shows "\<exists>K \<subseteq> dom (keymap v). (\<forall>k \<in> K. kv_expired (the (keymap v k)) now) \<and> card R = card K \<and>
    keymap (v |` (- R)) = keymap v |` (- K)"
proof -
  let ?k = "\<lambda>a. kvKey (the (v a))"
  have at: "keymap v (?k a) = v a" if "a \<in> R" for a
    using that R(1) keymap_at [OF v, of a] by (cases "v a") auto
  have "inj_on ?k (dom v)" using v by (auto simp: inj_on_def unique_keys_def)
  then have "inj_on ?k R" using R(1) by (rule inj_on_subset)
  then have "card R = card (?k ` R)" by (simp add: card_image)
  moreover have "keymap (v |` (- R)) = keymap v |` (- (?k ` R))"
    unfolding keymap_restrict [OF v] keys_image [OF R(1)] by simp
  moreover have "?k ` R \<subseteq> dom (keymap v)" using at R(1) by (auto simp: domIff)
  moreover have "\<forall>k \<in> ?k ` R. kv_expired (the (keymap v k)) now" using R(2) at by simp
  ultimately show ?thesis by blast
qed

lemma reaps_keys:
  assumes "reaps now s s' m" "unique_keys (store_view s)"
  shows "\<exists>K \<subseteq> dom (store_map s). (\<forall>k \<in> K. kv_expired (the (store_map s k)) now) \<and> m = card K \<and>
    store_map s' = store_map s |` (- K)"
proof -
  obtain R where "R \<subseteq> dom (store_view s)" "\<forall>a \<in> R. kv_expired (the (store_view s a)) now"
    "store_view s' = store_view s |` (- R)" "m = card R" using assms(1) by (auto simp: reaps_def)
  then show ?thesis using restrict_keys [OF assms(2), of R now] by simp
qed

context entry_pool
begin

lemma read_value_at:
  assumes "sinv s" "store_view s a = Some x"
  shows "read_value s (Some a) = Some (Some (kvVal x))"
proof -
  obtain css where "table_wf css (table s)" using inv_wf [OF sinvD(1) [OF assms(1)]] by blast
  note mem = table_wfD(2) [OF this]
  obtain e where e: "slab (table s) a = Some e" "x = kv_of (chars (table s)) e"
    using assms(2) by (auto simp: mem_view_Some)
  then show ?thesis using entry_value_kv [OF mem_okD(1) [OF mem e(1)]] by (simp add: read_value_def)
qed

lemma frame_abs:
  "op_frame now s s' \<Longrightarrow> store_spec p (store_abs s) r (store_abs s') = op_spec p (store_abs s) r (store_map s')"
  by (simp add: store_spec_def store_abs_def op_frame_def)

lemma reaps_abs:
  "reaps now s s' m \<Longrightarrow> store_spec p (store_abs s) r (store_abs s') = op_spec p (store_abs s) r (store_map s')"
  by (simp add: store_spec_def store_abs_def reaps_def)

lemma kvs_abs [simp]: "kvs (store_abs s) = store_map s" "cap (store_abs s) = maxKeys s"
  "samples (store_abs s) = unat (lruSamples s)" "pol (store_abs s) = policy s"
  by (simp_all add: store_abs_def)

lemma store_step_refines:
  assumes s: "sinv s" and ok: "op_ok (now, p)"
  shows "\<exists>r s'. store_step ops (now, p) s = Some (r, s') \<and> sinv s' \<and>
    store_spec (now, p) (store_abs s) r (store_abs s')"
proof (cases p)
  case (OpFind key touch)
  obtain r s' where r: "Store_find ops key now touch s = Some (r, s')" "sinv s'" "op_frame now s s'"
    "case live_at now (store_map s) key of
       None \<Rightarrow> r = None \<and> store_map s' = (store_map s)(key := None)
     | Some x \<Rightarrow> \<exists>a. r = Some a \<and> (let y = if touch then x\<lparr>kvLru := of_int now\<rparr> else x in
            store_view s' a = Some y \<and> store_map s' = (store_map s)(key \<mapsto> y))"
    using Store_find_correct [OF s] by blast
  show ?thesis
  proof (cases "live_at now (store_map s) key")
    case None
    then show ?thesis using OpFind r by (simp add: frame_abs read_value_def)
  next
    case (Some x)
    then obtain a where a: "r = Some a" "store_view s' a = Some (if touch then x\<lparr>kvLru := of_int now\<rparr> else x)"
      "store_map s' = (store_map s)(key \<mapsto> if touch then x\<lparr>kvLru := of_int now\<rparr> else x)"
      using r(4) by (auto simp: Let_def)
    have "read_value s' (Some a) = Some (Some (kvVal x))" using read_value_at [OF r(2) a(2)] by simp
    then show ?thesis using OpFind Some r(1-3) a(1,3) by (simp add: frame_abs)
  qed
next
  case (OpSet key val d)
  then show ?thesis using Store_set_correct [OF s, of key val d now] ok by (auto simp: frame_abs)
next
  case (OpErase key)
  then show ?thesis using Store_erase_correct [OF s, of key now] by (auto simp: frame_abs)
next
  case (OpExpireAt key d)
  then show ?thesis using Store_setExpireAt_correct [OF s, of d key now] ok
    by (cases "live_at now (store_map s) key") (auto simp: frame_abs)
next
  case (OpTtl key)
  then show ?thesis using Store_ttlMs_correct [OF s, of now key] ok
    by (cases "live_at now (store_map s) key") (auto simp: frame_abs)
next
  case (OpCycle lim)
  obtain k where "Store_bucketCount s = 2 ^ k"
    using sinv_view(4) [OF s] by (auto simp: table_shape_def Store_bucketCount_def)
  then obtain r s' where r: "activeExpireCycle ops now lim s = Some (r, s')" "1 \<le> passes r" "passes r \<le> kMaxPasses"
    "sinv s'" "reaps now s s' (reaped r)"
    using activeExpireCycle_correct [OF s] by blast
  then show ?thesis
    using OpCycle reaps_keys [OF r(5) sinv_view(1) [OF s]] by (auto simp: reaps_abs)
next
  case OpClear
  then show ?thesis using Store_clear_correct [OF s] by (auto simp: store_spec_def store_abs_def)
qed

end

text \<open>Any pool that meets its interface gives a store that meets its specification.\<close>

sublocale entry_pool \<subseteq> store: simulation "store_step ops" op_ok "Store_inv live pool_inv" store_abs store_spec
  by unfold_locales (use store_step_refines in force)

end
