(* ===== verification/Store_Sweep.thy ===== *)
theory Store_Sweep
  imports Store_Spec
begin

text \<open>
  Complete sweeps. Between two moments at which the cursor is 0, with any operations in
  between and the table free to grow, the expire cycle has examined every entry that was
  there from the start; and the cursor does return to 0, because every cycle moves it.
\<close>

section \<open>Sweeps with interleaved operations\<close>

text \<open>
  \<open>sweep ops t0 s s'\<close>: from \<open>s\<close> to \<open>s'\<close> by operations at times from \<open>t0\<close> on, none of which is
  a clear or a cycle that brought the cursor back to 0.
\<close>

inductive sweep :: "'p pool_ops \<Rightarrow> int \<Rightarrow> 'p Store \<Rightarrow> 'p Store \<Rightarrow> bool" for ops t0 where
  start: "sweep ops t0 s s"
| op: "sweep ops t0 s s1 \<Longrightarrow> t0 \<le> now \<Longrightarrow> op_ok (now, p) \<Longrightarrow> p \<noteq> OpClear \<Longrightarrow> \<forall>lim. p \<noteq> OpCycle lim \<Longrightarrow>
     store_step ops (now, p) s1 = Some (r, s2) \<Longrightarrow> sweep ops t0 s s2"
| cycle: "sweep ops t0 s s1 \<Longrightarrow> t0 \<le> now \<Longrightarrow>
     activeExpireCycle ops now lim s1 = Some (r, s2) \<Longrightarrow> expireCursor s2 \<noteq> 0 \<Longrightarrow> sweep ops t0 s s2"

lemma swept_start: "expireCursor s = 0 \<Longrightarrow> swept t0 s"
proof -
  have "revn k 0 = 0" for k by (induction k) simp_all
  then show "expireCursor s = 0 \<Longrightarrow> swept t0 s" by (simp add: swept_def)
qed

context entry_pool
begin

lemma step_frame:
  assumes "sinv s" "op_ok (now, p)" "p \<noteq> OpClear" "\<forall>lim. p \<noteq> OpCycle lim" "store_step ops (now, p) s = Some (r, s')"
  shows "sinv s' \<and> op_frame now s s'"
proof (cases p)
  case (OpFind key touch)
  then show ?thesis
    using assms(5) Store_find_correct [OF assms(1), of key now touch] by (auto split: Option.bind_splits)
next
  case (OpSet key val d)
  then show ?thesis
    using assms(2,5) Store_set_correct [OF assms(1), of key val d now] by auto
next
  case (OpErase key)
  then show ?thesis using assms(5) Store_erase_correct [OF assms(1), of key now] by auto
next
  case (OpExpireAt key d)
  then show ?thesis using assms(2,5) Store_setExpireAt_correct [OF assms(1), of d key now] by auto
next
  case (OpTtl key)
  then show ?thesis using assms(2,5) Store_ttlMs_correct [OF assms(1), of now key] by auto
qed (use assms(3,4) in auto)

lemma bucketCount_pow2: "sinv s \<Longrightarrow> \<exists>k. Store_bucketCount s = 2 ^ k"
  using sinv_view(4) [of s] by (auto simp: table_shape_def Store_bucketCount_def)

lemma cycle_step:
  assumes s: "sinv s" and run: "activeExpireCycle ops now lim s = Some (r, s')" and t0: "t0 \<le> now"
  shows "sinv s'" "reaps now s s' (reaped r)"
    and "swept t0 s \<Longrightarrow> clean t0 s' \<and> expireCursor s' = 0 \<or> swept t0 s'"
    and "swept t0 s \<Longrightarrow> runs lim \<Longrightarrow> expireCursor s' = 0 \<Longrightarrow> clean t0 s'"
    and "runs lim \<Longrightarrow> Store_bucketCount s = 2 ^ k \<Longrightarrow> expireCursor s' \<noteq> 0 \<Longrightarrow>
      revn k (unat (expireCursor s)) < revn k (unat (expireCursor s'))"
proof -
  obtain k' where k': "Store_bucketCount s = 2 ^ k'" using bucketCount_pow2 [OF s] by blast
  have zero: "revn k 0 = 0" for k by (induction k) simp_all
  obtain w where w: "sinv s'" "reaps now s s' (reaped r)" "w \<longrightarrow> expireCursor s' = 0"
    "\<forall>t0 \<le> now. swept t0 s \<longrightarrow> (if w then clean t0 s' else swept t0 s')"
    "\<not> w \<and> runs lim \<longrightarrow> revn k' (unat (expireCursor s)) < revn k' (unat (expireCursor s'))"
    using activeExpireCycle_correct [OF s k', of now lim] run by auto
  show "sinv s'" "reaps now s s' (reaped r)" by (rule w(1), rule w(2))
  show "swept t0 s \<Longrightarrow> clean t0 s' \<and> expireCursor s' = 0 \<or> swept t0 s'" using w(3,4) t0 by metis
  show "swept t0 s \<Longrightarrow> runs lim \<Longrightarrow> expireCursor s' = 0 \<Longrightarrow> clean t0 s'"
    using w(4,5) t0 zero by (metis not_less_zero unat_0)
  assume "runs lim" "Store_bucketCount s = 2 ^ k" "expireCursor s' \<noteq> 0"
  then show "revn k (unat (expireCursor s)) < revn k (unat (expireCursor s'))"
    using w(3,5) k' by auto
qed

lemma sweep_swept:
  assumes "sweep ops t0 s s'" "sinv s" "expireCursor s = 0"
  shows "sinv s' \<and> swept t0 s'"
  using assms
proof (induction rule: sweep.induct)
  case (start s)
  then show ?case by (simp add: swept_start)
next
  case (op s s1 now p r s2)
  then have s1: "sinv s1" "swept t0 s1" by simp_all
  have "sinv s2" "op_frame now s1 s2" using step_frame [OF s1(1)] op.hyps by blast+
  then show ?case
    using swept_frame [OF s1(2) _ op.hyps(2) sinv_view(4) [OF s1(1)] sinvD(7) [OF s1(1)]] by blast
next
  case (cycle s s1 now lim r s2)
  then have s1: "sinv s1" "swept t0 s1" by simp_all
  show ?case using cycle_step(1,3) [OF s1(1) cycle.hyps(3,2)] s1(2) cycle.hyps(4) by blast
qed

section \<open>Progress\<close>

text \<open>Cycles in a row at the given times.\<close>

lemma clean_reaps: "clean t0 s \<Longrightarrow> reaps now s s' m \<Longrightarrow> clean t0 s'"
  using reaps_sub [of now s s' m] unfolding clean_def map_le_def by (metis domI)

end

fun runCycles :: "'p pool_ops \<Rightarrow> u64 \<Rightarrow> int list \<Rightarrow> 'p Store \<Rightarrow> 'p Store option" where
  "runCycles ops lim [] s = Some s"
| "runCycles ops lim (now # nows) s =
     do { (r, s) \<leftarrow> activeExpireCycle ops now lim s; runCycles ops lim nows s }"

context entry_pool
begin

lemma runCycles_total:
  assumes "sinv s"
  shows "\<exists>s'. runCycles ops lim nows s = Some s' \<and> sinv s' \<and> (clean t0 s \<longrightarrow> clean t0 s') \<and>
    Store_bucketCount s' = Store_bucketCount s"
  using assms
proof (induction nows arbitrary: s)
  case Nil
  then show ?case by simp
next
  case (Cons now nows)
  obtain k where "Store_bucketCount s = 2 ^ k" using bucketCount_pow2 [OF Cons.prems] by blast
  then obtain r s1 where s1: "activeExpireCycle ops now lim s = Some (r, s1)" "sinv s1" "reaps now s s1 (reaped r)"
    using activeExpireCycle_correct [OF Cons.prems, of k now lim] by blast
  have "Store_bucketCount s1 = Store_bucketCount s" using s1(3) by (simp add: reaps_def)
  then show ?case using Cons.IH [OF s1(2)] s1(1) clean_reaps [OF _ s1(3), of t0] by auto
qed

lemma runCycles_sub:
  assumes "sinv s" "runCycles ops lim nows s = Some s'"
  shows "store_view s' \<subseteq>\<^sub>m store_view s"
  using assms
proof (induction nows arbitrary: s)
  case (Cons now nows)
  obtain r s1 where s1: "activeExpireCycle ops now lim s = Some (r, s1)" "runCycles ops lim nows s1 = Some s'"
    using Cons.prems(2) by (auto split: Option.bind_splits)
  note step = cycle_step(1,2) [OF Cons.prems(1) s1(1) order_refl]
  show ?case using Cons.IH [OF step(1) s1(2)] reaps_sub [OF step(2)] by (rule map_le_trans)
qed simp

text \<open>A sweep under way ends within as many cycles as there are buckets ahead of the cursor.\<close>

lemma sweep_ends:
  assumes "sinv s" "Store_bucketCount s = 2 ^ k" "swept t0 s" "runs lim" "\<forall>now \<in> set nows. t0 \<le> now"
    "2 ^ k - revn k (unat (expireCursor s)) \<le> length nows"
  shows "\<exists>s'. runCycles ops lim nows s = Some s' \<and> sinv s' \<and> clean t0 s'"
  using assms
proof (induction nows arbitrary: s)
  case Nil
  then show ?case using revn_less [of k "unat (expireCursor s)"] by simp
next
  case (Cons now nows)
  have t0: "t0 \<le> now" using Cons.prems(5) by simp
  obtain r s1 where s1: "activeExpireCycle ops now lim s = Some (r, s1)"
    using activeExpireCycle_correct [OF Cons.prems(1,2), of now lim] by blast
  note step = cycle_step [OF Cons.prems(1) s1 t0]
  have bc: "Store_bucketCount s1 = 2 ^ k" using step(2) Cons.prems(2) by (simp add: reaps_def)
  show ?case
  proof (cases "expireCursor s1 = 0")
    case True
    then have "clean t0 s1" using step(4) Cons.prems(3,4) by blast
    then show ?thesis using runCycles_total [OF step(1), of lim nows t0] s1 by auto
  next
    case False
    have "swept t0 s1" using step(3) Cons.prems(3) False by blast
    moreover have "2 ^ k - revn k (unat (expireCursor s1)) \<le> length nows"
      using step(5) [OF Cons.prems(4,2) False] Cons.prems(6) revn_less [of k "unat (expireCursor s1)"] by simp
    ultimately show ?thesis using Cons.IH [OF step(1) bc _ Cons.prems(4)] Cons.prems(5) s1 by auto
  qed
qed

text \<open>From any cursor, the cursor is back at 0 after that many cycles or fewer.\<close>

lemma wraps:
  assumes "sinv s" "Store_bucketCount s = 2 ^ k" "runs lim"
    "2 ^ k - revn k (unat (expireCursor s)) \<le> length nows"
  shows "\<exists>i \<le> length nows. \<exists>s'. runCycles ops lim (take i nows) s = Some s' \<and> sinv s' \<and> expireCursor s' = 0 \<and>
    Store_bucketCount s' = 2 ^ k"
  using assms
proof (induction nows arbitrary: s)
  case Nil
  then show ?case using revn_less [of k "unat (expireCursor s)"] by simp
next
  case (Cons now nows)
  obtain r s1 where s1: "activeExpireCycle ops now lim s = Some (r, s1)"
    using activeExpireCycle_correct [OF Cons.prems(1,2), of now lim] by blast
  note step = cycle_step [OF Cons.prems(1) s1 order_refl]
  have bc: "Store_bucketCount s1 = 2 ^ k" using step(2) Cons.prems(2) by (simp add: reaps_def)
  show ?case
  proof (cases "expireCursor s1 = 0")
    case True
    then show ?thesis using s1 step(1) bc by (intro exI [of _ 1]) simp
  next
    case False
    have "2 ^ k - revn k (unat (expireCursor s1)) \<le> length nows"
      using step(5) [OF Cons.prems(3,2) False] Cons.prems(4) revn_less [of k "unat (expireCursor s1)"] by simp
    from Cons.IH [OF step(1) bc Cons.prems(3) this]
    obtain i s' where "i \<le> length nows" "runCycles ops lim (take i nows) s1 = Some s'" "sinv s'"
      "expireCursor s' = 0" "Store_bucketCount s' = 2 ^ k" by blast
    then show ?thesis using s1 by (intro exI [of _ "Suc i"]) simp
  qed
qed

text \<open>A sweep under way can always be completed by cycles alone.\<close>

lemma sweep_completes:
  assumes "sweep ops t0 s0 s" "sinv s" "Store_bucketCount s = 2 ^ k" "runs lim"
  shows "\<exists>s1 r s'. sweep ops t0 s0 s1 \<and> activeExpireCycle ops t0 lim s1 = Some (r, s') \<and> expireCursor s' = 0"
  using assms
proof (induction "2 ^ k - revn k (unat (expireCursor s))" arbitrary: s rule: less_induct)
  case less
  obtain r s1 where s1: "activeExpireCycle ops t0 lim s = Some (r, s1)"
    using activeExpireCycle_correct [OF less.prems(2,3), of t0 lim] by blast
  note step = cycle_step [OF less.prems(2) s1 order_refl]
  show ?case
  proof (cases "expireCursor s1 = 0")
    case True
    then show ?thesis using less.prems(1) s1 by blast
  next
    case False
    have "Store_bucketCount s1 = 2 ^ k" using step(2) less.prems(3) by (simp add: reaps_def)
    moreover have "2 ^ k - revn k (unat (expireCursor s1)) < 2 ^ k - revn k (unat (expireCursor s))"
      using step(5) [OF less.prems(4,3) False] revn_less [of k "unat (expireCursor s1)"] by simp
    moreover have "sweep ops t0 s0 s1" by (rule sweep.cycle [OF less.prems(1) order_refl s1 False])
    ultimately show ?thesis using less.hyps step(1) less.prems(4) by blast
  qed
qed

end

lemma runCycles_append:
  "runCycles ops lim (as @ bs) s = runCycles ops lim as s \<bind> runCycles ops lim bs"
  by (induction as arbitrary: s) (auto split: Option.bind_splits)

end
