(* ===== verification/Dispatch.thy ===== *)
theory Dispatch
  imports Resp_Reply Store_Props
begin

text \<open>
  Command dispatch, \<open>core/command.cpp\<close>: the command table, argument parsing, and one definition
  per handler, each on the store and the output buffer.

  \<^item> \<open>None\<close> is an index outside \<open>argv\<close>, a failed assertion, signed overflow, or a failure of a store
    or buffer operation; the \<open>std::nullopt\<close> of \<open>parseInt\<close> and \<open>deadline\<close> is a \<open>None\<close> of their own.
  \<^item> Loops over arguments are \<open>setLoop\<close>, \<open>delLoop\<close>, \<open>existsLoop\<close> and \<open>unknownArgs\<close>.
  \<^item> \<open>std::from_chars\<close> is \<open>from_chars\<close>: an optional minus sign, then digits.
\<close>

section \<open>The command table\<close>

datatype Cmd =
    kGet | kSet | kDel | kExists | kExpire | kTtl | kPing | kEcho | kDbsize | kFlushall | kQuit

record Spec =
  specName :: string
  specCmd :: Cmd
  specArity :: int

definition kSpecs :: "Spec list" where
  "kSpecs =
     [\<lparr>specName = ''get'', specCmd = kGet, specArity = 2\<rparr>,
      \<lparr>specName = ''set'', specCmd = kSet, specArity = - 3\<rparr>,
      \<lparr>specName = ''del'', specCmd = kDel, specArity = - 2\<rparr>,
      \<lparr>specName = ''exists'', specCmd = kExists, specArity = - 2\<rparr>,
      \<lparr>specName = ''expire'', specCmd = kExpire, specArity = 3\<rparr>,
      \<lparr>specName = ''ttl'', specCmd = kTtl, specArity = 2\<rparr>,
      \<lparr>specName = ''ping'', specCmd = kPing, specArity = - 1\<rparr>,
      \<lparr>specName = ''echo'', specCmd = kEcho, specArity = 2\<rparr>,
      \<lparr>specName = ''dbsize'', specCmd = kDbsize, specArity = 1\<rparr>,
      \<lparr>specName = ''flushall'', specCmd = kFlushall, specArity = - 1\<rparr>,
      \<lparr>specName = ''quit'', specCmd = kQuit, specArity = - 1\<rparr>]"

datatype DispatchResult = kContinue | kCloseConnection

definition kMsPerSec :: int where
  "kMsPerSec = 1000"

abbreviation QUOTE :: char where
  "QUOTE \<equiv> CHR 0x27"

definition kNotInteger :: string where
  "kNotInteger = ''ERR value is not an integer or out of range''"

definition kSyntax :: string where
  "kSyntax = ''ERR syntax error''"

definition kOom :: string where
  "kOom = ''OOM command not allowed when used memory > '' @ [QUOTE] @ ''maxmemory'' @ [QUOTE] @ ''.''"

definition lower :: "char \<Rightarrow> char" where
  "lower c =
     (if (of_char c :: nat) \<ge> 65 \<and> (of_char c :: nat) \<le> 90 then char_of (of_char c - 65 + 97 :: nat) else c)"

text \<open>The loop compares position by position.\<close>

fun iequalsLoop :: "string \<Rightarrow> string \<Rightarrow> bool" where
  "iequalsLoop (c # s) (d # t) = (if lower c \<noteq> d then False else iequalsLoop s t)"
| "iequalsLoop _ _ = True"

definition iequals :: "string \<Rightarrow> string \<Rightarrow> bool" where
  "iequals s lowerRef = (if length s \<noteq> length lowerRef then False else iequalsLoop s lowerRef)"

definition lookup_cmd :: "string \<Rightarrow> Spec option" where
  "lookup_cmd name = find (\<lambda>sp. iequals name (specName sp)) kSpecs"

definition arityOk :: "Spec \<Rightarrow> nat \<Rightarrow> bool" where
  "arityOk sp n = (if specArity sp > 0 then int n = specArity sp else int n \<ge> - specArity sp)"

section \<open>Arguments\<close>

definition arg :: "Command \<Rightarrow> nat \<Rightarrow> string option" where
  "arg cmd i = (if i < length (argv cmd) then Some (argv cmd ! i) else None)"

text \<open>\<open>std::from_chars\<close> for \<open>int64_t\<close>: the value and the number of characters matched, or an error.\<close>

definition from_chars :: "string \<Rightarrow> (int \<times> nat) option" where
  "from_chars s =
     (let neg = (s \<noteq> [] \<and> hd s = CHR ''-'');
          ds = takeWhile digit_char (if neg then tl s else s);
          v = (if neg then - int (horner ds 0) else int (horner ds 0))
      in if ds = [] \<or> \<not> i64 v then None else Some (v, (if neg then 1 else 0) + length ds))"

definition parseInt :: "string \<Rightarrow> int option" where
  "parseInt s =
     (case from_chars s of
        None \<Rightarrow> None
      | Some (v, n) \<Rightarrow> if n \<noteq> length s \<or> s = [] then None else Some v)"

definition deadline :: "int \<Rightarrow> int \<Rightarrow> int \<Rightarrow> int option option" where
  "deadline n unitMs now =
     do { require (i64 (INT64_MAX - now));
          if n > (INT64_MAX - now) div unitMs then Some None
          else do { require (i64 (n * unitMs));
                    require (i64 (now + n * unitMs));
                    Some (Some (now + n * unitMs)) } }"

section \<open>Error replies\<close>

definition appendSanitized :: "string \<Rightarrow> string \<Rightarrow> string" where
  "appendSanitized dst s = dst @ map (\<lambda>c. if c = CR \<or> c = LF then CHR '' '' else c) (take 128 s)"

fun unknownArgs :: "Command \<Rightarrow> nat \<Rightarrow> nat \<Rightarrow> string \<Rightarrow> string option" where
  "unknownArgs cmd 0 i msg = Some msg"
| "unknownArgs cmd (Suc k) i msg =
     do { a \<leftarrow> arg cmd i;
          unknownArgs cmd k (i + 1) (appendSanitized (msg @ [QUOTE]) a @ [QUOTE] @ '' '') }"

definition unknownCommand :: "Command \<Rightarrow> Buffer \<Rightarrow> Buffer option" where
  "unknownCommand cmd out =
     do { a \<leftarrow> arg cmd 0;
          msg \<leftarrow> unknownArgs cmd (argc cmd - 1) 1
            (appendSanitized (''ERR unknown command '' @ [QUOTE]) a @ [QUOTE] @ '', with args beginning with: '');
          reply_error msg out }"

definition wrongArity :: "string \<Rightarrow> Buffer \<Rightarrow> Buffer option" where
  "wrongArity name out =
     reply_error (''ERR wrong number of arguments for '' @ [QUOTE] @ name @ [QUOTE] @ '' command'') out"

definition invalidExpire :: "string \<Rightarrow> Buffer \<Rightarrow> Buffer option" where
  "invalidExpire name out =
     reply_error (''ERR invalid expire time in '' @ [QUOTE] @ name @ [QUOTE] @ '' command'') out"

section \<open>Handlers\<close>

text \<open>The option loop of SET: \<open>Inl\<close> when a reply was written, else the deadline.\<close>

function setLoop :: "Command \<Rightarrow> int \<Rightarrow> nat \<Rightarrow> int \<Rightarrow> bool \<Rightarrow> Buffer \<Rightarrow> (Buffer + int) option" where
  "setLoop cmd now i expireAt haveExpiryOpt out =
     (if i < argc cmd
      then do { opt \<leftarrow> arg cmd i;
                if iequals opt ''keepttl'' \<and> \<not> haveExpiryOpt
                then setLoop cmd now (i + 1) kKeepTtl True out
                else let ex = iequals opt ''ex''
                     in if \<not> (ex \<or> iequals opt ''px'') \<or> haveExpiryOpt \<or> i + 1 \<ge> argc cmd
                        then do { out \<leftarrow> reply_error kSyntax out; Some (Inl out) }
                        else do { s \<leftarrow> arg cmd (i + 1);
                                  case parseInt s of
                                    None \<Rightarrow> do { out \<leftarrow> reply_error kNotInteger out; Some (Inl out) }
                                  | Some n \<Rightarrow>
                                      do { at \<leftarrow> (if n > 0 then deadline n (if ex then kMsPerSec else 1) now
                                                  else Some None);
                                           case at of
                                             None \<Rightarrow> do { out \<leftarrow> invalidExpire ''set'' out; Some (Inl out) }
                                           | Some t \<Rightarrow> setLoop cmd now (i + 2) t True out } } }
      else Some (Inr expireAt))"
  by auto
termination
  by (relation "measure (\<lambda>(cmd, now, i, e, h, out). argc cmd - i)") auto

declare setLoop.simps [simp del]

definition cmdSet :: "'p pool_ops \<Rightarrow> 'p Store \<Rightarrow> Command \<Rightarrow> int \<Rightarrow> Buffer \<Rightarrow> ('p Store \<times> Buffer) option" where
  "cmdSet ops store cmd now out =
     do { r \<leftarrow> setLoop cmd now 3 kNoExpiry False out;
          case r of
            Inl out \<Rightarrow> Some (store, out)
          | Inr expireAt \<Rightarrow>
              do { k \<leftarrow> arg cmd 1;
                   v \<leftarrow> arg cmd 2;
                   (ok, store) \<leftarrow> Store_set ops k v expireAt now store;
                   out \<leftarrow> (if \<not> ok then reply_error kOom out else reply_simpleString ''OK'' out);
                   Some (store, out) } }"

definition cmdExpire :: "'p pool_ops \<Rightarrow> 'p Store \<Rightarrow> Command \<Rightarrow> int \<Rightarrow> Buffer \<Rightarrow> ('p Store \<times> Buffer) option" where
  "cmdExpire ops store cmd now out =
     do { s \<leftarrow> arg cmd 2;
          case parseInt s of
            None \<Rightarrow> do { out \<leftarrow> reply_error kNotInteger out; Some (store, out) }
          | Some secs \<Rightarrow>
              do { k \<leftarrow> arg cmd 1;
                   if secs \<le> 0
                   then do { (b, store) \<leftarrow> Store_erase ops k now store;
                             out \<leftarrow> reply_integer (if b then 1 else 0) out;
                             Some (store, out) }
                   else do { at \<leftarrow> deadline secs kMsPerSec now;
                             case at of
                               None \<Rightarrow> do { out \<leftarrow> invalidExpire ''expire'' out; Some (store, out) }
                             | Some t \<Rightarrow>
                                 do { (b, store) \<leftarrow> Store_setExpireAt ops k t now store;
                                      out \<leftarrow> reply_integer (if b then 1 else 0) out;
                                      Some (store, out) } } } }"

definition cmdTtl :: "'p pool_ops \<Rightarrow> 'p Store \<Rightarrow> Command \<Rightarrow> int \<Rightarrow> Buffer \<Rightarrow> ('p Store \<times> Buffer) option" where
  "cmdTtl ops store cmd now out =
     do { k \<leftarrow> arg cmd 1;
          (ms, store) \<leftarrow> Store_ttlMs ops k now store;
          require (ms < 0 \<or> i64 (ms + kMsPerSec div 2));
          out \<leftarrow> reply_integer (if ms < 0 then ms else (ms + kMsPerSec div 2) div kMsPerSec) out;
          Some (store, out) }"

definition cmdGet :: "'p pool_ops \<Rightarrow> 'p Store \<Rightarrow> Command \<Rightarrow> int \<Rightarrow> Buffer \<Rightarrow> ('p Store \<times> Buffer) option" where
  "cmdGet ops store cmd now out =
     do { k \<leftarrow> arg cmd 1;
          (found, store) \<leftarrow> Store_find ops k now True store;
          case found of
            None \<Rightarrow> do { out \<leftarrow> reply_nullBulk out; Some (store, out) }
          | Some a \<Rightarrow>
              do { e \<leftarrow> slab (table store) a;
                   v \<leftarrow> Entry_value (chars (table store)) e;
                   out \<leftarrow> reply_bulk v out;
                   Some (store, out) } }"

fun delLoop :: "'p pool_ops \<Rightarrow> Command \<Rightarrow> int \<Rightarrow> nat \<Rightarrow> nat \<Rightarrow> int \<Rightarrow> 'p Store \<Rightarrow> (int \<times> 'p Store) option" where
  "delLoop ops cmd now 0 i n store = Some (n, store)"
| "delLoop ops cmd now (Suc k) i n store =
     do { key \<leftarrow> arg cmd i;
          (b, store) \<leftarrow> Store_erase ops key now store;
          delLoop ops cmd now k (i + 1) (n + (if b then 1 else 0)) store }"

definition cmdDel :: "'p pool_ops \<Rightarrow> 'p Store \<Rightarrow> Command \<Rightarrow> int \<Rightarrow> Buffer \<Rightarrow> ('p Store \<times> Buffer) option" where
  "cmdDel ops store cmd now out =
     do { (n, store) \<leftarrow> delLoop ops cmd now (argc cmd - 1) 1 0 store;
          out \<leftarrow> reply_integer n out;
          Some (store, out) }"

fun existsLoop :: "'p pool_ops \<Rightarrow> Command \<Rightarrow> int \<Rightarrow> nat \<Rightarrow> nat \<Rightarrow> int \<Rightarrow> 'p Store \<Rightarrow> (int \<times> 'p Store) option" where
  "existsLoop ops cmd now 0 i n store = Some (n, store)"
| "existsLoop ops cmd now (Suc k) i n store =
     do { key \<leftarrow> arg cmd i;
          (found, store) \<leftarrow> Store_find ops key now False store;
          existsLoop ops cmd now k (i + 1) (n + (if found \<noteq> None then 1 else 0)) store }"

definition cmdExists :: "'p pool_ops \<Rightarrow> 'p Store \<Rightarrow> Command \<Rightarrow> int \<Rightarrow> Buffer \<Rightarrow> ('p Store \<times> Buffer) option" where
  "cmdExists ops store cmd now out =
     do { (n, store) \<leftarrow> existsLoop ops cmd now (argc cmd - 1) 1 0 store;
          out \<leftarrow> reply_integer n out;
          Some (store, out) }"

definition cmdPing :: "Command \<Rightarrow> Buffer \<Rightarrow> Buffer option" where
  "cmdPing cmd out =
     (if argc cmd > 2 then wrongArity ''ping'' out
      else if argc cmd = 2 then do { a \<leftarrow> arg cmd 1; reply_bulk a out }
      else reply_simpleString ''PONG'' out)"

definition cmdFlushall :: "'p pool_ops \<Rightarrow> 'p Store \<Rightarrow> Command \<Rightarrow> Buffer \<Rightarrow> ('p Store \<times> Buffer) option" where
  "cmdFlushall ops store cmd out =
     do { bad \<leftarrow> (if argc cmd > 2 then Some True
            else if argc cmd = 2
            then do { a \<leftarrow> arg cmd 1; Some (\<not> iequals a ''async'' \<and> \<not> iequals a ''sync'') }
            else Some False);
          if bad then do { out \<leftarrow> reply_error kSyntax out; Some (store, out) }
          else do { store \<leftarrow> Store_clear ops store;
                    out \<leftarrow> reply_simpleString ''OK'' out;
                    Some (store, out) } }"

definition run_cmd :: "'p pool_ops \<Rightarrow> 'p Store \<Rightarrow> Command \<Rightarrow> int \<Rightarrow> Buffer \<Rightarrow> Cmd \<Rightarrow> ('p Store \<times> Buffer) option" where
  "run_cmd ops store cmd now out c =
     (case c of
        kGet \<Rightarrow> cmdGet ops store cmd now out
      | kSet \<Rightarrow> cmdSet ops store cmd now out
      | kDel \<Rightarrow> cmdDel ops store cmd now out
      | kExists \<Rightarrow> cmdExists ops store cmd now out
      | kExpire \<Rightarrow> cmdExpire ops store cmd now out
      | kTtl \<Rightarrow> cmdTtl ops store cmd now out
      | kPing \<Rightarrow> do { out \<leftarrow> cmdPing cmd out; Some (store, out) }
      | kEcho \<Rightarrow> do { a \<leftarrow> arg cmd 1; out \<leftarrow> reply_bulk a out; Some (store, out) }
      | kDbsize \<Rightarrow> do { out \<leftarrow> reply_integer (int (Store_size store)) out; Some (store, out) }
      | kFlushall \<Rightarrow> cmdFlushall ops store cmd out
      | kQuit \<Rightarrow> do { out \<leftarrow> reply_simpleString ''OK'' out; Some (store, out) })"

definition dispatch :: "'p pool_ops \<Rightarrow> 'p Store \<Rightarrow> Command \<Rightarrow> int \<Rightarrow> Buffer \<Rightarrow>
    (DispatchResult \<times> 'p Store \<times> Buffer) option" where
  "dispatch ops store cmd now out =
     (if argc cmd = 0 then Some (kContinue, store, out)
      else do { name \<leftarrow> arg cmd 0;
                case lookup_cmd name of
                  None \<Rightarrow> do { out \<leftarrow> unknownCommand cmd out; Some (kContinue, store, out) }
                | Some sp \<Rightarrow>
                    if \<not> arityOk sp (argc cmd)
                    then do { out \<leftarrow> wrongArity (specName sp) out; Some (kContinue, store, out) }
                    else do { (store, out) \<leftarrow> run_cmd ops store cmd now out (specCmd sp);
                              Some (if specCmd sp = kQuit then kCloseConnection else kContinue, store, out) } })"

end
