(* ===== verification/Dispatch_Spec.thy ===== *)
theory Dispatch_Spec
  imports Dispatch
begin

text \<open>
  What a command means. \<open>plan_of\<close> maps the arguments to the store operations a command performs and
  to its reply as a function of theirs; it has no buffers, indices or loops. \<open>dispatch\<close> carries out
  the plan of every parsed command: the store goes through exactly these operations and the bytes
  of exactly one reply are added to the output.
\<close>

section \<open>Plans\<close>

abbreviation sanitize :: "string \<Rightarrow> string" where
  "sanitize \<equiv> appendSanitized []"

definition quoted :: "string \<Rightarrow> string" where
  "quoted s = [QUOTE] @ s @ [QUOTE]"

definition unknown_text :: "string list \<Rightarrow> string" where
  "unknown_text args =
     ''ERR unknown command '' @ quoted (sanitize (hd args)) @ '', with args beginning with: '' @
     concat (map (\<lambda>a. quoted (sanitize a) @ '' '') (tl args))"

definition arity_text :: "string \<Rightarrow> string" where
  "arity_text name = ''ERR wrong number of arguments for '' @ quoted name @ '' command''"

definition expire_text :: "string \<Rightarrow> string" where
  "expire_text name = ''ERR invalid expire time in '' @ quoted name @ '' command''"

text \<open>The deadline after \<open>n\<close> units, if it is positive and representable.\<close>

definition deadline_after :: "int \<Rightarrow> int \<Rightarrow> int \<Rightarrow> int option" where
  "deadline_after now unitMs n = (if n > 0 \<and> now + n * unitMs \<le> INT64_MAX then Some (now + n * unitMs) else None)"

text \<open>The options of SET: an error message, or the deadline.\<close>

function set_options :: "int \<Rightarrow> string list \<Rightarrow> int \<Rightarrow> bool \<Rightarrow> string + int" where
  "set_options now [] d given = Inr d"
| "set_options now (opt # rest) d given =
     (if iequals opt ''keepttl'' \<and> \<not> given then set_options now rest kKeepTtl True
      else if \<not> (iequals opt ''ex'' \<or> iequals opt ''px'') \<or> given \<or> rest = [] then Inl kSyntax
      else (case parseInt (hd rest) of
              None \<Rightarrow> Inl kNotInteger
            | Some n \<Rightarrow>
                (case deadline_after now (if iequals opt ''ex'' then kMsPerSec else 1) n of
                   None \<Rightarrow> Inl (expire_text ''set'')
                 | Some t \<Rightarrow> set_options now (tl rest) t True)))"
  by pat_completeness auto
termination
  by (relation "measure (\<lambda>(now, opts, d, g). length opts)") auto

declare set_options.simps(2) [simp del]

type_synonym plan = "store_op list \<times> (nat \<Rightarrow> store_reply list \<Rightarrow> Reply)"

abbreviation say :: "Reply \<Rightarrow> plan" where
  "say r \<equiv> ([], \<lambda>_ _. r)"

definition flag :: "store_reply list \<Rightarrow> Reply" where
  "flag rs = Number (if rs = [RBool True] then 1 else 0)"

fun plan_cmd :: "int \<Rightarrow> string list \<Rightarrow> Cmd \<Rightarrow> plan" where
  "plan_cmd now args kGet =
     ([OpFind (args ! 1) True], \<lambda>_ rs. case rs of [RValue (Some v)] \<Rightarrow> Bulk v | _ \<Rightarrow> NullBulk)"
| "plan_cmd now args kSet =
     (case set_options now (drop 3 args) kNoExpiry False of
        Inl msg \<Rightarrow> say (Err msg)
      | Inr d \<Rightarrow>
          ([OpSet (args ! 1) (args ! 2) d], \<lambda>_ rs. if rs = [RBool True] then Simple ''OK'' else Err kOom))"
| "plan_cmd now args kDel =
     (map OpErase (tl args), \<lambda>_ rs. Number (int (length (filter (\<lambda>r. r = RBool True) rs))))"
| "plan_cmd now args kExists =
     (map (\<lambda>k. OpFind k False) (tl args), \<lambda>_ rs. Number (int (length (filter (\<lambda>r. r \<noteq> RValue None) rs))))"
| "plan_cmd now args kExpire =
     (case parseInt (args ! 2) of
        None \<Rightarrow> say (Err kNotInteger)
      | Some n \<Rightarrow>
          if n \<le> 0 then ([OpErase (args ! 1)], \<lambda>_. flag)
          else (case deadline_after now kMsPerSec n of
                  None \<Rightarrow> say (Err (expire_text ''expire''))
                | Some t \<Rightarrow> ([OpExpireAt (args ! 1) t], \<lambda>_. flag)))"
| "plan_cmd now args kTtl =
     ([OpTtl (args ! 1)], \<lambda>_ rs. case rs of [RInt ms] \<Rightarrow> Number (if ms < 0 then ms else (ms + 500) div 1000) | _ \<Rightarrow> NullBulk)"
| "plan_cmd now args kPing =
     say (if length args > 2 then Err (arity_text ''ping'')
          else if length args = 2 then Bulk (args ! 1) else Simple ''PONG'')"
| "plan_cmd now args kEcho = say (Bulk (args ! 1))"
| "plan_cmd now args kDbsize = ([], \<lambda>n _. Number (int n))"
| "plan_cmd now args kFlushall =
     (if length args > 2 \<or> (length args = 2 \<and> \<not> iequals (args ! 1) ''async'' \<and> \<not> iequals (args ! 1) ''sync'')
      then say (Err kSyntax) else ([OpClear], \<lambda>_ _. Simple ''OK''))"
| "plan_cmd now args kQuit = say (Simple ''OK'')"

definition plan_of :: "int \<Rightarrow> string list \<Rightarrow> plan" where
  "plan_of now args =
     (case lookup_cmd (hd args) of
        None \<Rightarrow> say (Err (unknown_text args))
      | Some sp \<Rightarrow>
          if arityOk sp (length args) then plan_cmd now args (specCmd sp)
          else say (Err (arity_text (specName sp))))"

definition closes :: "string list \<Rightarrow> bool" where
  "closes args \<longleftrightarrow> (\<exists>sp. lookup_cmd (hd args) = Some sp \<and> arityOk sp (length args) \<and> specCmd sp = kQuit)"

section \<open>Texts\<close>

lemma plain_append [simp]: "plain (s @ t) \<longleftrightarrow> plain s \<and> plain t"
  by (auto simp: plain_def)

lemma plain_Cons [simp]: "plain (c # s) \<longleftrightarrow> c \<noteq> CR \<and> c \<noteq> LF \<and> plain s"
  by (auto simp: plain_def)

lemma plain_Nil [simp]: "plain []"
  by (simp add: plain_def)

lemma plain_sanitize [simp]: "plain (sanitize s)"
  by (auto simp: plain_def appendSanitized_def split: if_splits)

lemma plain_concat: "\<forall>s \<in> set ss. plain s \<Longrightarrow> plain (concat ss)"
  by (induction ss) simp_all

lemma plain_quoted [simp]: "plain (quoted s) \<longleftrightarrow> plain s"
  by (simp add: quoted_def)

lemma plain_texts [simp]: "plain (unknown_text args)" "plain (expire_text name) \<longleftrightarrow> plain name"
  "plain (arity_text name) \<longleftrightarrow> plain name" "plain kSyntax" "plain kNotInteger" "plain kOom"
  by (simp_all add: unknown_text_def expire_text_def arity_text_def kSyntax_def kNotInteger_def kOom_def
      plain_concat)

lemma lookup_cmd_name: "lookup_cmd name = Some sp \<Longrightarrow> plain (specName sp)"
  by (auto simp: lookup_cmd_def kSpecs_def split: if_splits)

lemma appendSanitized_sanitize: "appendSanitized dst s = dst @ sanitize s"
  by (simp add: appendSanitized_def)

section \<open>Arguments\<close>

lemma command_of_simps [simp]: "argc (command_of args) = length args"
  by (simp add: command_of_def)

lemma arg_command_of: "i < length args \<Longrightarrow> arg (command_of args) i = Some (args ! i)"
  by (simp add: arg_def command_of_def nth_append)

lemma unknownArgs_text:
  "i + k = length args \<Longrightarrow>
     unknownArgs (command_of args) k i msg = Some (msg @ concat (map (\<lambda>a. quoted (sanitize a) @ '' '') (drop i args)))"
proof (induction k arbitrary: i msg)
  case (Suc k)
  then have i: "i < length args" by simp
  then show ?case
    using Suc.IH [of "i + 1"] Suc.prems
    by (simp add: arg_command_of appendSanitized_sanitize [of "msg @ [QUOTE]"] quoted_def flip: Cons_nth_drop_Suc)
qed simp

lemma int_div_less:
  fixes m n u :: int
  assumes "0 < u"
  shows "m div u < n \<longleftrightarrow> m < n * u"
proof
  assume "m div u < n"
  then have "(m div u + 1) * u \<le> n * u" using assms by (intro mult_right_mono) simp_all
  moreover have "m < (m div u + 1) * u"
    using pos_mod_bound [OF assms, of m] div_mult_mod_eq [of m u] unfolding distrib_right by linarith
  ultimately show "m < n * u" by simp
next
  assume "m < n * u"
  show "m div u < n"
  proof (rule ccontr)
    assume "\<not> m div u < n"
    then have "n * u \<le> m div u * u" using assms by (intro mult_right_mono) simp_all
    also have "\<dots> \<le> m" using pos_mod_sign [OF assms, of m] div_mult_mod_eq [of m u] by linarith
    finally show False using \<open>m < n * u\<close> by simp
  qed
qed

lemma deadline_spec:
  assumes "0 < n" "0 < unitMs" "0 \<le> now" "now \<le> INT64_MAX"
  shows "deadline n unitMs now = Some (deadline_after now unitMs n)"
proof -
  define p where "p = n * unitMs"
  have "0 < p" using assms by (simp add: p_def)
  then show ?thesis
    unfolding deadline_def deadline_after_def int_div_less [OF assms(2)] p_def [symmetric]
    using assms by (auto simp: i64_def require_def)
qed

lemma deadline_after_Some:
  "deadline_after now unitMs n = Some t \<Longrightarrow> 0 < unitMs \<Longrightarrow> 0 \<le> now \<Longrightarrow> now < t \<and> t \<le> INT64_MAX"
  by (auto simp: deadline_after_def split: if_splits)

section \<open>Replies\<close>

definition answers :: "Buffer \<Rightarrow> Reply \<Rightarrow> Buffer \<Rightarrow> bool" where
  "answers out r out' \<longleftrightarrow> encodable r \<and> Buffer_inv out' \<and> contents out' = contents out @ reply_bytes r"

lemma encode_answers:
  assumes "encodable r" "Buffer_inv out"
  shows "\<exists>out'. encode_reply r out = Some out' \<and> answers out r out'"
  using bytes.emitsD [OF encode_reply_emits [OF assms(1)] assms(2)] assms(1) by (metis answers_def)

text \<open>The same for each encoder by name.\<close>

lemmas reply_answers =
  encode_answers [of "Simple s" for s, unfolded encode_reply.simps encodable.simps]
  encode_answers [of "Err s" for s, unfolded encode_reply.simps encodable.simps]
  encode_answers [of "Number v" for v, unfolded encode_reply.simps encodable.simps]
  encode_answers [of "Bulk s" for s, unfolded encode_reply.simps encodable.simps]
  encode_answers [of NullBulk, unfolded encode_reply.simps encodable.simps, OF TrueI]

lemma unknownCommand_answers:
  assumes "args \<noteq> []" "Buffer_inv out"
  shows "\<exists>out'. unknownCommand (command_of args) out = Some out' \<and> answers out (Err (unknown_text args)) out'"
proof -
  obtain a as where args: "args = a # as" using assms(1) by (cases args) auto
  have "arg (command_of args) 0 = Some a" using args by (simp add: arg_command_of)
  moreover have "unknownArgs (command_of args) (argc (command_of args) - 1) 1 msg =
      Some (msg @ concat (map (\<lambda>a. quoted (sanitize a) @ '' '') as))" for msg
    using unknownArgs_text [of 1 "length args - 1" args msg] args by simp
  ultimately have "unknownCommand (command_of args) out = reply_error (unknown_text args) out"
    unfolding unknownCommand_def unknown_text_def appendSanitized_sanitize [of "_ @ _"]
    by (simp only: bind.simps args list.sel quoted_def [of "sanitize a"] append_assoc)
  then show ?thesis using reply_answers(2) [OF _ assms(2), of "unknown_text args"] by simp
qed

lemma wrongArity_answers:
  "plain name \<Longrightarrow> Buffer_inv out \<Longrightarrow> \<exists>out'. wrongArity name out = Some out' \<and> answers out (Err (arity_text name)) out'"
  using reply_answers(2) [of "arity_text name" out] by (simp add: wrongArity_def arity_text_def quoted_def)

lemma invalidExpire_answers:
  "plain name \<Longrightarrow> Buffer_inv out \<Longrightarrow> \<exists>out'. invalidExpire name out = Some out' \<and> answers out (Err (expire_text name)) out'"
  using reply_answers(2) [of "expire_text name" out] by (simp add: invalidExpire_def expire_text_def quoted_def)

section \<open>The options of SET\<close>

lemma deadline_if:
  assumes "0 < unitMs" "0 \<le> now" "now \<le> INT64_MAX"
  shows "(if n > 0 then deadline n unitMs now else Some None) = Some (deadline_after now unitMs n)"
  using deadline_spec [of n unitMs now] assms by (simp add: deadline_after_def)

text \<open>One round of the loop, read off the list of arguments.\<close>

lemma setLoop_round:
  assumes args: "opt # rest = drop i args" and now: "0 \<le> now" "now \<le> INT64_MAX"
  shows "setLoop (command_of args) now i d given out =
    (if iequals opt ''keepttl'' \<and> \<not> given then setLoop (command_of args) now (i + 1) kKeepTtl True out
     else if \<not> (iequals opt ''ex'' \<or> iequals opt ''px'') \<or> given \<or> rest = []
     then do { out \<leftarrow> reply_error kSyntax out; Some (Inl out) }
     else (case parseInt (hd rest) of
             None \<Rightarrow> do { out \<leftarrow> reply_error kNotInteger out; Some (Inl out) }
           | Some n \<Rightarrow>
               (case deadline_after now (if iequals opt ''ex'' then kMsPerSec else 1) n of
                  None \<Rightarrow> do { out \<leftarrow> invalidExpire ''set'' out; Some (Inl out) }
                | Some t \<Rightarrow> setLoop (command_of args) now (i + 2) t True out)))"
proof -
  have i: "i < length args" using args by (metis drop_eq_Nil leI list.distinct(1))
  then have opt: "args ! i = opt" "rest = drop (i + 1) args"
    using args by (simp_all flip: Cons_nth_drop_Suc)
  have stop: "i + 1 \<ge> length args \<longleftrightarrow> rest = []" by (simp add: opt(2))
  have arg1: "arg (command_of args) (i + 1) = Some (hd rest)" if "rest \<noteq> []"
    using that by (simp add: opt(2) arg_command_of hd_drop_conv_nth)
  have unitMs: "0 < (if iequals opt ''ex'' then kMsPerSec else 1)" by (simp add: kMsPerSec_def)
  show ?thesis
  proof (cases "rest = []")
    case True
    then show ?thesis
      using i opt(1) stop by (subst setLoop.simps) (simp add: arg_command_of Let_def)
  next
    case False
    then show ?thesis
      using i opt(1) stop
      by (subst setLoop.simps)
        (simp add: arg_command_of arg1 [OF False, simplified] deadline_if [OF unitMs now] Let_def cong: option.case_cong)
  qed
qed

lemma setLoop_spec:
  assumes "opts = drop i args" "0 \<le> now" "now \<le> INT64_MAX" "Buffer_inv out"
  shows "case set_options now opts d given of
      Inr t \<Rightarrow> setLoop (command_of args) now i d given out = Some (Inr t)
    | Inl msg \<Rightarrow> plain msg \<and>
        (\<exists>out'. setLoop (command_of args) now i d given out = Some (Inl out') \<and> answers out (Err msg) out')"
  using assms(1-3)
proof (induction now opts d given arbitrary: i rule: set_options.induct)
  case (1 now d given)
  then show ?case by (simp add: setLoop.simps)
next
  case (2 now opt rest d given)
  note code = setLoop_round [OF "2.prems"] and spec = set_options.simps(2) [of now opt rest d given]
  let ?after = "deadline_after now (if iequals opt ''ex'' then kMsPerSec else 1)"
  have tails: "rest = drop (i + 1) args" "rest \<noteq> [] \<Longrightarrow> tl rest = drop (i + 2) args"
    using "2.prems"(1) by (metis drop_Suc list.sel(3) tl_drop Suc_eq_plus1, metis add_2_eq_Suc' drop_Suc list.sel(3) tl_drop)
  consider (keep) "iequals opt ''keepttl'' \<and> \<not> given"
    | (bad) "\<not> (iequals opt ''keepttl'' \<and> \<not> given)" "\<not> (iequals opt ''ex'' \<or> iequals opt ''px'') \<or> given \<or> rest = []"
    | (int) "\<not> (iequals opt ''keepttl'' \<and> \<not> given)" "\<not> (\<not> (iequals opt ''ex'' \<or> iequals opt ''px'') \<or> given \<or> rest = [])"
        "parseInt (hd rest) = None"
    | (late) n where "\<not> (iequals opt ''keepttl'' \<and> \<not> given)" "\<not> (\<not> (iequals opt ''ex'' \<or> iequals opt ''px'') \<or> given \<or> rest = [])"
        "parseInt (hd rest) = Some n" "?after n = None"
    | (more) n t where "\<not> (iequals opt ''keepttl'' \<and> \<not> given)" "\<not> (\<not> (iequals opt ''ex'' \<or> iequals opt ''px'') \<or> given \<or> rest = [])"
        "parseInt (hd rest) = Some n" "?after n = Some t"
    by (metis not_None_eq)
  then show ?case
  proof cases
    case keep
    show ?thesis
      unfolding code spec if_P [OF keep] using "2.IH"(1) [OF keep tails(1) "2.prems"(2,3)] .
  next
    case bad
    then show ?thesis
      unfolding code spec using reply_answers(2) [of kSyntax out] assms(4) by auto
  next
    case int
    then show ?thesis
      unfolding code spec using reply_answers(2) [of kNotInteger out] assms(4) by auto
  next
    case late
    then show ?thesis
      unfolding code spec using invalidExpire_answers [of "''set''" out] assms(4) by auto
  next
    case more
    have "rest \<noteq> []" using more(2) by blast
    then show ?thesis
      unfolding code spec if_not_P [OF more(1)] if_not_P [OF more(2)] more(3,4) option.case
      using "2.IH"(2) [OF more tails(2) "2.prems"(2,3)] by blast
  qed
qed

lemma set_options_deadline:
  assumes "set_options now opts d given = Inr t" "i64 d" "0 \<le> now" "now \<le> INT64_MAX"
  shows "i64 t"
  using assms
proof (induction now opts d given rule: set_options.induct)
  case (2 now opt rest d given)
  have "i64 kKeepTtl" by (simp add: i64_def kKeepTtl_def)
  with 2 show ?case
    by (auto simp: set_options.simps(2) i64_def kMsPerSec_def deadline_after_def split: if_splits option.splits)
qed simp

end
