(* ===== verification/Dispatch_Refine.thy ===== *)
theory Dispatch_Refine
  imports Dispatch_Spec
begin

text \<open>
  Every handler carries out its plan: it goes through the store operations of the plan, in order,
  and adds the bytes of the plan's reply; it cannot fail. \<open>dispatch_plan\<close> puts the handlers together.
\<close>

section \<open>Plans carried out\<close>

definition carries_out :: "'p pool_ops \<Rightarrow> int \<Rightarrow> 'p Store \<Rightarrow> Buffer \<Rightarrow> plan \<Rightarrow> ('p Store \<times> Buffer) option \<Rightarrow> bool" where
  "carries_out ops now s out pl res \<longleftrightarrow>
     (\<exists>rs s' out'. res = Some (s', out') \<and>
        run_ops (store_step ops) (map (Pair now) (fst pl)) s = Some (rs, s') \<and>
        answers out (snd pl (Store_size s) rs) out')"

text \<open>The arguments a parsed command can have, and the clock.\<close>

definition args_ok :: "string list \<Rightarrow> bool" where
  "args_ok args \<longleftrightarrow> length args \<le> kMaxArgs \<and> (\<forall>a \<in> set args. length a \<le> unat kMaxBulkLength)"

definition clock_ok :: "int \<Rightarrow> bool" where
  "clock_ok now \<longleftrightarrow> 500 \<le> now \<and> now \<le> INT64_MAX"

lemma args_ok_length: "args_ok args \<Longrightarrow> i < length args \<Longrightarrow> length (args ! i) \<le> 67108864"
  using nth_mem [of i args] by (auto simp: args_ok_def kMaxBulkLength_def)

lemma carries_out_say:
  assumes "\<exists>out'. res = Some out' \<and> answers out r out'"
  shows "carries_out ops now s out (say r) (do { out \<leftarrow> res; Some (s, out) })"
  using assms by (auto simp: carries_out_def)

lemma carries_out_one:
  assumes "store_step ops (now, q) s = Some (r, s')" "answers out (f (Store_size s) [r]) out'"
  shows "carries_out ops now s out ([q], f) (Some (s', out'))"
  using assms by (simp add: carries_out_def)

lemma Entry_value_length: "Entry_value h e = Some v \<Longrightarrow> length v < 2 ^ 32"
proof -
  assume v: "Entry_value h e = Some v"
  then have "length v = unat (valLen e)"
    by (auto simp: Entry_value_def getBufData_def heap_read_def read_at_def bind_eq_Some_conv
        split: if_splits payload.splits)
  then show ?thesis using unsigned_less [of "valLen e"] by simp
qed

lemma lookup_cmd_mem: "lookup_cmd name = Some sp \<Longrightarrow> sp \<in> set kSpecs"
  by (auto simp: lookup_cmd_def find_Some_iff)

context entry_pool
begin

lemma cmdGet_plan:
  assumes s: "sinv s" and out: "Buffer_inv out" and args: "length args = 2"
  shows "carries_out ops now s out (plan_cmd now args kGet) (cmdGet ops s (command_of args) now out)"
proof -
  obtain r s' where step: "store_step ops (now, OpFind (args ! 1) True) s = Some (r, s')"
    using store_step_refines [OF s, of now "OpFind (args ! 1) True"] by auto
  then obtain found v where f: "Store_find ops (args ! 1) now True s = Some (found, s')"
      "read_value s' found = Some v" "r = RValue v"
    by (auto simp: bind_eq_Some_conv)
  have k: "arg (command_of args) 1 = Some (args ! 1)" using args by (simp add: arg_command_of)
  show ?thesis
  proof (cases found)
    case None
    then have "v = None" using f(2) by (simp add: read_value_def)
    then show ?thesis
      using reply_answers(5) [OF out] carries_out_one [OF step] k f None by (auto simp: cmdGet_def)
  next
    case (Some a)
    then obtain e x where e: "slab (table s') a = Some e" "Entry_value (chars (table s')) e = Some x" "v = Some x"
      using f(2) by (auto simp: read_value_def bind_eq_Some_conv)
    have "length x < 2 ^ 64" using Entry_value_length [OF e(2)] by simp
    then obtain out' where "reply_bulk x out = Some out'" "answers out (Bulk x) out'"
      using reply_answers(4) [OF _ out] by blast
    then show ?thesis
      using carries_out_one [OF step, of out "snd (plan_cmd now args kGet)" out'] k f e Some
      by (simp add: cmdGet_def)
  qed
qed

lemma cmdSet_plan:
  assumes s: "sinv s" and out: "Buffer_inv out" and args: "args_ok args" "3 \<le> length args" and now: "clock_ok now"
  shows "carries_out ops now s out (plan_cmd now args kSet) (cmdSet ops s (command_of args) now out)"
proof -
  have t: "0 \<le> now" "now \<le> INT64_MAX" using now by (simp_all add: clock_ok_def)
  note loop = setLoop_spec [of "drop 3 args" 3 args now out kNoExpiry False, OF refl t out]
  show ?thesis
  proof (cases "set_options now (drop 3 args) kNoExpiry False")
    case (Inl msg)
    then show ?thesis using loop by (auto simp: cmdSet_def carries_out_def)
  next
    case (Inr d)
    have "i64 d" using set_options_deadline [OF Inr _ t] by (simp add: i64_def kNoExpiry_def)
    moreover have "length (args ! 1) + length (args ! 2) < 2 ^ 32"
      using args_ok_length [OF args(1), of 1] args_ok_length [OF args(1), of 2] args(2) by simp
    ultimately obtain r s' where step: "store_step ops (now, OpSet (args ! 1) (args ! 2) d) s = Some (r, s')"
      using store_step_refines [OF s, of now "OpSet (args ! 1) (args ! 2) d"] by auto
    then obtain b where b: "Store_set ops (args ! 1) (args ! 2) d now s = Some (b, s')" "r = RBool b"
      by (auto simp: bind_eq_Some_conv)
    have k: "arg (command_of args) 1 = Some (args ! 1)" "arg (command_of args) 2 = Some (args ! 2)"
      using args(2) by (simp_all add: arg_command_of)
    have "setLoop (command_of args) now 3 kNoExpiry False out = Some (Inr d)" using loop Inr by simp
    moreover obtain out' where "(if \<not> b then reply_error kOom out else reply_simpleString ''OK'' out) = Some out'"
        "answers out (if b then Simple ''OK'' else Err kOom) out'"
      using reply_answers(2) [OF _ out, of kOom] reply_answers(1) [OF _ out, of "''OK''"] by (cases b) auto
    ultimately show ?thesis
      using carries_out_one [OF step, of out "snd (plan_cmd now args kSet)" out'] k b Inr
      by (simp add: cmdSet_def)
  qed
qed

lemma bool_step_plan:
  assumes step: "store_step ops (now, q) s = Some (RBool b, s')" and out: "Buffer_inv out"
  shows "carries_out ops now s out ([q], \<lambda>_. flag)
    (do { out \<leftarrow> reply_integer (if b then 1 else 0) out; Some (s', out) })"
proof -
  obtain out' where "reply_integer (if b then 1 else 0) out = Some out'" "answers out (flag [RBool b]) out'"
    using reply_answers(3) [OF _ out, of "if b then 1 else 0"] by (cases b) (auto simp: flag_def i64_def)
  then show ?thesis using carries_out_one [OF step, of out "\<lambda>_. flag" out'] by simp
qed

lemma erase_step:
  assumes "sinv s"
  obtains b s' where "Store_erase ops k now s = Some (b, s')" "store_step ops (now, OpErase k) s = Some (RBool b, s')" "sinv s'"
  using store_step_refines [OF assms, of now "OpErase k"] by (auto simp: bind_eq_Some_conv)

lemma find_step:
  assumes "sinv s"
  obtains found v s' where "Store_find ops k now False s = Some (found, s')"
    "store_step ops (now, OpFind k False) s = Some (RValue v, s')" "v = None \<longleftrightarrow> found = None" "sinv s'"
proof -
  obtain r s' where step: "store_step ops (now, OpFind k False) s = Some (r, s')" "sinv s'"
    using store_step_refines [OF assms, of now "OpFind k False"] by auto
  then obtain found v where f: "Store_find ops k now False s = Some (found, s')"
      "read_value s' found = Some v" "r = RValue v"
    by (auto simp: bind_eq_Some_conv)
  then have "v = None \<longleftrightarrow> found = None" by (auto simp: read_value_def bind_eq_Some_conv split: option.splits)
  then show thesis using that f(1) step unfolding f(3) by blast
qed

lemma cmdExpire_plan:
  assumes s: "sinv s" and out: "Buffer_inv out" and args: "length args = 3" and now: "clock_ok now"
  shows "carries_out ops now s out (plan_cmd now args kExpire) (cmdExpire ops s (command_of args) now out)"
proof -
  have t: "0 \<le> now" "now \<le> INT64_MAX" using now by (simp_all add: clock_ok_def)
  have k: "arg (command_of args) 1 = Some (args ! 1)" "arg (command_of args) 2 = Some (args ! 2)"
    using args by (simp_all add: arg_command_of)
  show ?thesis
  proof (cases "parseInt (args ! 2)")
    case None
    then show ?thesis
      using carries_out_say [OF reply_answers(2) [OF _ out, of kNotInteger]] k by (simp add: cmdExpire_def)
  next
    case (Some n)
    show ?thesis
    proof (cases "n \<le> 0")
      case True
      obtain b s' where b: "Store_erase ops (args ! 1) now s = Some (b, s')"
          "store_step ops (now, OpErase (args ! 1)) s = Some (RBool b, s')"
        using erase_step [OF s] by metis
      then show ?thesis
        using bool_step_plan [OF b(2) out] True Some k by (simp add: cmdExpire_def)
    next
      case False
      then have dl: "deadline n kMsPerSec now = Some (deadline_after now kMsPerSec n)"
        using deadline_spec [of n kMsPerSec now] t by (simp add: kMsPerSec_def)
      show ?thesis
      proof (cases "deadline_after now kMsPerSec n")
        case None
        then show ?thesis
          using carries_out_say [OF invalidExpire_answers [OF _ out, of "''expire''"]] False Some k dl
          by (simp add: cmdExpire_def)
      next
        case at: (Some d)
        then have "now < d" "d \<le> INT64_MAX" using deadline_after_Some [OF at] t by (simp_all add: kMsPerSec_def)
        then have "op_ok (now, OpExpireAt (args ! 1) d)"
          using t by (simp add: i64_def kKeepTtl_def kNoExpiry_def)
        then obtain b s' where b: "Store_setExpireAt ops (args ! 1) d now s = Some (b, s')"
            "store_step ops (now, OpExpireAt (args ! 1) d) s = Some (RBool b, s')"
          using store_step_refines [OF s, of now "OpExpireAt (args ! 1) d"] by (auto simp: bind_eq_Some_conv)
        then show ?thesis
          using bool_step_plan [OF b(2) out] False Some k dl at by (simp add: cmdExpire_def)
      qed
    qed
  qed
qed

lemma ttl_round:
  assumes s: "sinv s" and now: "clock_ok now" and r: "store_spec (now, OpTtl k) (store_abs s) (RInt ms) a"
  shows "i64 ms \<and> i64 (ms + 500)"
proof (cases "live_at now (store_map s) k")
  case None
  then show ?thesis using r by (simp add: store_spec_def i64_def)
next
  case (Some x)
  then obtain a where "store_view s a = Some x"
    using keymap_Some [OF sinv_view(1) [OF s]] by (auto simp: live_at_Some)
  then have "i64 (kvExp x)" by (rule sinvD(8) [OF s])
  moreover have "\<not> kv_expired x now" using Some by (simp add: live_at_Some)
  ultimately show ?thesis
    using r Some now by (auto simp: store_spec_def i64_def clock_ok_def kv_expired_def split: if_splits)
qed

lemma cmdTtl_plan:
  assumes s: "sinv s" and out: "Buffer_inv out" and args: "length args = 2" and now: "clock_ok now"
  shows "carries_out ops now s out (plan_cmd now args kTtl) (cmdTtl ops s (command_of args) now out)"
proof -
  have "op_ok (now, OpTtl (args ! 1))" using now by (simp add: clock_ok_def)
  then obtain r s' where step: "store_step ops (now, OpTtl (args ! 1)) s = Some (r, s')"
      "store_spec (now, OpTtl (args ! 1)) (store_abs s) r (store_abs s')"
    using store_step_refines [OF s] by blast
  then obtain ms where ms: "Store_ttlMs ops (args ! 1) now s = Some (ms, s')" "r = RInt ms"
    by (auto simp: bind_eq_Some_conv)
  have range: "i64 ms" "i64 (ms + 500)" using ttl_round [OF s now] step(2) ms(2) by blast+
  let ?v = "if ms < 0 then ms else (ms + 500) div 1000"
  have "(ms + 500) div 1000 \<le> ms + 500" "0 \<le> (ms + 500) div 1000" if "0 \<le> ms"
    using that by linarith+
  then have "i64 ?v" using range by (fastforce simp: i64_def)
  then obtain out' where out': "reply_integer ?v out = Some out'" "answers out (Number ?v) out'"
    using reply_answers(3) [OF _ out] by blast
  then have "cmdTtl ops s (command_of args) now out = Some (s', out')"
    using ms range args by (cases "ms < 0") (simp_all add: cmdTtl_def arg_command_of kMsPerSec_def require_def)
  then show ?thesis
    using carries_out_one [OF step(1), of out "snd (plan_cmd now args kTtl)" out'] ms(2) out'(2) by simp
qed

lemma delLoop_run:
  assumes "sinv s" "i + k = length args"
  shows "\<exists>rs s'. run_ops (store_step ops) (map (Pair now) (map OpErase (drop i args))) s = Some (rs, s') \<and>
    delLoop ops (command_of args) now k i n s =
      Some (n + int (length (filter (\<lambda>r. r = RBool True) rs)), s') \<and> length rs = k"
  using assms
proof (induction k arbitrary: i n s)
  case (Suc k)
  then have i: "i < length args" by simp
  obtain b s1 where b: "Store_erase ops (args ! i) now s = Some (b, s1)"
      "store_step ops (now, OpErase (args ! i)) s = Some (RBool b, s1)" "sinv s1"
    using erase_step [OF Suc.prems(1)] by metis
  obtain rs s' where "run_ops (store_step ops) (map (Pair now) (map OpErase (drop (i + 1) args))) s1 = Some (rs, s')"
      "delLoop ops (command_of args) now k (i + 1) (n + (if b then 1 else 0)) s1 =
        Some (n + (if b then 1 else 0) + int (length (filter (\<lambda>r. r = RBool True) rs)), s')" "length rs = k"
    using Suc.IH [OF b(3), of "i + 1" "n + (if b then 1 else 0)"] Suc.prems(2) by auto
  then show ?case
    using b i by (simp add: arg_command_of flip: Cons_nth_drop_Suc del: store_step.simps)
qed simp

lemma existsLoop_run:
  assumes "sinv s" "i + k = length args"
  shows "\<exists>rs s'. run_ops (store_step ops) (map (Pair now) (map (\<lambda>k. OpFind k False) (drop i args))) s = Some (rs, s') \<and>
    existsLoop ops (command_of args) now k i n s =
      Some (n + int (length (filter (\<lambda>r. r \<noteq> RValue None) rs)), s') \<and> length rs = k"
  using assms
proof (induction k arbitrary: i n s)
  case (Suc k)
  then have i: "i < length args" by simp
  obtain found v s1 where f: "Store_find ops (args ! i) now False s = Some (found, s1)"
      "store_step ops (now, OpFind (args ! i) False) s = Some (RValue v, s1)" "v = None \<longleftrightarrow> found = None" "sinv s1"
    using find_step [OF Suc.prems(1)] by metis
  obtain rs s' where "run_ops (store_step ops) (map (Pair now) (map (\<lambda>k. OpFind k False) (drop (i + 1) args))) s1 = Some (rs, s')"
      "existsLoop ops (command_of args) now k (i + 1) (n + (if found \<noteq> None then 1 else 0)) s1 =
        Some (n + (if found \<noteq> None then 1 else 0) + int (length (filter (\<lambda>r. r \<noteq> RValue None) rs)), s')" "length rs = k"
    using Suc.IH [OF f(4), of "i + 1" "n + (if found \<noteq> None then 1 else 0)"] Suc.prems(2) by auto
  then show ?case
    using f i by (simp add: arg_command_of flip: Cons_nth_drop_Suc del: store_step.simps)
qed simp

lemma count_answers:
  assumes "length rs \<le> kMaxArgs" "Buffer_inv out"
  shows "\<exists>out'. reply_integer (int (length (filter P rs))) out = Some out' \<and>
    answers out (Number (int (length (filter P rs)))) out'"
proof -
  have "length (filter P rs) \<le> 16" 
    using le_trans [OF length_filter_le assms(1)] by (simp add: kMaxArgs_def)
  then show ?thesis by (intro reply_answers(3) assms(2)) (simp add: i64_def)
qed

lemma cmdDel_plan:
  assumes s: "sinv s" and out: "Buffer_inv out" and args: "args_ok args" "1 \<le> length args"
  shows "carries_out ops now s out (plan_cmd now args kDel) (cmdDel ops s (command_of args) now out)"
proof -
  have all: "1 + (length args - 1) = length args" using args(2) by simp
  obtain rs s' where run: "run_ops (store_step ops) (map (Pair now) (map OpErase (tl args))) s = Some (rs, s')"
      "delLoop ops (command_of args) now (length args - 1) 1 0 s =
        Some (int (length (filter (\<lambda>r. r = RBool True) rs)), s')" "length rs = length args - 1"
    using delLoop_run [OF s all, of now 0] by (auto simp: drop_Suc)
  then have few: "length rs \<le> kMaxArgs" using args(1) unfolding args_ok_def by linarith
  obtain out' where "reply_integer (int (length (filter (\<lambda>r. r = RBool True) rs))) out = Some out'"
      "answers out (Number (int (length (filter (\<lambda>r. r = RBool True) rs)))) out'"
    using count_answers [OF few out, of "\<lambda>r. r = RBool True"] by blast
  then show ?thesis using run by (simp add: cmdDel_def carries_out_def)
qed

lemma cmdExists_plan:
  assumes s: "sinv s" and out: "Buffer_inv out" and args: "args_ok args" "1 \<le> length args"
  shows "carries_out ops now s out (plan_cmd now args kExists) (cmdExists ops s (command_of args) now out)"
proof -
  have all: "1 + (length args - 1) = length args" using args(2) by simp
  obtain rs s' where run: "run_ops (store_step ops) (map (Pair now) (map (\<lambda>k. OpFind k False) (tl args))) s = Some (rs, s')"
      "existsLoop ops (command_of args) now (length args - 1) 1 0 s =
        Some (int (length (filter (\<lambda>r. r \<noteq> RValue None) rs)), s')" "length rs = length args - 1"
    using existsLoop_run [OF s all, of now 0] by (auto simp: drop_Suc)
  then have few: "length rs \<le> kMaxArgs" using args(1) unfolding args_ok_def by linarith
  obtain out' where "reply_integer (int (length (filter (\<lambda>r. r \<noteq> RValue None) rs))) out = Some out'"
      "answers out (Number (int (length (filter (\<lambda>r. r \<noteq> RValue None) rs)))) out'"
    using count_answers [OF few out, of "\<lambda>r. r \<noteq> RValue None"] by blast
  then show ?thesis using run by (simp add: cmdExists_def carries_out_def)
qed

lemma cmdFlushall_plan:
  assumes s: "sinv s" and out: "Buffer_inv out"
  shows "carries_out ops now s out (plan_cmd now args kFlushall) (cmdFlushall ops s (command_of args) out)"
proof -
  define bad where "bad \<longleftrightarrow> length args > 2 \<or>
    (length args = 2 \<and> \<not> iequals (args ! 1) ''async'' \<and> \<not> iequals (args ! 1) ''sync'')"
  have code: "cmdFlushall ops s (command_of args) out =
      (if bad then do { out \<leftarrow> reply_error kSyntax out; Some (s, out) }
       else do { s \<leftarrow> Store_clear ops s; out \<leftarrow> reply_simpleString ''OK'' out; Some (s, out) })"
    by (auto simp: cmdFlushall_def bad_def arg_command_of)
  show ?thesis
  proof (cases bad)
    case True
    then show ?thesis
      using carries_out_say [OF reply_answers(2) [OF _ out, of kSyntax]] code by (simp add: bad_def)
  next
    case False
    obtain r s' where step: "store_step ops (now, OpClear) s = Some (r, s')"
      using store_step_refines [OF s, of now OpClear] by auto
    obtain out' where "reply_simpleString ''OK'' out = Some out'" "answers out (Simple ''OK'') out'"
      using reply_answers(1) [OF _ out, of "''OK''"] by auto
    then show ?thesis
      using False carries_out_one [OF step, of out "\<lambda>_ _. Simple ''OK''" out'] step code
      by (auto simp: bad_def bind_eq_Some_conv)
  qed
qed

lemma run_cmd_plan:
  assumes s: "sinv s" and out: "Buffer_inv out" and args: "args_ok args" and now: "clock_ok now"
    and sp: "sp \<in> set kSpecs" "arityOk sp (length args)"
  shows "carries_out ops now s out (plan_cmd now args (specCmd sp)) (run_cmd ops s (command_of args) now out (specCmd sp))"
proof -
  have bulk: "\<exists>out'. reply_bulk (args ! 1) out = Some out' \<and> answers out (Bulk (args ! 1)) out'" if "1 < length args"
    using args_ok_length [OF args that] by (intro reply_answers(4) out) simp
  have arity: "specCmd sp \<in> {kGet, kTtl, kEcho} \<Longrightarrow> length args = 2" "specCmd sp = kSet \<Longrightarrow> 3 \<le> length args"
      "specCmd sp \<in> {kDel, kExists} \<Longrightarrow> 1 \<le> length args" "specCmd sp = kExpire \<Longrightarrow> length args = 3"
    using sp by (auto simp: kSpecs_def arityOk_def)
  show ?thesis
  proof (cases "specCmd sp")
    case kPing
    have "\<exists>out'. cmdPing (command_of args) out = Some out' \<and>
        answers out (if length args > 2 then Err (arity_text ''ping'')
          else if length args = 2 then Bulk (args ! 1) else Simple ''PONG'') out'"
      using wrongArity_answers [OF _ out, of "''ping''"] bulk reply_answers(1) [OF _ out, of "''PONG''"]
      by (auto simp: cmdPing_def arg_command_of)
    from carries_out_say [OF this] show ?thesis
      unfolding kPing run_cmd_def plan_cmd.simps Cmd.case .
  next
    case kEcho
    then show ?thesis
      using carries_out_say [OF bulk] arity(1) by (simp add: run_cmd_def arg_command_of)
  next
    case kDbsize
    have "Store_size s \<le> kPoolCapacity" using sinvD(2,4) [OF s] by simp
    then have "i64 (int (Store_size s))" by (simp add: i64_def kPoolCapacity_def)
    from reply_answers(3) [OF this out] show ?thesis
      by (auto simp: kDbsize run_cmd_def carries_out_def)
  next
    case kQuit
    then show ?thesis
      using carries_out_say [OF reply_answers(1) [OF _ out, of "''OK''"]] by (simp add: run_cmd_def)
  qed (use cmdGet_plan [OF s out] cmdSet_plan [OF s out args _ now] cmdDel_plan [OF s out args]
        cmdExists_plan [OF s out args] cmdExpire_plan [OF s out _ now] cmdTtl_plan [OF s out _ now]
        cmdFlushall_plan [OF s out] arity in \<open>simp_all add: run_cmd_def del: plan_cmd.simps\<close>)
qed

lemma dispatch_plan:
  assumes s: "sinv s" and out: "Buffer_inv out" and args: "args_ok args" "args \<noteq> []" and now: "clock_ok now"
  shows "\<exists>res s' out'. dispatch ops s (command_of args) now out = Some (res, s', out') \<and>
    (res = kCloseConnection \<longleftrightarrow> closes args) \<and> carries_out ops now s out (plan_of now args) (Some (s', out'))"
proof -
  have name: "arg (command_of args) 0 = Some (hd args)" using args(2) by (simp add: arg_command_of hd_conv_nth)
  show ?thesis
  proof (cases "lookup_cmd (hd args)")
    case None
    then show ?thesis
      using unknownCommand_answers [OF args(2) out] name args(2)
      by (auto simp: dispatch_def plan_of_def closes_def carries_out_def)
  next
    case (Some sp)
    show ?thesis
    proof (cases "arityOk sp (length args)")
      case True
      from run_cmd_plan [OF s out args(1) now lookup_cmd_mem [OF Some] True]
      obtain s' out' where "run_cmd ops s (command_of args) now out (specCmd sp) = Some (s', out')"
          "carries_out ops now s out (plan_cmd now args (specCmd sp)) (Some (s', out'))"
        by (auto simp: carries_out_def)
      then show ?thesis using Some True name args(2) by (simp add: dispatch_def plan_of_def closes_def)
    next
      case False
      then show ?thesis
        using wrongArity_answers [OF lookup_cmd_name [OF Some] out] Some name args(2)
        by (auto simp: dispatch_def plan_of_def closes_def carries_out_def)
    qed
  qed
qed

lemma plan_ops_ok:
  assumes args: "args_ok args" "args \<noteq> []" and now: "clock_ok now"
  shows "\<forall>q \<in> set (map (Pair now) (fst (plan_of now args))). op_ok q"
proof -
  have t: "0 \<le> now" "now \<le> INT64_MAX" using now by (simp_all add: clock_ok_def)
  have set_ok: "length (args ! 1) + length (args ! 2) < 2 ^ 32" if "3 \<le> length args"
    using args_ok_length [OF args(1), of 1] args_ok_length [OF args(1), of 2] that by simp
  have set_dl: "i64 d" if "set_options now (drop 3 args) kNoExpiry False = Inr d" for d
    using set_options_deadline [OF that _ t] by (simp add: i64_def kNoExpiry_def)
  have exp_ok: "i64 d \<and> d \<noteq> kKeepTtl \<and> d \<noteq> kNoExpiry" if "deadline_after now kMsPerSec n = Some d" for n d
    using deadline_after_Some [OF that] t by (simp add: i64_def kMsPerSec_def kKeepTtl_def kNoExpiry_def)
  have "\<forall>q \<in> set (fst (plan_cmd now args (specCmd sp))). op_ok (now, q)"
    if "sp \<in> set kSpecs" "arityOk sp (length args)" for sp
  proof -
    have "3 \<le> length args" if "specCmd sp = kSet" using \<open>sp \<in> _\<close> \<open>arityOk sp _\<close> that by (auto simp: kSpecs_def arityOk_def)
    then show ?thesis
      using set_ok set_dl exp_ok t by (cases "specCmd sp") (auto split: sum.splits option.splits)
  qed
  then show ?thesis by (auto simp: plan_of_def dest: lookup_cmd_mem split: option.splits)
qed

end

end
