(* ===== verification/Dispatch_Props.thy ===== *)
theory Dispatch_Props
  imports Dispatch_Refine
begin

text \<open>
  The properties of command dispatch: every parsed command is carried out as its plan says and
  answered once; names are matched without regard to case; integers and deadlines are exact; what
  SET stores GET returns, and TTL counts down.
\<close>

section \<open>Commands\<close>

context entry_pool
begin

lemma dispatch_run:
  assumes s: "sinv s" and out: "Buffer_inv out" and args: "args_ok args" "args \<noteq> []" and now: "clock_ok now"
  shows "\<exists>res s' out' rs. dispatch ops s (command_of args) now out = Some (res, s', out') \<and> sinv s' \<and>
    run_ops (store_step ops) (map (Pair now) (fst (plan_of now args))) s = Some (rs, s') \<and>
    spec_run store_spec (map (Pair now) (fst (plan_of now args))) (store_abs s) rs (store_abs s') \<and>
    answers out (snd (plan_of now args) (Store_size s) rs) out' \<and> (res = kCloseConnection \<longleftrightarrow> closes args)"
proof -
  obtain res s' out' where d: "dispatch ops s (command_of args) now out = Some (res, s', out')"
      "res = kCloseConnection \<longleftrightarrow> closes args" "carries_out ops now s out (plan_of now args) (Some (s', out'))"
    using dispatch_plan [OF assms] by blast
  from store_runs [OF s plan_ops_ok [OF args now]] d show ?thesis
    by (auto simp: carries_out_def)
qed

end

text \<open>C6: dispatch carries out the plan of every command a client can send. For any arguments the
  parser can produce it returns, no assertion fails and nothing overflows; the store goes through
  exactly the operations of the plan, which refine the map specification and keep the invariant;
  exactly one reply is appended, the one the plan computes from their results, and it is well
  formed; the connection is asked to close exactly for QUIT.\<close>

theorem dispatch_refines_plan:
  assumes "entry_pool ops live pool_inv" "Store_inv live pool_inv s" "Buffer_inv out"
    and "args_ok args" "args \<noteq> []" "clock_ok now"
  shows "\<exists>res s' out' rs. dispatch ops s (command_of args) now out = Some (res, s', out') \<and>
    Store_inv live pool_inv s' \<and>
    run_ops (store_step ops) (map (Pair now) (fst (plan_of now args))) s = Some (rs, s') \<and>
    spec_run store_spec (map (Pair now) (fst (plan_of now args))) (store_abs s) rs (store_abs s') \<and>
    answers out (snd (plan_of now args) (Store_size s) rs) out' \<and> (res = kCloseConnection \<longleftrightarrow> closes args)"
  using entry_pool.dispatch_run [OF assms] .

theorem dispatch_refines_plan_witness:
  "\<exists>s res s' out'. Store_init freelist_init 1 2 Config_default = Some s \<and>
     dispatch freelist_ops s (command_of [''NOPE'', CRLF]) 1000 (Buffer_init 8) = Some (res, s', out') \<and>
     Buffer_inv out'"
proof -
  obtain s where s: "Store_init freelist_init 1 2 Config_default = Some s" "Store_inv freelist_live freelist_inv s"
    using fresh_store by blast
  have "args_ok [''NOPE'', CRLF]" by (simp add: args_ok_def kMaxArgs_def kMaxBulkLength_def)
  moreover have "clock_ok 1000" by (simp add: clock_ok_def)
  ultimately show ?thesis
    using dispatch_refines_plan [OF freelist.entry_pool_axioms s(2), of "Buffer_init 8" "[''NOPE'', CRLF]" 1000] s(1)
    by (auto simp: answers_def)
qed

text \<open>The rounding of TTL leaves the 64-bit range when less than 500 ms are missing to its end; the
  hypothesis on the clock excludes such remaining times.\<close>

lemma ttl_rounding_overflows:
  "arg cmd 1 = Some k \<Longrightarrow> Store_ttlMs ops k now s = Some (ms, s') \<Longrightarrow> INT64_MAX - 500 < ms \<Longrightarrow> cmdTtl ops s cmd now out = None"
  by (simp add: cmdTtl_def i64_def require_def kMsPerSec_def)

section \<open>Names\<close>

lemma iequalsLoop_lower: "length s = length t \<Longrightarrow> iequalsLoop s t \<longleftrightarrow> map lower s = t"
  by (induction s t rule: list_induct2) auto

lemma iequals_lower: "iequals s t \<longleftrightarrow> map lower s = t"
  by (auto simp: iequals_def iequalsLoop_lower)

lemma kSpecs_distinct: "distinct (map specName kSpecs)"
  by (simp add: kSpecs_def)

lemma find_distinct:
  assumes "distinct (map f xs)"
  shows "find (\<lambda>x. k = f x) xs = Some x \<longleftrightarrow> x \<in> set xs \<and> k = f x"
  using assms by (induction xs) auto

lemma lookup_cmd_iff: "lookup_cmd name = Some sp \<longleftrightarrow> sp \<in> set kSpecs \<and> map lower name = specName sp"
  using find_distinct [OF kSpecs_distinct, of "map lower name" sp] by (simp add: lookup_cmd_def iequals_lower)

text \<open>Command names match without regard to ASCII case and in no other way: a name is found
  exactly when its lower-case form is a name of the table.\<close>

theorem lookup_ignores_case: "lookup_cmd name = Some sp \<longleftrightarrow> sp \<in> set kSpecs \<and> map lower name = specName sp"
  by (rule lookup_cmd_iff)

section \<open>Numbers\<close>

lemma takeWhile_digits: "takeWhile digit_char (dec n) = dec n"
  using dec_digits by (simp add: takeWhile_eq_all_conv)

lemma parseInt_dec_int:
  assumes "i64 v"
  shows "parseInt (dec_int v) = Some v"
proof (cases "v < 0")
  case True
  then show ?thesis
    using assms by (simp add: parseInt_def from_chars_def dec_int_def Let_def takeWhile_digits)
next
  case False
  obtain c cs where d: "dec (nat v) = c # cs" by (metis dec_nonempty neq_Nil_conv)
  then have "c \<noteq> CHR ''-''" using dec_minus by metis
  then have "\<not> (dec (nat v) \<noteq> [] \<and> hd (dec (nat v)) = CHR ''-'')" by (simp add: d)
  then have "from_chars (dec (nat v)) = Some (v, length (dec (nat v)))"
    using assms False unfolding from_chars_def Let_def by (simp add: takeWhile_digits)
  then show ?thesis using False by (simp add: parseInt_def dec_int_def)
qed



text \<open>C36: deadlines are exact up to the last representable millisecond. For a positive count and
  unit the computation never overflows, and it refuses exactly the deadlines past \<open>INT64_MAX\<close>.\<close>

theorem deadline_exact:
  assumes "0 < n" "0 < unitMs" "0 \<le> now" "now \<le> INT64_MAX"
  shows "deadline n unitMs now =
    Some (if now + n * unitMs \<le> INT64_MAX then Some (now + n * unitMs) else None)"
  using deadline_spec [OF assms] assms(1) by (simp add: deadline_after_def)

theorem deadline_exact_witness:
  "deadline 9223372036854775 1000 807 = Some (Some INT64_MAX) \<and> deadline 9223372036854775 1000 808 = Some None"
  using deadline_exact [of 9223372036854775 1000 807] deadline_exact [of 9223372036854775 1000 808] by simp

section \<open>SET, GET and TTL\<close>

lemma set_spec_stores:
  assumes "set_spec c n pl key val d now m True m'" "\<not> past_deadline d now" "d \<noteq> kKeepTtl"
  shows "m' key = Some (new_kv key val d now)"
  using assms by (auto simp: set_spec_def Let_def split: option.splits if_splits)

lemma reply_bytes_OK: "reply_bytes (if b then Simple ''OK'' else Err kOom) = reply_bytes (Simple ''OK'') \<longleftrightarrow> b"
  by (cases b) simp_all

lemma lookup_names:
  "lookup_cmd ''SET'' = Some \<lparr>specName = ''set'', specCmd = kSet, specArity = - 3\<rparr>"
  "lookup_cmd ''GET'' = Some \<lparr>specName = ''get'', specCmd = kGet, specArity = 2\<rparr>"
  "lookup_cmd ''TTL'' = Some \<lparr>specName = ''ttl'', specCmd = kTtl, specArity = 2\<rparr>"
proof -
  have "map lower ''SET'' = ''set''" "map lower ''GET'' = ''get''" "map lower ''TTL'' = ''ttl''" by code_simp+
  then show "lookup_cmd ''SET'' = Some \<lparr>specName = ''set'', specCmd = kSet, specArity = - 3\<rparr>"
    "lookup_cmd ''GET'' = Some \<lparr>specName = ''get'', specCmd = kGet, specArity = 2\<rparr>"
    "lookup_cmd ''TTL'' = Some \<lparr>specName = ''ttl'', specCmd = kTtl, specArity = 2\<rparr>"
    unfolding lookup_cmd_iff by (simp_all add: kSpecs_def)
qed

lemma answers_same: "answers out r out' \<Longrightarrow> contents out' = contents out @ reply_bytes r' \<Longrightarrow> reply_bytes r = reply_bytes r'"
  by (simp add: answers_def)

context entry_pool
begin

text \<open>After a SET that was accepted, the key has the value and the deadline of its options.\<close>

lemma set_accepted:
  assumes s: "sinv s" and out: "Buffer_inv out" and now: "clock_ok now"
    and args: "args_ok (''SET'' # k # v # opts)" "set_options now opts kNoExpiry False = Inr d"
    and d: "\<not> past_deadline d now" "d \<noteq> kKeepTtl"
    and ok: "dispatch ops s (command_of (''SET'' # k # v # opts)) now out = Some (res, s1, out1)"
      "contents out1 = contents out @ reply_bytes (Simple ''OK'')"
  shows "sinv s1 \<and> Buffer_inv out1 \<and> store_map s1 k = Some (new_kv k v d now)"
proof -
  have plan: "plan_of now (''SET'' # k # v # opts) =
      ([OpSet k v d], \<lambda>_ rs. if rs = [RBool True] then Simple ''OK'' else Err kOom)"
    using args(2) by (simp add: plan_of_def lookup_names arityOk_def numeral_3_eq_3 numeral_2_eq_2)
  obtain rs where rs: "sinv s1" "spec_run store_spec [(now, OpSet k v d)] (store_abs s) rs (store_abs s1)"
      "answers out (if rs = [RBool True] then Simple ''OK'' else Err kOom) out1"
    using dispatch_run [OF s out args(1) _ now] ok(1) by (auto simp: plan)
  have "rs = [RBool True]" using answers_same [OF rs(3) ok(2)] by (simp only: reply_bytes_OK)
  with rs(2) have "set_spec (maxKeys s) (unat (lruSamples s)) (policy s) k v d now (store_map s) True (store_map s1)"
    by (auto elim!: spec_run_ConsE spec_run_NilE simp: store_spec_def)
  from set_spec_stores [OF this d] show ?thesis using rs(1,3) by (simp add: answers_def)
qed

lemma get_found:
  assumes s: "sinv s" and out: "Buffer_inv out" and now: "clock_ok now" and k: "length k \<le> unat kMaxBulkLength"
    and x: "store_map s k = Some x" "\<not> kv_expired x now"
  shows "\<exists>s' out'. dispatch ops s (command_of [''GET'', k]) now out = Some (kContinue, s', out') \<and>
    contents out' = contents out @ reply_bytes (Bulk (kvVal x))"
proof -
  have args: "args_ok [''GET'', k]" using k by (simp add: args_ok_def kMaxArgs_def kMaxBulkLength_def)
  have plan: "plan_of now [''GET'', k] =
      ([OpFind k True], \<lambda>_ rs. case rs of [RValue (Some v)] \<Rightarrow> Bulk v | _ \<Rightarrow> NullBulk)"
    by (simp add: plan_of_def lookup_names arityOk_def)
  obtain res s' out' rs where r: "dispatch ops s (command_of [''GET'', k]) now out = Some (res, s', out')"
      "spec_run store_spec [(now, OpFind k True)] (store_abs s) rs (store_abs s')"
      "answers out (case rs of [RValue (Some v)] \<Rightarrow> Bulk v | _ \<Rightarrow> NullBulk) out'"
      "res = kCloseConnection \<longleftrightarrow> closes [''GET'', k]"
    using dispatch_run [OF s out args _ now] by (auto simp: plan)
  have "rs = [RValue (Some (kvVal x))]"
    using r(2) x by (auto elim!: spec_run_ConsE spec_run_NilE simp: store_spec_def live_at_def)
  moreover have "res = kContinue" using r(4) by (cases res) (simp_all add: closes_def lookup_names)
  ultimately show ?thesis using r(1,3) by (simp add: answers_def)
qed

lemma ttl_found:
  assumes s: "sinv s" and out: "Buffer_inv out" and now: "clock_ok now" and k: "length k \<le> unat kMaxBulkLength"
    and x: "store_map s k = Some x" "\<not> kv_expired x now" "kvExp x \<noteq> kNoExpiry"
  shows "\<exists>s' out'. dispatch ops s (command_of [''TTL'', k]) now out = Some (kContinue, s', out') \<and>
    contents out' = contents out @ reply_bytes (Number ((kvExp x - now + 500) div 1000))"
proof -
  have args: "args_ok [''TTL'', k]" using k by (simp add: args_ok_def kMaxArgs_def kMaxBulkLength_def)
  have plan: "plan_of now [''TTL'', k] = ([OpTtl k],
      \<lambda>_ rs. case rs of [RInt ms] \<Rightarrow> Number (if ms < 0 then ms else (ms + 500) div 1000) | _ \<Rightarrow> NullBulk)"
    by (simp add: plan_of_def lookup_names arityOk_def)
  obtain res s' out' rs where r: "dispatch ops s (command_of [''TTL'', k]) now out = Some (res, s', out')"
      "spec_run store_spec [(now, OpTtl k)] (store_abs s) rs (store_abs s')"
      "answers out (case rs of [RInt ms] \<Rightarrow> Number (if ms < 0 then ms else (ms + 500) div 1000) | _ \<Rightarrow> NullBulk) out'"
      "res = kCloseConnection \<longleftrightarrow> closes [''TTL'', k]"
    using dispatch_run [OF s out args _ now] by (auto simp: plan)
  have "rs = [RInt (kvExp x - now)]"
    using r(2) x by (auto elim!: spec_run_ConsE spec_run_NilE simp: store_spec_def live_at_def)
  moreover have "\<not> kvExp x - now < 0" using x by (simp add: kv_expired_def)
  moreover have "res = kContinue" using r(4) by (cases res) (simp_all add: closes_def lookup_names)
  ultimately show ?thesis using r(1,3) by (simp add: answers_def)
qed

end

text \<open>An accepted SET on a fresh store, for the examples.\<close>

lemma fresh_set:
  assumes "args_ok (''SET'' # k # v # opts)" "set_options now opts kNoExpiry False = Inr d" "\<not> past_deadline d now" "clock_ok now"
  shows "\<exists>s res s1 out1. Store_inv freelist_live freelist_inv s \<and>
    dispatch freelist_ops s (command_of (''SET'' # k # v # opts)) now (Buffer_init 8) = Some (res, s1, out1) \<and>
    contents out1 = contents (Buffer_init 8) @ reply_bytes (Simple ''OK'')"
proof -
  obtain s where s: "Store_inv freelist_live freelist_inv s" "store_map s = Map.empty" "maxKeys s = kPoolCapacity"
    using fresh_store by blast
  have plan: "plan_of now (''SET'' # k # v # opts) =
      ([OpSet k v d], \<lambda>_ rs. if rs = [RBool True] then Simple ''OK'' else Err kOom)"
    using assms(2) by (simp add: plan_of_def lookup_names arityOk_def numeral_3_eq_3 numeral_2_eq_2)
  obtain res s1 out1 rs where r:
      "dispatch freelist_ops s (command_of (''SET'' # k # v # opts)) now (Buffer_init 8) = Some (res, s1, out1)"
      "spec_run store_spec [(now, OpSet k v d)] (store_abs s) rs (store_abs s1)"
      "answers (Buffer_init 8) (if rs = [RBool True] then Simple ''OK'' else Err kOom) out1"
    using freelist.dispatch_run [OF s(1) Buffer_init_inv(1) [of 8] assms(1) _ assms(4)] by (auto simp: plan)
  have "rs = [RBool True]"
    using r(2) s(2,3) assms(3) by (auto elim!: spec_run_ConsE spec_run_NilE
      simp: store_spec_def store_abs_def set_spec_def live_at_def kPoolCapacity_def)
  then show ?thesis using s(1) r(1,3) by (auto simp: answers_def)
qed

text \<open>C31: what SET stores, GET returns. After a plain SET that was answered with OK, a GET of the
  same key at any later (or earlier) time is answered with exactly the stored bytes.\<close>

theorem set_then_get:
  assumes "entry_pool ops live pool_inv" "Store_inv live pool_inv s" "Buffer_inv out" "clock_ok now" "clock_ok t"
    and "args_ok [''SET'', k, v]"
    and "dispatch ops s (command_of [''SET'', k, v]) now out = Some (res, s1, out1)"
    and "contents out1 = contents out @ reply_bytes (Simple ''OK'')"
  shows "\<exists>s2 out2. dispatch ops s1 (command_of [''GET'', k]) t out1 = Some (kContinue, s2, out2) \<and>
    contents out2 = contents out1 @ reply_bytes (Bulk v)"
proof -
  have "Store_inv live pool_inv s1 \<and> Buffer_inv out1 \<and> store_map s1 k = Some (new_kv k v kNoExpiry now)"
    using entry_pool.set_accepted [OF assms(1-4,6) _ _ _ assms(7,8), of kNoExpiry]
    by (simp add: past_deadline_def kKeepTtl_def kNoExpiry_def)
  moreover have "length k \<le> unat kMaxBulkLength" using assms(6) by (simp add: args_ok_def)
  moreover have "\<not> kv_expired (new_kv k v kNoExpiry now) t" "kvVal (new_kv k v kNoExpiry now) = v"
    by (simp_all add: kv_expired_def new_kv_def)
  ultimately show ?thesis
    using entry_pool.get_found [OF assms(1) _ _ assms(5), of s1 out1 k "new_kv k v kNoExpiry now"] by metis
qed

theorem set_then_get_witness:
  "\<exists>s res s1 out1 s2 out2.
     dispatch freelist_ops s (command_of [''SET'', ''k'', CRLF]) 1000 (Buffer_init 8) = Some (res, s1, out1) \<and>
     dispatch freelist_ops s1 (command_of [''GET'', ''k'']) 9000 out1 = Some (kContinue, s2, out2) \<and>
     contents out2 = contents out1 @ reply_bytes (Bulk CRLF)"
proof -
  have args: "args_ok [''SET'', ''k'', CRLF]" by (simp add: args_ok_def kMaxArgs_def kMaxBulkLength_def)
  have t: "clock_ok 1000" "clock_ok 9000" by (simp_all add: clock_ok_def)
  obtain s res s1 out1 where s: "Store_inv freelist_live freelist_inv s"
      "dispatch freelist_ops s (command_of [''SET'', ''k'', CRLF]) 1000 (Buffer_init 8) = Some (res, s1, out1)"
      "contents out1 = contents (Buffer_init 8) @ reply_bytes (Simple ''OK'')"
    using fresh_set [OF args, of 1000 kNoExpiry] t(1) by (auto simp: past_deadline_def)
  from set_then_get [OF freelist.entry_pool_axioms s(1) Buffer_init_inv(1) [of 8] t args s(2,3)] s(2)
  show ?thesis by blast
qed

text \<open>C32: TTL counts down. After SET with EX \<open>n\<close> answered with OK, TTL at any time up to the deadline
  is answered with the remaining time rounded to seconds; at once that is \<open>n\<close>.\<close>

theorem ttl_counts_down:
  assumes "entry_pool ops live pool_inv" "Store_inv live pool_inv s" "Buffer_inv out" "clock_ok now" "clock_ok t"
    and "args_ok [''SET'', k, v, ''EX'', dec_int n]" "0 < n" "now + n * 1000 \<le> INT64_MAX"
    and "t \<le> now + n * 1000"
    and "dispatch ops s (command_of [''SET'', k, v, ''EX'', dec_int n]) now out = Some (res, s1, out1)"
    and "contents out1 = contents out @ reply_bytes (Simple ''OK'')"
  shows "\<exists>s2 out2. dispatch ops s1 (command_of [''TTL'', k]) t out1 = Some (kContinue, s2, out2) \<and>
    contents out2 = contents out1 @ reply_bytes (Number ((now + n * 1000 - t + 500) div 1000))"
proof -
  let ?d = "now + n * 1000" let ?x = "new_kv k v ?d now"
  have now: "500 \<le> now" using assms(4) by (simp add: clock_ok_def)
  have "i64 n" using assms(7,8) now by (simp add: i64_def)
  moreover have "map lower ''EX'' = ''ex''" by code_simp
  ultimately have opts: "set_options now [''EX'', dec_int n] kNoExpiry False = Inr ?d"
    using assms(7,8) by (simp add: set_options.simps(2) iequals_lower parseInt_dec_int deadline_after_def kMsPerSec_def)
  have d: "\<not> past_deadline ?d now" "?d \<noteq> kKeepTtl" "?d \<noteq> kNoExpiry"
    using assms(7) now by (simp_all add: past_deadline_def kKeepTtl_def kNoExpiry_def)
  have "Store_inv live pool_inv s1 \<and> Buffer_inv out1 \<and> store_map s1 k = Some ?x"
    by (rule entry_pool.set_accepted [OF assms(1-4,6) opts d(1,2) assms(10,11)])
  moreover have "length k \<le> unat kMaxBulkLength" using assms(6) by (simp add: args_ok_def)
  moreover have "\<not> kv_expired ?x t" "kvExp ?x = ?d"
    using assms(9) by (simp_all add: kv_expired_def new_kv_def)
  ultimately show ?thesis
    using entry_pool.ttl_found [OF assms(1) _ _ assms(5), of s1 out1 k ?x] d(3) by metis
qed

theorem ttl_counts_down_witness:
  "\<exists>s res s1 out1 s2 out2.
     dispatch freelist_ops s (command_of [''SET'', ''k'', ''v'', ''EX'', dec_int 10]) 1000 (Buffer_init 8) = Some (res, s1, out1) \<and>
     dispatch freelist_ops s1 (command_of [''TTL'', ''k'']) 4400 out1 = Some (kContinue, s2, out2) \<and>
     contents out2 = contents out1 @ reply_bytes (Number 7)"
proof -
  have "length (dec_int 10) \<le> 24" by (rule dec_int_length) simp
  then have args: "args_ok [''SET'', ''k'', ''v'', ''EX'', dec_int 10]"
    by (simp add: args_ok_def kMaxArgs_def kMaxBulkLength_def)
  have t: "clock_ok 1000" "clock_ok 4400" by (simp_all add: clock_ok_def)
  have "map lower ''EX'' = ''ex''" by code_simp
  then have "set_options 1000 [''EX'', dec_int 10] kNoExpiry False = Inr 11000"
    by (simp add: set_options.simps(2) iequals_lower parseInt_dec_int i64_def deadline_after_def kMsPerSec_def)
  then obtain s res s1 out1 where s: "Store_inv freelist_live freelist_inv s"
      "dispatch freelist_ops s (command_of [''SET'', ''k'', ''v'', ''EX'', dec_int 10]) 1000 (Buffer_init 8) = Some (res, s1, out1)"
      "contents out1 = contents (Buffer_init 8) @ reply_bytes (Simple ''OK'')"
    using fresh_set [OF args _ _ t(1)] by (auto simp: past_deadline_def)
  have "\<exists>s2 out2. dispatch freelist_ops s1 (command_of [''TTL'', ''k'']) 4400 out1 = Some (kContinue, s2, out2) \<and>
      contents out2 = contents out1 @ reply_bytes (Number ((1000 + 10 * 1000 - 4400 + 500) div 1000))"
    by (rule ttl_counts_down [OF freelist.entry_pool_axioms s(1) Buffer_init_inv(1) [of 8] t args _ _ _ s(2,3)]) simp_all
  moreover have "(1000 + 10 * 1000 - 4400 + 500) div 1000 = (7 :: int)" by simp
  ultimately show ?thesis using s(2) by metis
qed

end
