(* ===== verification/Kernel.thy ===== *)
theory Kernel
  imports Prelude
begin

text \<open>
  The operating system as the network code sees it. The kernel is not part of the sources: its
  calls are the fields of \<open>sys_ops\<close>, a parameter of every definition that makes one, on a state
  \<open>'w\<close> that is opaque to the program. The locale \<open>kernel\<close> states the documented behaviour the
  program relies on, over what is observable of that state: the open descriptors, the interest
  list of the process's epoll instance, the bytes read from and accepted for sending on each
  descriptor since it was accepted, and the number of interruptions and queued connections still to be reported.
\<close>

section \<open>Calls\<close>

type_synonym u16 = "16 word"

datatype errno =
    EAGAIN | EINTR | ECONNABORTED | EPERM | EPROTO | ENOPROTOOPT | ENETDOWN | ENETUNREACH | ENONET
  | EHOSTDOWN | EHOSTUNREACH | EOPNOTSUPP | ETIMEDOUT | EMFILE | ENFILE | EBADF | ENOTSOCK | EINVAL
  | EFAULT | ENOENT | EOTHER nat

text \<open>What \<open>event.data.ptr\<close> points to: the acceptor, or a connection object.\<close>

datatype handler = HAcceptor | HConn nat

datatype ctl = CTL_ADD u32 handler | CTL_MOD u32 handler | CTL_DEL

abbreviation EPOLLIN :: u32 where "EPOLLIN \<equiv> 1"
abbreviation EPOLLOUT :: u32 where "EPOLLOUT \<equiv> 4"
abbreviation EPOLLERR :: u32 where "EPOLLERR \<equiv> 8"
abbreviation EPOLLHUP :: u32 where "EPOLLHUP \<equiv> 16"

text \<open>A failing call gives \<open>Inl errno\<close>. Calls that only succeed or fail give \<open>errno option\<close>.\<close>

record 'w sys_ops =
  sys_read :: "int \<Rightarrow> nat \<Rightarrow> 'w \<Rightarrow> (errno + string) \<times> 'w"
  sys_write :: "int \<Rightarrow> string \<Rightarrow> 'w \<Rightarrow> (errno + nat) \<times> 'w"
  sys_accept4 :: "int \<Rightarrow> 'w \<Rightarrow> (errno + int) \<times> 'w"
  sys_close :: "int \<Rightarrow> 'w \<Rightarrow> 'w"
  sys_open_null :: "'w \<Rightarrow> (errno + int) \<times> 'w"
  sys_nodelay :: "int \<Rightarrow> 'w \<Rightarrow> errno option \<times> 'w"
  sys_epoll_ctl :: "int \<Rightarrow> int \<Rightarrow> ctl \<Rightarrow> 'w \<Rightarrow> errno option \<times> 'w"
  sys_epoll_wait :: "int \<Rightarrow> nat \<Rightarrow> int \<Rightarrow> 'w \<Rightarrow> (errno + (u32 \<times> handler) list) \<times> 'w"
  sys_now :: "'w \<Rightarrow> int \<times> 'w"
  sys_epoll_create1 :: "'w \<Rightarrow> (errno + int) \<times> 'w"
  sys_socket :: "'w \<Rightarrow> (errno + int) \<times> 'w"
  sys_reuseaddr :: "int \<Rightarrow> 'w \<Rightarrow> errno option \<times> 'w"
  sys_bind :: "int \<Rightarrow> u32 \<Rightarrow> u16 \<Rightarrow> 'w \<Rightarrow> errno option \<times> 'w"
  sys_listen :: "int \<Rightarrow> int \<Rightarrow> 'w \<Rightarrow> errno option \<times> 'w"
  sys_inet_pton :: "string \<Rightarrow> u32 option"

section \<open>Documented behaviour\<close>

text \<open>The errors after which \<open>accept4\<close> has taken the connection off the queue, or was interrupted.\<close>

definition transient :: "errno set" where
  "transient = {EINTR, ECONNABORTED, EPERM, EPROTO, ENOPROTOOPT, ENETDOWN, ENETUNREACH, ENONET,
     EHOSTDOWN, EHOSTUNREACH, EOPNOTSUPP, ETIMEDOUT}"

text \<open>The errors of a descriptor that is no listening socket.\<close>

definition misuse :: "errno set" where
  "misuse = {EBADF, ENOTSOCK, EINVAL, EFAULT}"

text \<open>What an open descriptor refers to.\<close>

datatype fd_kind = KEpoll | KSocket | KListener | KStream | KNull

text \<open>A call that opens a descriptor of kind \<open>k\<close> uses a number that is free and not on the interest
  list; one that fails opens nothing.\<close>

definition opens :: "('w \<Rightarrow> int \<rightharpoonup> fd_kind) \<Rightarrow> ('w \<Rightarrow> int \<rightharpoonup> u32 \<times> handler) \<Rightarrow> fd_kind \<Rightarrow>
    'w \<Rightarrow> (errno + int) \<times> 'w \<Rightarrow> bool" where
  "opens fds watched k w res \<longleftrightarrow>
     watched (snd res) = watched w \<and>
     (case fst res of
        Inr n \<Rightarrow> n \<noteq> - 1 \<and> fds w n = None \<and> watched w n = None \<and> fds (snd res) = (fds w)(n \<mapsto> k)
      | Inl e \<Rightarrow> fds (snd res) = fds w)"

text \<open>No byte was read or sent.\<close>

definition quiet :: "('w \<Rightarrow> int \<Rightarrow> string) \<Rightarrow> ('w \<Rightarrow> int \<Rightarrow> string) \<Rightarrow> 'w \<Rightarrow> 'w \<Rightarrow> bool" where
  "quiet taken sent w w' \<longleftrightarrow> taken w' = taken w \<and> sent w' = sent w"

locale kernel =
  fixes sys :: "'w sys_ops"
    and fds :: "'w \<Rightarrow> int \<rightharpoonup> fd_kind"
    and watched :: "'w \<Rightarrow> int \<rightharpoonup> u32 \<times> handler"
    and taken :: "'w \<Rightarrow> int \<Rightarrow> string"
    and sent :: "'w \<Rightarrow> int \<Rightarrow> string"
    and pending :: "'w \<Rightarrow> nat"
  assumes read_ok: "fds w fd = Some KStream \<Longrightarrow> sys_read sys fd n w = (rd, w') \<Longrightarrow>
      fds w' = fds w \<and> watched w' = watched w \<and> sent w' = sent w \<and> pending w' \<le> pending w \<and>
      (case rd of Inr bs \<Rightarrow> length bs \<le> n \<and> taken w' = (taken w)(fd := taken w fd @ bs) | Inl e \<Rightarrow> taken w' = taken w)"
    and write_ok: "fds w fd = Some KStream \<Longrightarrow> sys_write sys fd v w = (wr, w') \<Longrightarrow>
      fds w' = fds w \<and> watched w' = watched w \<and> taken w' = taken w \<and> pending w' \<le> pending w \<and>
      (case wr of Inr k \<Rightarrow> k \<le> length v \<and> sent w' = (sent w)(fd := sent w fd @ take k v)
       | Inl e \<Rightarrow> sent w' = sent w \<and> (e = EINTR \<longrightarrow> pending w' < pending w))"
    and accept4_ok: "fds w fd = Some KListener \<Longrightarrow> sys_accept4 sys fd w = ac \<Longrightarrow>
      opens fds watched KStream w ac \<and> pending (snd ac) \<le> pending w \<and>
      (case fst ac of
         Inr n \<Rightarrow> pending (snd ac) < pending w \<and> taken (snd ac) = (taken w)(n := []) \<and> sent (snd ac) = (sent w)(n := [])
       | Inl e \<Rightarrow> quiet taken sent w (snd ac) \<and> e \<notin> misuse \<and> (e \<in> transient \<longrightarrow> pending (snd ac) < pending w))"
    and close_ok: "fds w fd \<noteq> None \<Longrightarrow> sys_close sys fd w = w' \<Longrightarrow>
      fds w' = (fds w)(fd := None) \<and> watched w' = (watched w)(fd := None) \<and> quiet taken sent w w' \<and> pending w' \<le> pending w"
    and open_null_ok: "sys_open_null sys w = ac \<Longrightarrow>
      opens fds watched KNull w ac \<and> quiet taken sent w (snd ac) \<and> pending (snd ac) \<le> pending w"
    and nodelay_ok: "fds w fd = Some KStream \<Longrightarrow> sys_nodelay sys fd w = (nd, w') \<Longrightarrow>
      fds w' = fds w \<and> watched w' = watched w \<and> quiet taken sent w w' \<and> pending w' \<le> pending w"
    and ctl_add_ok: "fds w ep = Some KEpoll \<Longrightarrow> fds w fd \<noteq> None \<Longrightarrow> watched w fd = None \<Longrightarrow>
      sys_epoll_ctl sys ep fd (CTL_ADD ev h) w = (nd, w') \<Longrightarrow>
      fds w' = fds w \<and> quiet taken sent w w' \<and> pending w' \<le> pending w \<and>
      (case nd of None \<Rightarrow> watched w' = (watched w)(fd \<mapsto> (ev, h)) | Some e \<Rightarrow> watched w' = watched w)"
    and ctl_mod_ok: "fds w ep = Some KEpoll \<Longrightarrow> watched w fd \<noteq> None \<Longrightarrow>
      sys_epoll_ctl sys ep fd (CTL_MOD ev h) w = (nd, w') \<Longrightarrow>
      fds w' = fds w \<and> quiet taken sent w w' \<and> pending w' \<le> pending w \<and>
      (case nd of None \<Rightarrow> watched w' = (watched w)(fd \<mapsto> (ev, h))
       | Some e \<Rightarrow> watched w' = watched w \<and> e \<noteq> ENOENT \<and> e \<noteq> EBADF)"
    and ctl_del_ok: "fds w ep = Some KEpoll \<Longrightarrow> watched w fd \<noteq> None \<Longrightarrow> sys_epoll_ctl sys ep fd CTL_DEL w = (nd, w') \<Longrightarrow>
      nd = None \<and> fds w' = fds w \<and> watched w' = (watched w)(fd := None) \<and> quiet taken sent w w' \<and> pending w' \<le> pending w"
    and epoll_wait_ok: "fds w ep = Some KEpoll \<Longrightarrow> sys_epoll_wait sys ep n t w = (ew, w') \<Longrightarrow>
      fds w' = fds w \<and> watched w' = watched w \<and> quiet taken sent w w' \<and>
      (\<forall>evs. ew = Inr evs \<longrightarrow> length evs \<le> n \<and> (\<forall>ev h. (ev, h) \<in> set evs \<longrightarrow> (\<exists>fd ev0. watched w fd = Some (ev0, h))))"
    and now_ok: "sys_now sys w = (t, w') \<Longrightarrow>
      fds w' = fds w \<and> watched w' = watched w \<and> quiet taken sent w w' \<and> pending w' \<le> pending w \<and> 500 \<le> t \<and> t \<le> INT64_MAX"
    and epoll_create1_ok: "sys_epoll_create1 sys w = ac \<Longrightarrow> opens fds watched KEpoll w ac"
    and socket_ok: "sys_socket sys w = ac \<Longrightarrow> opens fds watched KSocket w ac"
    and setup_ok: "fds w fd = Some KSocket \<Longrightarrow>
      sys_reuseaddr sys fd w = (nd, w') \<or> sys_bind sys fd addr port w = (nd, w') \<Longrightarrow>
      fds w' = fds w \<and> watched w' = watched w"
    and listen_ok: "fds w fd = Some KSocket \<Longrightarrow> sys_listen sys fd len w = (nd, w') \<Longrightarrow>
      watched w' = watched w \<and> fds w' = (if nd = None then (fds w)(fd \<mapsto> KListener) else fds w)"
begin

lemma opensE:
  assumes "opens fds watched k w (r, w')"
  obtains (failed) e where "r = Inl e" "fds w' = fds w" "watched w' = watched w"
    | (opened) n where "r = Inr n" "n \<noteq> - 1" "fds w n = None" "watched w n = None" "watched w' = watched w"
        "fds w' = (fds w)(n \<mapsto> k)"
  using assms by (cases r) (auto simp: opens_def)

end

end
