(* ===== verification/Unique_Fd.thy ===== *)
theory Unique_Fd
  imports Kernel "HOL-Library.Multiset"
begin

text \<open>
  \<open>net/unique_fd.cpp\<close>: sole ownership of a file descriptor. The member functions, and the theorem
  that a program which moves, resets and destroys such owners closes every descriptor it was given
  at most once and never loses one.
\<close>

section \<open>Definitions\<close>

record UniqueFd =
  ufd :: int

definition UniqueFd_make :: "int \<Rightarrow> UniqueFd" where
  "UniqueFd_make n = \<lparr>ufd = n\<rparr>"

definition UniqueFd_get :: "UniqueFd \<Rightarrow> int" where
  "UniqueFd_get u = ufd u"

definition UniqueFd_bool :: "UniqueFd \<Rightarrow> bool" where
  "UniqueFd_bool u \<longleftrightarrow> ufd u \<noteq> - 1"

definition UniqueFd_release :: "UniqueFd \<Rightarrow> int \<times> UniqueFd" where
  "UniqueFd_release u = (ufd u, u\<lparr>ufd := - 1\<rparr>)"

definition UniqueFd_reset :: "'w sys_ops \<Rightarrow> int \<Rightarrow> UniqueFd \<Rightarrow> 'w \<Rightarrow> UniqueFd \<times> 'w" where
  "UniqueFd_reset sys newFd u w =
     (if newFd = ufd u then (u, w)
      else let w = (if ufd u \<noteq> - 1 then sys_close sys (ufd u) w else w)
           in (u\<lparr>ufd := newFd\<rparr>, w))"

definition UniqueFd_dtor :: "'w sys_ops \<Rightarrow> UniqueFd \<Rightarrow> 'w \<Rightarrow> 'w" where
  "UniqueFd_dtor sys u w = (if ufd u = - 1 then w else sys_close sys (ufd u) w)"

text \<open>The move constructor, and move assignment from another owner; both leave the source empty.\<close>

definition UniqueFd_move :: "UniqueFd \<Rightarrow> UniqueFd \<times> UniqueFd" where
  "UniqueFd_move other = (let (n, other) = UniqueFd_release other in (UniqueFd_make n, other))"

definition UniqueFd_assign :: "'w sys_ops \<Rightarrow> UniqueFd \<Rightarrow> UniqueFd \<Rightarrow> 'w \<Rightarrow> (UniqueFd \<times> UniqueFd) \<times> 'w" where
  "UniqueFd_assign sys u other w =
     (let (n, other) = UniqueFd_release other; (u, w) = UniqueFd_reset sys n u w in ((u, other), w))"

section \<open>Ownership\<close>

text \<open>
  Programs over a list of owners: take a new descriptor into a new owner or by \<open>reset\<close>, move-construct,
  move-assign (also from itself), \<open>reset()\<close>, destroy. The two objects of an assignment may be the
  same, so it is written on the list.
\<close>

datatype fd_op = FdNew int | FdMove nat | FdAssign nat nat | FdReset nat int | FdDestroy nat

fun fd_step :: "'w sys_ops \<Rightarrow> fd_op \<Rightarrow> UniqueFd list \<times> 'w \<Rightarrow> (UniqueFd list \<times> 'w) option" where
  "fd_step sys (FdNew n) (us, w) = Some (us @ [UniqueFd_make n], w)"
| "fd_step sys (FdMove i) (us, w) =
     do { require (i < length us);
          let (v, u) = UniqueFd_move (us ! i);
          Some (us[i := u] @ [v], w) }"
| "fd_step sys (FdAssign i j) (us, w) =
     do { require (i < length us \<and> j < length us);
          let (n, u) = UniqueFd_release (us ! j);
          let us = us[j := u];
          let (u, w) = UniqueFd_reset sys n (us ! i) w;
          Some (us[i := u], w) }"
| "fd_step sys (FdReset i n) (us, w) =
     do { require (i < length us);
          let (u, w) = UniqueFd_reset sys n (us ! i) w;
          Some (us[i := u], w) }"
| "fd_step sys (FdDestroy i) (us, w) =
     do { require (i < length us);
          Some (take i us @ drop (Suc i) us, UniqueFd_dtor sys (us ! i) w) }"

fun fd_run :: "'w sys_ops \<Rightarrow> fd_op list \<Rightarrow> UniqueFd list \<times> 'w \<Rightarrow> (UniqueFd list \<times> 'w) option" where
  "fd_run sys [] st = Some st"
| "fd_run sys (p # ps) st = do { st \<leftarrow> fd_step sys p st; fd_run sys ps st }"

fun acquired :: "fd_op \<Rightarrow> int list" where
  "acquired (FdNew n) = [n]"
| "acquired (FdReset i n) = (if n = - 1 then [] else [n])"
| "acquired _ = []"

text \<open>The descriptors held.\<close>

definition hold :: "int \<Rightarrow> int multiset" where
  "hold n = (if n = - 1 then {#} else {#n#})"

definition held :: "UniqueFd list \<Rightarrow> int multiset" where
  "held us = (\<Sum>u \<in># mset us. hold (ufd u))"

lemma held_simps [simp]: "held [] = {#}" "held (u # us) = hold (ufd u) + held us" "held (us @ vs) = held us + held vs"
  by (simp_all add: held_def)

lemma held_upd: "i < length us \<Longrightarrow> held (us[i := u]) + hold (ufd (us ! i)) = held us + hold (ufd u)"
proof (induction us arbitrary: i)
  case (Cons x us)
  then show ?case by (cases i) (auto simp: ac_simps)
qed simp

lemma held_split: "i < length us \<Longrightarrow> held us = held (take i us) + hold (ufd (us ! i)) + held (drop (Suc i) us)"
  by (subst id_take_nth_drop [of i us]) (simp_all add: ac_simps)

lemma held_mem: "i < length us \<Longrightarrow> ufd (us ! i) \<noteq> - 1 \<Longrightarrow> ufd (us ! i) \<in># held us"
  by (subst held_split [of i us]) (simp_all add: hold_def)

text \<open>\<open>log\<close> observes the calls of \<open>close(2)\<close>.\<close>

definition logs_close :: "'w sys_ops \<Rightarrow> ('w \<Rightarrow> int list) \<Rightarrow> bool" where
  "logs_close sys log \<longleftrightarrow> (\<forall>n w. log (sys_close sys n w) = n # log w)"

lemma reset_log:
  assumes "UniqueFd_reset sys n u w = (u', w')" "logs_close sys log"
  shows "ufd u' = n \<and> (n \<noteq> ufd u \<or> n = - 1 \<longrightarrow> mset (log w') = mset (log w) + hold (ufd u)) \<and>
    (n = ufd u \<longrightarrow> w' = w)"
  using assms by (auto simp: UniqueFd_reset_def Let_def hold_def logs_close_def split: if_splits)

lemma fd_step_held:
  assumes step: "fd_step sys p (us, w) = Some (us', w')" and log: "logs_close sys log"
    and once: "\<forall>n. count (held us) n \<le> 1"
    and fresh: "\<forall>n \<in> set (acquired p). n \<noteq> - 1 \<and> n \<notin># held us"
  shows "held us' + mset (log w') = held us + mset (log w) + mset (acquired p)"
proof (cases p)
  case (FdNew n)
  then show ?thesis using step fresh by (auto simp: UniqueFd_make_def hold_def)
next
  case (FdMove i)
  then have i: "i < length us" and us': "us' = us[i := (us ! i)\<lparr>ufd := - 1\<rparr>] @ [\<lparr>ufd = ufd (us ! i)\<rparr>]" "w' = w"
    using step by (auto simp: UniqueFd_move_def UniqueFd_release_def UniqueFd_make_def Let_def bind_eq_Some_conv)
  have "hold (- 1) = {#}" by (simp add: hold_def)
  then show ?thesis using held_upd [OF i, of "(us ! i)\<lparr>ufd := - 1\<rparr>"] FdMove by (simp add: us')
next
  case (FdAssign i j)
  define n where "n = ufd (us ! j)"
  define vs where "vs = us[j := (us ! j)\<lparr>ufd := - 1\<rparr>]"
  obtain u where ij: "i < length us" "j < length us" and u: "UniqueFd_reset sys n (vs ! i) w = (u, w')" "us' = vs[i := u]"
    using step FdAssign by (auto simp: UniqueFd_release_def Let_def bind_eq_Some_conv n_def vs_def split: prod.splits)
  have "hold (- 1) = {#}" by (simp add: hold_def)
  then have a: "held vs + hold n = held us" using held_upd [OF ij(2), of "(us ! j)\<lparr>ufd := - 1\<rparr>"] by (simp add: n_def vs_def)
  have b: "held us' + hold (ufd (vs ! i)) = held vs + hold n"
    using held_upd [of i vs u] reset_log [OF u(1) log] ij u(2) by (simp add: vs_def)
  show ?thesis
  proof (cases "n = ufd (vs ! i) \<and> n \<noteq> - 1")
    case True
    have "i < length vs" using ij by (simp add: vs_def)
    from held_mem [OF this] True have "n \<in># held vs" by simp
    then have "2 \<le> count (held us) n" using True by (simp add: hold_def Suc_le_eq flip: a)
    then show ?thesis using once by (metis Suc_1 not_less_eq_eq One_nat_def)
  next
    case False
    then have "mset (log w') = mset (log w) + hold (ufd (vs ! i))" using reset_log [OF u(1) log] by blast
    then show ?thesis using a b FdAssign by (simp add: ac_simps)
  qed
next
  case (FdReset i n)
  then obtain u where i: "i < length us" and u: "UniqueFd_reset sys n (us ! i) w = (u, w')" "us' = us[i := u]"
    using step by (auto simp: Let_def bind_eq_Some_conv split: prod.splits)
  have u_n: "ufd u = n" using reset_log [OF u(1) log] by blast
  have b: "held us' + hold (ufd (us ! i)) = held us + hold n"
    unfolding u(2) using held_upd [OF i, of u] unfolding u_n .
  have acq: "acquired p = (if n = - 1 then [] else [n])" unfolding FdReset by simp
  have "n \<noteq> ufd (us ! i) \<or> n = - 1"
  proof (cases "n = - 1")
    case False
    then have "n \<in> set (acquired p)" unfolding acq by simp
    then have "n \<notin># held us" using fresh by blast
    then show ?thesis using held_mem [OF i] False by metis
  qed simp
  then have "mset (log w') = mset (log w) + hold (ufd (us ! i))" using reset_log [OF u(1) log] by blast
  moreover have "hold n = mset (acquired p)" unfolding acq by (simp add: hold_def)
  ultimately show ?thesis using b by (metis union_assoc union_commute)
next
  case (FdDestroy i)
  then have i: "i < length us" and us': "us' = take i us @ drop (Suc i) us" "w' = UniqueFd_dtor sys (us ! i) w"
    using step by (auto simp: bind_eq_Some_conv)
  then show ?thesis
    using held_split [OF i] FdDestroy log by (simp add: UniqueFd_dtor_def hold_def logs_close_def)
qed

lemma fd_run_held:
  assumes "fd_run sys ps (us, w) = Some (us', w')" "logs_close sys log"
    and "- 1 \<notin># held us" "\<forall>n. count (held us + mset (log w) + mset (concat (map acquired ps))) n \<le> 1"
    and "- 1 \<notin> set (concat (map acquired ps))"
  shows "held us' + mset (log w') = held us + mset (log w) + mset (concat (map acquired ps))"
  using assms
proof (induction ps arbitrary: us w)
  case (Cons p ps)
  obtain us1 w1 where step: "fd_step sys p (us, w) = Some (us1, w1)" "fd_run sys ps (us1, w1) = Some (us', w')"
    using Cons.prems(1) by (auto simp: bind_eq_Some_conv)
  have once: "\<forall>n. count (held us) n \<le> 1" using Cons.prems(4) by (metis add_leD1 count_union)
  have fresh: "\<forall>n \<in> set (acquired p). n \<noteq> - 1 \<and> n \<notin># held us"
  proof
    fix n
    assume n: "n \<in> set (acquired p)"
    then have "1 \<le> count (mset (acquired p)) n" by (simp add: Suc_le_eq)
    moreover have "count (held us) n + count (mset (acquired p)) n \<le> 1"
      using Cons.prems(4) [rule_format, of n] by simp
    ultimately have "count (held us) n = 0" by linarith
    then show "n \<noteq> - 1 \<and> n \<notin># held us" using Cons.prems(5) n by (auto simp: not_in_iff)
  qed
  have sum: "held us1 + mset (log w1) = held us + mset (log w) + mset (acquired p)"
    by (rule fd_step_held [OF step(1) Cons.prems(2) once fresh])
  have "- 1 \<notin># held us1" by (auto simp: held_def hold_def split: if_splits)
  then show ?case
    using Cons.IH [OF step(2) Cons.prems(2)] Cons.prems(4,5) sum by (simp add: ac_simps)
qed simp

lemma at_most_one: "(c :: nat) \<le> 1 \<Longrightarrow> 0 < c \<longleftrightarrow> P \<Longrightarrow> c = (if P then 1 else 0)"
  by (cases P) auto


text \<open>A kernel state that is the list of the calls of \<open>close\<close>, for the example.\<close>

definition close_recorder :: "int list sys_ops" where
  "close_recorder =
     \<lparr>sys_read = \<lambda>_ _ w. (Inl EBADF, w), sys_write = \<lambda>_ _ w. (Inl EBADF, w), sys_accept4 = \<lambda>_ w. (Inl EBADF, w),
      sys_close = (\<lambda>n w. n # w), sys_open_null = \<lambda>w. (Inl EMFILE, w), sys_nodelay = \<lambda>_ w. (Some EBADF, w),
      sys_epoll_ctl = \<lambda>_ _ _ w. (Some EBADF, w), sys_epoll_wait = \<lambda>_ _ _ w. (Inl EBADF, w),
      sys_now = \<lambda>w. (0, w),
      sys_epoll_create1 = \<lambda>w. (Inl EMFILE, w), sys_socket = \<lambda>w. (Inl EMFILE, w), sys_reuseaddr = \<lambda>_ w. (Some EBADF, w),
      sys_bind = \<lambda>_ _ _ w. (Some EBADF, w), sys_listen = \<lambda>_ _ w. (Some EBADF, w), sys_inet_pton = \<lambda>_. None\<rparr>"


end
