(* ===== verification/Net_State.thy ===== *)
theory Net_State
  imports Dispatch_Props Unique_Fd
begin

text \<open>
  The state of the network layer, the registrations of \<open>net/event_loop.cpp\<close> and the two services
  that a connection asks of its server.

  \<^item> Connections refer to their server and the server owns them, so the three classes act on one
    state, the record \<open>Server\<close>, whose last fields are the \<open>Connection\<close> objects that are alive and
    the kernel state. \<open>connections\<close> and \<open>retired\<close> hold owning pointers, here object numbers; the
    handler of a connection is \<open>HConn i\<close>. Using one whose object was destroyed is \<open>None\<close>, as is a
    failed assertion.
  \<^item> \<open>std::system_error\<close> is the \<open>errno\<close> it carries, returned by the call that throws it. Messages
    on \<open>stderr\<close> are left out.
\<close>

section \<open>State\<close>

datatype ConnectionState = kOpen | kClosing | kClosed

record Connection =
  connFd :: UniqueFd
  inbuf :: Buffer
  outbuf :: Buffer
  cstate :: ConnectionState
  interest :: u32

record EventLoop =
  epollFd :: UniqueFd
  tickCount :: u64
  stopRequested :: bool

definition kMaxEvents :: nat where
  "kMaxEvents = 1024"

record ServerConfig =
  bindAddr :: string
  port :: u16
  backlog :: int
  expireIntervalMs :: int
  expireSampleBuckets :: u64
  storeCfg :: Config

definition ServerConfig_default :: ServerConfig where
  "ServerConfig_default =
     \<lparr>bindAddr = ''127.0.0.1'', port = 6380, backlog = 512, expireIntervalMs = 100,
      expireSampleBuckets = 20, storeCfg = Config_default\<rparr>"

record ('p, 'w) Server =
  cfg :: ServerConfig
  store :: "'p Store"
  loop :: EventLoop
  acceptorFd :: UniqueFd
  connections :: "int \<rightharpoonup> nat"
  retired :: "nat list"
  cachedNow :: int
  lastSweepMs :: int
  cachedTick :: u64
  reserveFd :: UniqueFd
  acceptPaused :: bool
  objs :: "nat \<rightharpoonup> Connection"
  nextObj :: nat
  world :: 'w

section \<open>The event loop's registrations\<close>

definition epollCtl :: "'w sys_ops \<Rightarrow> int \<Rightarrow> ctl \<Rightarrow> ('p, 'w) Server \<Rightarrow> errno option \<times> ('p, 'w) Server" where
  "epollCtl sys fd c sv =
     (let (r, w) = sys_epoll_ctl sys (UniqueFd_get (epollFd (loop sv))) fd c (world sv)
      in (r, sv\<lparr>world := w\<rparr>))"

definition buildEpollEvent :: "handler \<Rightarrow> u32 \<Rightarrow> u32 \<times> handler" where
  [simp]: "buildEpollEvent h events = (events, h)"

definition loop_add :: "'w sys_ops \<Rightarrow> int \<Rightarrow> handler \<Rightarrow> u32 \<Rightarrow> ('p, 'w) Server \<Rightarrow> errno option \<times> ('p, 'w) Server" where
  "loop_add sys fd h events sv = epollCtl sys fd (case_prod CTL_ADD (buildEpollEvent h events)) sv"

definition loop_modify :: "'w sys_ops \<Rightarrow> int \<Rightarrow> handler \<Rightarrow> u32 \<Rightarrow> ('p, 'w) Server \<Rightarrow> errno option \<times> ('p, 'w) Server" where
  "loop_modify sys fd h events sv = epollCtl sys fd (case_prod CTL_MOD (buildEpollEvent h events)) sv"

definition loop_remove :: "'w sys_ops \<Rightarrow> int \<Rightarrow> ('p, 'w) Server \<Rightarrow> ('p, 'w) Server option" where
  "loop_remove sys fd sv =
     (let (r, sv) = epollCtl sys fd CTL_DEL sv in do { require (r = None); Some sv })"

section \<open>Server services used by connections\<close>

definition Server_now :: "'w sys_ops \<Rightarrow> ('p, 'w) Server \<Rightarrow> int \<times> ('p, 'w) Server" where
  "Server_now sys sv =
     (let lt = tickCount (loop sv)
      in if lt = cachedTick sv then (cachedNow sv, sv)
         else let (t, w) = sys_now sys (world sv)
              in (t, sv\<lparr>cachedNow := t, cachedTick := lt, world := w\<rparr>))"

definition retire :: "nat \<Rightarrow> ('p, 'w) Server \<Rightarrow> ('p, 'w) Server option" where
  "retire i sv =
     do { c \<leftarrow> objs sv i;
          let fd = UniqueFd_get (connFd c);
          j \<leftarrow> connections sv fd;
          Some (sv\<lparr>retired := retired sv @ [j], connections := (connections sv)(fd := None)\<rparr>) }"

end
