(* ===== verification/Connection.thy ===== *)
theory Connection
  imports Net_State
begin

text \<open>
  \<open>net/connection.cpp\<close>: one client socket, with an input buffer fed by \<open>read(2)\<close> and an output
  buffer drained by \<open>write(2)\<close>. Each member function acts on object \<open>i\<close> of the server state. The
  loops of \<open>processInput\<close> and \<open>flushOutput\<close> are partial functions: not returning is \<open>None\<close>.
\<close>

section \<open>Objects\<close>

definition put_conn :: "nat \<Rightarrow> Connection \<Rightarrow> ('p, 'w) Server \<Rightarrow> ('p, 'w) Server" where
  "put_conn i c sv = sv\<lparr>objs := (objs sv)(i \<mapsto> c)\<rparr>"

definition conn_closed :: "Connection \<Rightarrow> bool" where
  "conn_closed c \<longleftrightarrow> cstate c = kClosed"

text \<open>The constructor; when registering throws, the base class closes the descriptor.\<close>

definition Connection_make :: "'w sys_ops \<Rightarrow> UniqueFd \<Rightarrow> ('p, 'w) Server \<Rightarrow> (errno + nat) \<times> ('p, 'w) Server" where
  "Connection_make sys u sv =
     (let i = nextObj sv;
          c = \<lparr>connFd = u, inbuf = Buffer_init kDefaultCapacity, outbuf = Buffer_init kDefaultCapacity,
               cstate = kOpen, interest = EPOLLIN\<rparr>;
          (r, sv) = loop_add sys (UniqueFd_get u) (HConn i) (interest c) sv
      in case r of
           Some e \<Rightarrow> (Inl e, sv\<lparr>world := UniqueFd_dtor sys u (world sv)\<rparr>)
         | None \<Rightarrow> (Inr i, (put_conn i c sv)\<lparr>nextObj := i + 1\<rparr>))"

definition Connection_dtor :: "'w sys_ops \<Rightarrow> nat \<Rightarrow> ('p, 'w) Server \<Rightarrow> ('p, 'w) Server option" where
  "Connection_dtor sys i sv =
     do { c \<leftarrow> objs sv i;
          sv \<leftarrow> loop_remove sys (UniqueFd_get (connFd c)) sv;
          Some (sv\<lparr>world := UniqueFd_dtor sys (connFd c) (world sv), objs := (objs sv)(i := None)\<rparr>) }"

definition markClosed :: "nat \<Rightarrow> ('p, 'w) Server \<Rightarrow> ('p, 'w) Server option" where
  "markClosed i sv =
     do { c \<leftarrow> objs sv i;
          if conn_closed c then Some sv
          else retire i (put_conn i (c\<lparr>cstate := kClosed\<rparr>) sv) }"

definition updateInterest :: "'w sys_ops \<Rightarrow> nat \<Rightarrow> ('p, 'w) Server \<Rightarrow> ('p, 'w) Server option" where
  "updateInterest sys i sv =
     do { c \<leftarrow> objs sv i;
          let wanted = (if \<not> Buffer_empty (outbuf c) then EPOLLOUT else 0) OR
                       (if cstate c = kOpen then EPOLLIN else 0);
          if wanted = interest c then Some sv
          else (case loop_modify sys (UniqueFd_get (connFd c)) (HConn i) wanted sv of
                  (Some e, sv) \<Rightarrow> do { require (e \<noteq> ENOENT \<and> e \<noteq> EBADF); markClosed i sv }
                | (None, sv) \<Rightarrow> Some (put_conn i (c\<lparr>interest := wanted\<rparr>) sv)) }"

text \<open>The write loop; returns whether the connection was closed on an error.\<close>

partial_function (option) flushLoop :: "'w sys_ops \<Rightarrow> nat \<Rightarrow> ('p, 'w) Server \<Rightarrow> (bool \<times> ('p, 'w) Server) option" where
  "flushLoop sys i sv =
     do { c \<leftarrow> objs sv i;
          if Buffer_empty (outbuf c) then Some (False, sv)
          else do { v \<leftarrow> Buffer_readable (outbuf c);
                    case sys_write sys (UniqueFd_get (connFd c)) v (world sv) of
                      (Inr n, w) \<Rightarrow>
                        (if n > 0
                         then do { b \<leftarrow> Buffer_consume n (outbuf c);
                                   flushLoop sys i (put_conn i (c\<lparr>outbuf := b\<rparr>) (sv\<lparr>world := w\<rparr>)) }
                         else Some (False, sv\<lparr>world := w\<rparr>))
                    | (Inl e, w) \<Rightarrow>
                        (if e = EAGAIN then Some (False, sv\<lparr>world := w\<rparr>)
                         else if e = EINTR then flushLoop sys i (sv\<lparr>world := w\<rparr>)
                         else do { sv \<leftarrow> markClosed i (sv\<lparr>world := w\<rparr>); Some (True, sv) }) } }"

definition flushOutput :: "'w sys_ops \<Rightarrow> nat \<Rightarrow> ('p, 'w) Server \<Rightarrow> ('p, 'w) Server option" where
  "flushOutput sys i sv =
     do { (gone, sv) \<leftarrow> flushLoop sys i sv;
          if gone then Some sv
          else do { c \<leftarrow> objs sv i;
                    if Buffer_empty (outbuf c) \<and> cstate c = kClosing then markClosed i sv
                    else updateInterest sys i sv } }"

partial_function (option) processLoop :: "'p pool_ops \<Rightarrow> nat \<Rightarrow> int \<Rightarrow> Command \<Rightarrow> ('p, 'w) Server \<Rightarrow> ('p, 'w) Server option" where
  "processLoop ops i now cmd sv =
     do { c \<leftarrow> objs sv i;
          if Buffer_empty (inbuf c) then Some sv
          else do { v \<leftarrow> Buffer_readable (inbuf c);
                    (res, cmd) \<leftarrow> parseCommand v cmd;
                    if status res = kIncomplete then Some sv
                    else if status res = kProtocolError
                    then do { b \<leftarrow> reply_error (errtext res) (outbuf c);
                              Some (put_conn i (c\<lparr>outbuf := b, cstate := kClosing\<rparr>) sv) }
                    else do { (d, st, out) \<leftarrow> dispatch ops (store sv) cmd now (outbuf c);
                              b \<leftarrow> Buffer_consume (consumed res) (inbuf c);
                              let c = c\<lparr>inbuf := b, outbuf := out\<rparr>;
                              if d = kCloseConnection
                              then Some (put_conn i (c\<lparr>cstate := kClosing\<rparr>) (sv\<lparr>store := st\<rparr>))
                              else processLoop ops i now cmd (put_conn i c (sv\<lparr>store := st\<rparr>)) } } }"

definition processInput :: "'p pool_ops \<Rightarrow> 'w sys_ops \<Rightarrow> nat \<Rightarrow> ('p, 'w) Server \<Rightarrow> ('p, 'w) Server option" where
  "processInput ops sys i sv =
     do { c \<leftarrow> objs sv i;
          if cstate c \<noteq> kOpen then Some sv
          else let (now, sv) = Server_now sys sv in processLoop ops i now Command_init sv }"

definition conn_onReadable :: "'p pool_ops \<Rightarrow> 'w sys_ops \<Rightarrow> nat \<Rightarrow> ('p, 'w) Server \<Rightarrow> ('p, 'w) Server option" where
  "conn_onReadable ops sys i sv =
     do { c \<leftarrow> objs sv i;
          if conn_closed c then Some sv
          else do { b \<leftarrow> ensureWritable kDefaultCapacity (inbuf c);
                    let (r, w) = sys_read sys (UniqueFd_get (connFd c)) (writableBytes b) (world sv);
                    let sv = put_conn i (c\<lparr>inbuf := b\<rparr>) (sv\<lparr>world := w\<rparr>);
                    case r of
                      Inr bs \<Rightarrow>
                        (if bs \<noteq> []
                         then do { b \<leftarrow> write_tail bs b;
                                   b \<leftarrow> commit (length bs) b;
                                   sv \<leftarrow> processInput ops sys i (put_conn i (c\<lparr>inbuf := b\<rparr>) sv);
                                   flushOutput sys i sv }
                         else markClosed i sv)
                    | Inl e \<Rightarrow> (if e = EAGAIN \<or> e = EINTR then Some sv else markClosed i sv) } }"

definition conn_onWritable :: "'w sys_ops \<Rightarrow> nat \<Rightarrow> ('p, 'w) Server \<Rightarrow> ('p, 'w) Server option" where
  "conn_onWritable sys i sv =
     do { c \<leftarrow> objs sv i; if conn_closed c then Some sv else flushOutput sys i sv }"

end
