(* ===== verification/Session.thy ===== *)
theory Session
  imports Connection
begin

text \<open>
  What a connection does with its buffers: \<open>processInput\<close> answers the commands of the buffered input
  one by one and in order, \<open>flushOutput\<close> hands the replies to the kernel without losing, repeating
  or reordering a byte. \<open>serve\<close> is the specification of the first, free of buffers and parsing.
\<close>

section \<open>Specification\<close>

text \<open>Commands served at one time: the bytes of the replies, whether one closes the connection (the
  rest is not looked at), the store afterwards. An empty command has no reply.\<close>

fun serve :: "'p pool_ops \<Rightarrow> int \<Rightarrow> string list list \<Rightarrow> 'p Store \<Rightarrow> (string \<times> bool \<times> 'p Store) option" where
  "serve ops now [] s = Some ([], False, s)"
| "serve ops now (args # xs) s =
     (if args = [] then serve ops now xs s
      else do { (rs, s') \<leftarrow> run_ops (store_step ops) (map (Pair now) (fst (plan_of now args))) s;
                let bs = reply_bytes (snd (plan_of now args) (Store_size s) rs);
                if closes args then Some (bs, True, s')
                else do { (bs', q, s'') \<leftarrow> serve ops now xs s'; Some (bs @ bs', q, s'') } })"

text \<open>The reply to input that is no command.\<close>

definition last_words :: "bool \<Rightarrow> Error option \<Rightarrow> string" where
  "last_words q e = (case e of Some err \<Rightarrow> if q then [] else reply_bytes (Err (errorToString err)) | None \<Rightarrow> [])"

lemma serve_append:
  "serve ops now (xs @ ys) s =
     do { (bs, q, s') \<leftarrow> serve ops now xs s;
          if q then Some (bs, q, s')
          else do { (bs', q', s'') \<leftarrow> serve ops now ys s'; Some (bs @ bs', q', s'') } }"
proof (induction xs arbitrary: s)
  case Nil
  show ?case by (cases "serve ops now ys s") (auto split: prod.splits)
next
  case (Cons args xs)
  show ?case
  proof (cases "args = []")
    case True
    then show ?thesis using Cons by simp
  next
    case False
    show ?thesis
    proof (cases "run_ops (store_step ops) (map (Pair now) (fst (plan_of now args))) s")
      case (Some p)
      obtain rs s' where "p = (rs, s')" by (cases p)
      then show ?thesis
        using False Some Cons [of s'] by (cases "serve ops now xs s'") (auto simp: Let_def split: prod.splits bind_splits)
    qed (use False in simp)
  qed
qed

section \<open>Objects\<close>

lemma put_conn_simps [simp]:
  "objs (put_conn i c sv) = (objs sv)(i \<mapsto> c)" "world (put_conn i c sv) = world sv" "store (put_conn i c sv) = store sv"
  "loop (put_conn i c sv) = loop sv" "cfg (put_conn i c sv) = cfg sv" "connections (put_conn i c sv) = connections sv"
  "retired (put_conn i c sv) = retired sv" "acceptorFd (put_conn i c sv) = acceptorFd sv" "nextObj (put_conn i c sv) = nextObj sv"
  "cachedNow (put_conn i c sv) = cachedNow sv" "cachedTick (put_conn i c sv) = cachedTick sv"
  "lastSweepMs (put_conn i c sv) = lastSweepMs sv" "reserveFd (put_conn i c sv) = reserveFd sv"
  "acceptPaused (put_conn i c sv) = acceptPaused sv"
  "put_conn i c (put_conn i d sv) = put_conn i c sv"
  "(put_conn i d sv)\<lparr>store := s\<rparr> = put_conn i d (sv\<lparr>store := s\<rparr>)"
  "(put_conn i d sv)\<lparr>world := w\<rparr> = put_conn i d (sv\<lparr>world := w\<rparr>)"
  by (simp_all add: put_conn_def)

lemma put_conn_same: "objs sv i = Some c \<Longrightarrow> put_conn i c sv = sv"
  by (simp add: put_conn_def fun_upd_idem)

section \<open>Input\<close>

lemma plain_errorToString: "plain (errorToString err)"
  by (cases err) (simp_all add: plain_def)

context entry_pool
begin

lemma processLoop_drains:
  assumes "drains command_spec r xs e rest" and "objs sv i = Some c"
    and "Buffer_inv (inbuf c)" "contents (inbuf c) = r" "length r < 2 ^ 64"
    and "Buffer_inv (outbuf c)" "cstate c = kOpen" "sinv (store sv)" "clock_ok now" "length (argv cmd) = kMaxArgs"
  shows "\<exists>bs q s' c'. serve ops now xs (store sv) = Some (bs, q, s') \<and> sinv s' \<and>
    processLoop ops i now cmd sv = Some (put_conn i c' (sv\<lparr>store := s'\<rparr>)) \<and>
    connFd c' = connFd c \<and> interest c' = interest c \<and> Buffer_inv (inbuf c') \<and> Buffer_inv (outbuf c') \<and>
    contents (outbuf c') = contents (outbuf c) @ bs @ last_words q e \<and>
    cstate c' = (if q \<or> e \<noteq> None then kClosing else kOpen) \<and> (\<not> q \<longrightarrow> contents (inbuf c') = rest) \<and>
    buf (inbuf c') = buf (inbuf c)"
  using assms
proof (induction arbitrary: sv c cmd rule: drains.induct)
  case (more r)
  have "processLoop ops i now cmd sv = Some sv"
    using more parseCommand_spec [of r cmd]
    by (subst processLoop.simps) (simp add: Buffer_readable_contents parse_answer_def incomplete_def)
  then show ?case
    by (intro exI [of _ "[]"] exI [of _ False] exI [of _ "store sv"] exI [of _ c])
      (use more in \<open>simp add: put_conn_same last_words_def\<close>)
next
  case (bad r err)
  then have ne: "r \<noteq> []" by (auto simp: command_spec_def)
  obtain b where b: "reply_error (errorToString err) (outbuf c) = Some b" "answers (outbuf c) (Err (errorToString err)) b"
    using reply_answers(2) [OF plain_errorToString, of "outbuf c"] bad.prems by blast
  let ?c = "c\<lparr>outbuf := b, cstate := kClosing\<rparr>"
  have "processLoop ops i now cmd sv = Some (put_conn i ?c sv)"
    using bad ne b parseCommand_spec [of r cmd]
    by (subst processLoop.simps) (simp add: Buffer_readable_contents Buffer_empty_contents parse_answer_def fail_def)
  then show ?case
    by (intro exI [of _ "[]"] exI [of _ False] exI [of _ "store sv"] exI [of _ ?c])
      (use bad.prems b(2) in \<open>simp add: last_words_def answers_def\<close>)
next
  case (step r args n xs e rest)
  then have ne: "r \<noteq> []" by (auto simp: command_spec_def)
  have n: "n \<le> length r" using stableD(1) [OF requests.steady step.hyps(1)] .
  obtain b where b: "Buffer_consume n (inbuf c) = Some b" "Buffer_inv b" "contents b = drop n r" "buf b = buf (inbuf c)"
    using Buffer_consume_ok [of "inbuf c" n] n step.prems by auto
  have args: "args_ok args" using command_spec_Done [OF step.hyps(1)] by (simp add: args_ok_def)
  have argv: "length (argv (command_of args)) = kMaxArgs"
    using args by (simp add: command_of_def args_ok_def)
  have loop: "processLoop ops i now cmd sv =
      do { (d, st, out) \<leftarrow> dispatch ops (store sv) (command_of args) now (outbuf c);
           if d = kCloseConnection
           then Some (put_conn i (c\<lparr>inbuf := b, outbuf := out, cstate := kClosing\<rparr>) (sv\<lparr>store := st\<rparr>))
           else processLoop ops i now (command_of args) (put_conn i (c\<lparr>inbuf := b, outbuf := out\<rparr>) (sv\<lparr>store := st\<rparr>)) }"
    using step.prems step.hyps(1) ne b(1) parseCommand_spec [of r cmd]
    by (subst processLoop.simps) (simp add: Buffer_readable_contents Buffer_empty_contents parse_answer_def Let_def)
  have IH: "\<exists>bs q s' c'. serve ops now xs st = Some (bs, q, s') \<and> sinv s' \<and>
      processLoop ops i now (command_of args) (put_conn i (c\<lparr>inbuf := b, outbuf := out\<rparr>) (sv\<lparr>store := st\<rparr>)) =
        Some (put_conn i c' (sv\<lparr>store := s'\<rparr>)) \<and>
      connFd c' = connFd c \<and> interest c' = interest c \<and> Buffer_inv (inbuf c') \<and> Buffer_inv (outbuf c') \<and>
      contents (outbuf c') = contents out @ bs @ last_words q e \<and>
      cstate c' = (if q \<or> e \<noteq> None then kClosing else kOpen) \<and> (\<not> q \<longrightarrow> contents (inbuf c') = rest) \<and>
      buf (inbuf c') = buf (inbuf c)" if "sinv st" "Buffer_inv out" for st out
    using step.IH [of "put_conn i (c\<lparr>inbuf := b, outbuf := out\<rparr>) (sv\<lparr>store := st\<rparr>)" "c\<lparr>inbuf := b, outbuf := out\<rparr>" "command_of args"]
      that step.prems b argv by simp
  show ?case
  proof (cases "args = []")
    case True
    then show ?thesis
      using IH [of "store sv" "outbuf c"] step.prems unfolding loop by (simp add: dispatch_def)
  next
    case False
    obtain res s1 out rs where d: "dispatch ops (store sv) (command_of args) now (outbuf c) = Some (res, s1, out)" "sinv s1"
        "run_ops (store_step ops) (map (Pair now) (fst (plan_of now args))) (store sv) = Some (rs, s1)"
        "answers (outbuf c) (snd (plan_of now args) (Store_size (store sv)) rs) out" "res = kCloseConnection \<longleftrightarrow> closes args"
      using dispatch_run [of "store sv" "outbuf c" args now] step.prems args False by blast
    have out: "Buffer_inv out" using d(4) by (simp add: answers_def)
    show ?thesis
    proof (cases "closes args")
      case True
      then show ?thesis
        unfolding loop
        by (intro exI [of _ "reply_bytes (snd (plan_of now args) (Store_size (store sv)) rs)"] exI [of _ True] exI [of _ s1]
              exI [of _ "c\<lparr>inbuf := b, outbuf := out, cstate := kClosing\<rparr>"])
          (use d False b step.prems in \<open>simp add: Let_def answers_def last_words_def split: option.split\<close>)
    next
      case nq: False
      obtain bs q s' c' where c': "serve ops now xs s1 = Some (bs, q, s')" "sinv s'"
          "processLoop ops i now (command_of args) (put_conn i (c\<lparr>inbuf := b, outbuf := out\<rparr>) (sv\<lparr>store := s1\<rparr>)) =
             Some (put_conn i c' (sv\<lparr>store := s'\<rparr>))"
          "connFd c' = connFd c" "interest c' = interest c" "Buffer_inv (inbuf c')" "Buffer_inv (outbuf c')"
          "contents (outbuf c') = contents out @ bs @ last_words q e"
          "cstate c' = (if q \<or> e \<noteq> None then kClosing else kOpen)" "\<not> q \<longrightarrow> contents (inbuf c') = rest"
          "buf (inbuf c') = buf (inbuf c)"
        using IH [OF d(2) out] by blast
      show ?thesis
        unfolding loop
        by (intro exI [of _ "reply_bytes (snd (plan_of now args) (Store_size (store sv)) rs) @ bs"] exI [of _ q] exI [of _ s']
              exI [of _ c'])
          (use d False nq c' in \<open>simp add: Let_def answers_def\<close>)
    qed
  qed
qed

end

section \<open>Output\<close>

text \<open>The kernel states between which only bytes of descriptor \<open>fd\<close> were sent.\<close>

context kernel
begin

definition settled :: "'w \<Rightarrow> 'w \<Rightarrow> bool" where
  "settled w w' \<longleftrightarrow> fds w' = fds w \<and> watched w' = watched w \<and> pending w' \<le> pending w"

lemma settled_refl [simp]: "settled w w"
  by (simp add: settled_def)

lemma settled_trans: "settled w w' \<Longrightarrow> settled w' w'' \<Longrightarrow> settled w w''"
  by (simp add: settled_def)

text \<open>From object \<open>c\<close> and state \<open>sv\<close>, the loop on descriptor \<open>fd\<close> ends with output \<open>b\<close> left and kernel
  state \<open>w\<close>; \<open>gone\<close> when an error closed the connection.\<close>

definition flushed :: "nat \<Rightarrow> int \<Rightarrow> Connection \<Rightarrow> ('p, 'w) Server \<Rightarrow> Buffer \<Rightarrow> 'w \<Rightarrow> bool \<Rightarrow> bool" where
  "flushed i fd c sv b w gone \<longleftrightarrow>
     settled (world sv) w \<and> taken w = taken (world sv) \<and> Buffer_inv b \<and> (\<forall>g. g \<noteq> fd \<longrightarrow> sent w g = sent (world sv) g) \<and>
     sent w fd @ contents b = sent (world sv) fd @ contents (outbuf c) \<and>
     flushLoop sys i sv =
       (let sv' = put_conn i (c\<lparr>outbuf := b\<rparr>) (sv\<lparr>world := w\<rparr>)
        in if gone then do { sv' \<leftarrow> markClosed i sv'; Some (True, sv') } else Some (False, sv'))"

lemma flushed_step:
  assumes "settled (world sv) w" "taken w = taken (world sv)" "\<forall>g. g \<noteq> fd \<longrightarrow> sent w g = sent (world sv) g"
    and "sent w fd @ contents b = sent (world sv) fd @ contents (outbuf c)"
    and "flushLoop sys i sv = flushLoop sys i (put_conn i (c\<lparr>outbuf := b\<rparr>) (sv\<lparr>world := w\<rparr>))"
    and "flushed i fd (c\<lparr>outbuf := b\<rparr>) (put_conn i (c\<lparr>outbuf := b\<rparr>) (sv\<lparr>world := w\<rparr>)) b' w' gone"
  shows "flushed i fd c sv b' w' gone"
  using assms settled_trans [OF assms(1)] by (simp add: flushed_def)

lemma flushLoop_write:
  assumes "objs sv i = Some c" "Buffer_inv (outbuf c)" "contents (outbuf c) \<noteq> []"
    and "sys_write sys (UniqueFd_get (connFd c)) (contents (outbuf c)) (world sv) = (r, w)"
  shows "flushLoop sys i sv = (case r of
      Inr n \<Rightarrow> (if n > 0 then do { b \<leftarrow> Buffer_consume n (outbuf c);
                flushLoop sys i (put_conn i (c\<lparr>outbuf := b\<rparr>) (sv\<lparr>world := w\<rparr>)) }
              else Some (False, sv\<lparr>world := w\<rparr>))
    | Inl e \<Rightarrow> (if e = EAGAIN then Some (False, sv\<lparr>world := w\<rparr>)
               else if e = EINTR then flushLoop sys i (sv\<lparr>world := w\<rparr>)
               else do { sv \<leftarrow> markClosed i (sv\<lparr>world := w\<rparr>); Some (True, sv) }))"
  using assms
  by (subst flushLoop.simps) (simp add: Buffer_empty_contents Buffer_readable_contents split: sum.split)

lemma flushLoop_sends:
  assumes "objs sv i = Some c" "Buffer_inv (outbuf c)" "UniqueFd_get (connFd c) = fd" "fds (world sv) fd = Some KStream"
  shows "\<exists>b w gone. flushed i fd c sv b w gone"
  using assms
proof (induction "length (contents (outbuf c)) + pending (world sv)" arbitrary: sv c rule: less_induct)
  case less
  let ?v = "contents (outbuf c)"
  have same: "put_conn i c (sv\<lparr>world := w\<rparr>) = sv\<lparr>world := w\<rparr>" for w
    using less.prems(1) by (simp add: put_conn_same)
  show ?case
  proof (cases "?v = []")
    case True
    then have "flushLoop sys i sv = Some (False, sv)"
      using less.prems by (subst flushLoop.simps) (simp add: Buffer_empty_contents)
    then have "flushed i fd c sv (outbuf c) (world sv) False"
      using less.prems(2) same [of "world sv"] by (simp add: flushed_def)
    then show ?thesis by blast
  next
    case ne: False
    obtain r w where w: "sys_write sys fd ?v (world sv) = (r, w)" by fastforce
    note ok = write_ok [OF less.prems(4) w]
    have set: "settled (world sv) w" "fds w fd = Some KStream" "taken w = taken (world sv)"
      using ok less.prems(4) by (simp_all add: settled_def)
    note unf = flushLoop_write [OF less.prems(1,2) ne, unfolded less.prems(3), OF w]
    have again: "\<exists>b w gone. flushed i fd c sv b w gone"
      if b: "Buffer_inv b" "sent w fd @ contents b = sent (world sv) fd @ ?v" "\<forall>g. g \<noteq> fd \<longrightarrow> sent w g = sent (world sv) g"
        "length (contents b) + pending w < length ?v + pending (world sv)"
        "flushLoop sys i sv = flushLoop sys i (put_conn i (c\<lparr>outbuf := b\<rparr>) (sv\<lparr>world := w\<rparr>))" for b
    proof -
      let ?c = "c\<lparr>outbuf := b\<rparr>"
      obtain b' w' gone where "flushed i fd ?c (put_conn i ?c (sv\<lparr>world := w\<rparr>)) b' w' gone"
        using less.hyps [of ?c "put_conn i ?c (sv\<lparr>world := w\<rparr>)"] b(1,4) less.prems(3) set(2) by auto
      from flushed_step [OF set(1,3) b(3,2,5) this] show ?thesis by blast
    qed
    have leave: "\<exists>b w gone. flushed i fd c sv b w gone"
      if "sent w = sent (world sv)" "flushLoop sys i sv =
        (if gone then do { sv' \<leftarrow> markClosed i (sv\<lparr>world := w\<rparr>); Some (True, sv') } else Some (False, sv\<lparr>world := w\<rparr>))" for gone
      by (intro exI [of _ "outbuf c"] exI [of _ w] exI [of _ gone])
        (use that less.prems(2) set(1,3) same in \<open>simp add: flushed_def\<close>)
    show ?thesis
    proof (cases r)
      case (Inl e)
      then show ?thesis
        using ok unf leave [of "e \<noteq> EAGAIN"] again [of "outbuf c"] less.prems(2) same by (cases "e = EINTR") simp_all
    next
      case (Inr n)
      then have n: "n \<le> length ?v" "sent w = (sent (world sv))(fd := sent (world sv) fd @ take n ?v)" using ok by simp_all
      obtain b where b: "Buffer_consume n (outbuf c) = Some b" "Buffer_inv b" "contents b = drop n ?v"
        using Buffer_consume_ok [OF less.prems(2) n(1)] by auto
      have "length (contents b) + pending w < length ?v + pending (world sv)" if "0 < n"
        using that n(1) ne b(3) set(1) by (simp add: settled_def) arith
      then show ?thesis
        using unf Inr n b leave [of False] again [of b] by (cases "0 < n") simp_all
    qed
  qed
qed

end

end
