(* ===== verification/Service.thy ===== *)
theory Service
  imports Session
begin

text \<open>
  What the server promises its clients, without sockets, buffers, events or objects: a database and
  clients that take turns. The turn of a client carries out the commands completed by the bytes it
  was heard to send, all at one time and on the one database, and owes it one reply for each. The
  invariant of this machine is what a client can rely on; \<open>view\<close> reads a state of the machine off a
  state of the server.
\<close>

section \<open>Commands on the specification of the store\<close>

definition carried :: "int \<Rightarrow> string list \<Rightarrow> spec_state \<Rightarrow> Reply \<Rightarrow> spec_state \<Rightarrow> bool" where
  "carried now args a r a' \<longleftrightarrow>
     (\<exists>rs. spec_run store_spec (map (Pair now) (fst (plan_of now args))) a rs a' \<and>
        r = snd (plan_of now args) (card (dom (kvs a))) rs \<and> encodable r)"

text \<open>Commands carried out at one time: the replies, and whether one of them was the last.\<close>

inductive serves :: "int \<Rightarrow> string list list \<Rightarrow> spec_state \<Rightarrow> Reply list \<Rightarrow> bool \<Rightarrow> spec_state \<Rightarrow> bool" for now where
  none: "serves now [] a [] False a"
| blank: "serves now xs a vs q a' \<Longrightarrow> serves now ([] # xs) a vs q a'"
| quit: "args \<noteq> [] \<Longrightarrow> closes args \<Longrightarrow> carried now args a r a' \<Longrightarrow> serves now (args # xs) a [r] True a'"
| command: "args \<noteq> [] \<Longrightarrow> \<not> closes args \<Longrightarrow> carried now args a r a' \<Longrightarrow> serves now xs a' vs q a'' \<Longrightarrow>
    serves now (args # xs) a (r # vs) q a''"

text \<open>The commands that are answered.\<close>

definition asked :: "string list list \<Rightarrow> nat" where
  "asked xs = length (filter (\<lambda>args. args \<noteq> []) xs)"

lemma asked_simps [simp]: "asked [] = 0" "asked ([] # xs) = asked xs" "args \<noteq> [] \<Longrightarrow> asked (args # xs) = Suc (asked xs)"
  "asked (xs @ ys) = asked xs + asked ys"
  by (simp_all add: asked_def)

lemma serves_replies:
  "serves now xs a vs q a' \<Longrightarrow> (\<forall>v \<in> set vs. encodable v) \<and> length vs \<le> asked xs \<and> (\<not> q \<longrightarrow> length vs = asked xs)"
  by (induction rule: serves.induct) (auto simp: carried_def)

lemma drains_args: "drains command_spec r xs e rest \<Longrightarrow> \<forall>args \<in> set xs. args_ok args"
proof (induction rule: drains.induct)
  case (step r args n xs e rest)
  then show ?case using command_spec_Done [OF step.hyps(1)] by (simp add: args_ok_def)
qed simp_all

context entry_pool
begin

lemma size_abs: "sinv s \<Longrightarrow> Store_size s = card (dom (kvs (store_abs s)))"
  using sinv_view(1,2) [of s] keymap_card [of "store_view s"] by simp

lemma serve_serves:
  assumes "serve ops now xs s = Some (bs, q, s')" "sinv s" "clock_ok now" "\<forall>args \<in> set xs. args_ok args"
  shows "\<exists>vs. serves now xs (store_abs s) vs q (store_abs s') \<and> bs = concat (map reply_bytes vs)"
  using assms
proof (induction xs arbitrary: s bs)
  case Nil
  then show ?case by (auto intro: serves.none)
next
  case (Cons args xs)
  show ?case
  proof (cases "args = []")
    case True
    then obtain vs where "serves now xs (store_abs s) vs q (store_abs s')" "bs = concat (map reply_bytes vs)"
      using Cons.IH [of s bs] Cons.prems by auto
    then show ?thesis unfolding True using serves.blank by blast
  next
    case False
    let ?plan = "plan_of now args"
    obtain res s1 out rs where d: "sinv s1" "run_ops (store_step ops) (map (Pair now) (fst ?plan)) s = Some (rs, s1)"
        "spec_run store_spec (map (Pair now) (fst ?plan)) (store_abs s) rs (store_abs s1)"
        "answers (Buffer_init 0) (snd ?plan (Store_size s) rs) out"
      using dispatch_run [of s "Buffer_init 0" args now] Cons.prems False by auto
    define r where "r = snd ?plan (Store_size s) rs"
    have r: "carried now args (store_abs s) r (store_abs s1)"
      using d(3,4) size_abs [OF Cons.prems(2)] by (auto simp: carried_def r_def answers_def)
    show ?thesis
    proof (cases "closes args")
      case True
      then have "bs = reply_bytes r" "q" "s' = s1" using Cons.prems(1) False d(2) by (auto simp: r_def Let_def)
      then show ?thesis using serves.quit [OF False True r] by fastforce
    next
      case more: False
      then obtain bs' where "serve ops now xs s1 = Some (bs', q, s')" "bs = reply_bytes r @ bs'"
        using Cons.prems(1) False d(2) by (auto simp: r_def Let_def split: bind_splits)
      with Cons.IH [OF _ d(1)] Cons.prems(3,4) obtain vs where
        "serves now xs (store_abs s1) vs q (store_abs s')" "bs = concat (map reply_bytes (r # vs))" by auto
      then show ?thesis using serves.command [OF False more r] by blast
    qed
  qed
qed

end

section \<open>The machine\<close>

text \<open>\<open>heard\<close> and \<open>said\<close> are all the bytes so far in each direction; \<open>unparsed\<close> is the end of \<open>heard\<close>
  that is no complete command yet.\<close>

record client =
  heard :: string
  unparsed :: string
  said :: string
  attentive :: bool

record service =
  db :: spec_state
  clients :: "nat \<rightharpoonup> client"

definition newcomer :: client where
  "newcomer = \<lparr>heard = [], unparsed = [], said = [], attentive = True\<rparr>"

inductive turn :: "service \<Rightarrow> service \<Rightarrow> bool" where
  arrive: "clients a i = None \<Longrightarrow> turn a (a\<lparr>clients := (clients a)(i \<mapsto> newcomer)\<rparr>)"
| talk: "clients a i = Some c \<Longrightarrow> attentive c \<Longrightarrow> drains command_spec (unparsed c @ t) xs e rest \<Longrightarrow> clock_ok now \<Longrightarrow>
    serves now xs (db a) vs q d \<Longrightarrow> bs = concat (map reply_bytes vs) @ last_words q e \<Longrightarrow> go = (\<not> q \<and> e = None) \<Longrightarrow>
    turn a \<lparr>db = d, clients = (clients a)(i \<mapsto>
      \<lparr>heard = heard c @ t, unparsed = (if go then rest else []), said = said c @ bs, attentive = go\<rparr>)\<rparr>"
| ignore: "clients a i = Some c \<Longrightarrow> \<not> attentive c \<Longrightarrow>
    turn a (a\<lparr>clients := (clients a)(i \<mapsto> c\<lparr>heard := heard c @ t\<rparr>)\<rparr>)"
| shut: "clients a i = Some c \<Longrightarrow> turn a (a\<lparr>clients := (clients a)(i \<mapsto> c\<lparr>unparsed := [], attentive := False\<rparr>)\<rparr>)"
| leave: "turn a (a\<lparr>clients := (clients a)(i := None)\<rparr>)"
| sweep: "store_spec (now, OpCycle n) (db a) r d \<Longrightarrow> turn a (a\<lparr>db := d\<rparr>)"

abbreviation leads :: "service \<Rightarrow> service \<Rightarrow> bool" where
  "leads \<equiv> turn\<^sup>*\<^sup>*"

text \<open>What a client can rely on. What it was told is a sequence of well-formed replies, never more than
  it is due: one for each command, and one for a protocol error. While the server listens to it,
  all commands it has sent completely have been answered.\<close>

definition client_ok :: "client \<Rightarrow> bool" where
  "client_ok c \<longleftrightarrow>
     (\<exists>xs e rest vs. drains command_spec (heard c) xs e rest \<and> said c = concat (map reply_bytes vs) \<and>
        (\<forall>v \<in> set vs. encodable v) \<and> length vs \<le> asked xs + (if e = None then 0 else 1) \<and>
        (attentive c \<longrightarrow> e = None \<and> rest = unparsed c \<and> length vs = asked xs))"

lemma client_okI:
  assumes "drains command_spec (heard c) xs e rest" "said c = concat (map reply_bytes vs)" "\<forall>v \<in> set vs. encodable v"
    and "length vs \<le> asked xs + (if e = None then 0 else 1)"
    and "attentive c \<Longrightarrow> e = None \<and> rest = unparsed c \<and> length vs = asked xs"
  shows "client_ok c"
  using assms unfolding client_ok_def by blast

lemma newcomer_ok: "client_ok newcomer"
proof (rule client_okI)
  show "drains command_spec (heard newcomer) [] None []" by (auto intro: drains.more simp: newcomer_def command_spec_def)
qed (auto simp: newcomer_def)

lemma last_words_reply:
  "\<exists>vs. last_words q e = concat (map reply_bytes vs) \<and> (\<forall>v \<in> set vs. encodable v) \<and> length vs = (if q \<or> e = None then 0 else 1)"
proof (cases "q \<or> e = None")
  case True
  then show ?thesis by (intro exI [of _ "[]"]) (auto simp: last_words_def split: option.split)
next
  case False
  then obtain err where "e = Some err" "\<not> q" by auto
  then show ?thesis
    by (intro exI [of _ "[Err (errorToString err)]"]) (simp add: last_words_def plain_errorToString)
qed

text \<open>More bytes from a client the server no longer listens to.\<close>

lemma ignore_ok:
  assumes "client_ok c" "\<not> attentive c"
  shows "client_ok (c\<lparr>heard := heard c @ t\<rparr>)"
proof -
  obtain xs e rest vs where c: "drains command_spec (heard c) xs e rest" "said c = concat (map reply_bytes vs)"
      "\<forall>v \<in> set vs. encodable v" "length vs \<le> asked xs + (if e = None then 0 else 1)"
    using assms(1) by (auto simp: client_ok_def)
  show ?thesis
  proof (cases e)
    case None
    obtain ys f rest' where y: "drains command_spec (rest @ t) ys f rest'" using requests.drains_total by blast
    show ?thesis
      by (rule client_okI) (use requests.drains_chunk [OF c(1) None y] c assms(2) None in auto)
  next
    case (Some err)
    show ?thesis
      by (rule client_okI) (use requests.drains_bad_chunk [OF c(1) Some, of t] c assms(2) Some in auto)
  qed
qed

lemma talk_ok:
  assumes c: "client_ok c" "attentive c" and t: "drains command_spec (unparsed c @ t) xs e rest"
    and s: "serves now xs a vs q d" and go: "go = (\<not> q \<and> e = None)"
  shows "client_ok \<lparr>heard = heard c @ t, unparsed = (if go then rest else []),
    said = said c @ concat (map reply_bytes vs) @ last_words q e, attentive = go\<rparr>"
proof -
  obtain ys us where old: "drains command_spec (heard c) ys None (unparsed c)" "said c = concat (map reply_bytes us)"
      "\<forall>v \<in> set us. encodable v" "length us = asked ys"
    using c unfolding client_ok_def by blast
  obtain ws where ws: "last_words q e = concat (map reply_bytes ws)" "\<forall>v \<in> set ws. encodable v"
      "length ws = (if q \<or> e = None then 0 else 1)"
    using last_words_reply by blast
  note new = serves_replies [OF s]
  show ?thesis
    by (rule client_okI [where xs = "ys @ xs" and e = e and rest = rest and vs = "us @ vs @ ws"])
      (use requests.drains_chunk [OF old(1) refl t] old ws new go in \<open>auto split: if_splits\<close>)
qed

lemma shut_ok:
  assumes "client_ok c"
  shows "client_ok (c\<lparr>unparsed := [], attentive := False\<rparr>)"
proof -
  obtain xs e rest vs where "drains command_spec (heard c) xs e rest" "said c = concat (map reply_bytes vs)"
      "\<forall>v \<in> set vs. encodable v" "length vs \<le> asked xs + (if e = None then 0 else 1)"
    using assms by (auto simp: client_ok_def)
  then show ?thesis by (intro client_okI [where xs = xs and vs = vs]) simp_all
qed

definition service_ok :: "service \<Rightarrow> bool" where
  "service_ok a \<longleftrightarrow> (\<forall>i c. clients a i = Some c \<longrightarrow> client_ok c)"

lemma turn_ok: "turn a b \<Longrightarrow> service_ok a \<Longrightarrow> service_ok b"
proof (induction rule: turn.induct)
  case (talk a i c t xs e rest now vs q d bs go)
  then show ?case using talk_ok [of c t xs e rest now "db a" vs q d go] by (auto simp: service_ok_def)
next
  case (shut a i c)
  then have "client_ok c" by (simp add: service_ok_def)
  from shut_ok [OF this] shut show ?case by (auto simp: service_ok_def)
qed (auto simp: service_ok_def newcomer_ok ignore_ok)

lemma leads_ok: "leads a b \<Longrightarrow> service_ok a \<Longrightarrow> service_ok b"
  by (induction rule: rtranclp_induct) (auto intro: turn_ok)

section \<open>The machine in the server\<close>

definition client_of :: "('w \<Rightarrow> int \<Rightarrow> string) \<Rightarrow> ('w \<Rightarrow> int \<Rightarrow> string) \<Rightarrow> 'w \<Rightarrow> Connection \<Rightarrow> client" where
  "client_of taken sent w c =
     (let g = UniqueFd_get (connFd c)
      in \<lparr>heard = taken w g, unparsed = (if cstate c = kOpen then contents (inbuf c) else []),
          said = sent w g @ contents (outbuf c), attentive = (cstate c = kOpen)\<rparr>)"

definition view :: "('w \<Rightarrow> int \<Rightarrow> string) \<Rightarrow> ('w \<Rightarrow> int \<Rightarrow> string) \<Rightarrow> ('p, 'w) Server \<Rightarrow> service" where
  "view taken sent sv =
     \<lparr>db = store_abs (store sv), clients = (\<lambda>i. map_option (client_of taken sent (world sv)) (objs sv i))\<rparr>"

lemma view_simps [simp]:
  "db (view taken sent sv) = store_abs (store sv)"
  "clients (view taken sent sv) i = map_option (client_of taken sent (world sv)) (objs sv i)"
  by (simp_all add: view_def)

lemma view_eqI:
  assumes "store sv' = store sv" "objs sv' = objs sv"
    and "\<And>i c. objs sv i = Some c \<Longrightarrow> client_of taken sent (world sv') c = client_of taken sent (world sv) c"
  shows "view taken sent sv' = view taken sent sv"
proof -
  have "map_option (client_of taken sent (world sv')) (objs sv i) = map_option (client_of taken sent (world sv)) (objs sv i)" for i
    using assms(3) [of i] by (cases "objs sv i") simp_all
  then show ?thesis using assms(1,2) by (simp add: view_def)
qed

lemma client_of_quiet: "quiet taken sent w w' \<Longrightarrow> client_of taken sent w' c = client_of taken sent w c"
  by (simp add: client_of_def quiet_def)

lemma view_quiet:
  "store sv' = store sv \<Longrightarrow> objs sv' = objs sv \<Longrightarrow> quiet taken sent (world sv) (world sv') \<Longrightarrow>
     view taken sent sv' = view taken sent sv"
  by (rule view_eqI) (simp_all add: client_of_quiet)

end
