(* ===== verification/Server.thy ===== *)
theory Server
  imports Connection
begin

text \<open>
  \<open>net/server.cpp\<close> and the loop of \<open>net/event_loop.cpp\<close>: accepting with its failure handling, one
  iteration of the loop, construction and destruction. The signal handler may call \<open>Server::stop\<close>
  at any time; what matters is whether it ran since the last check of the flag.
\<close>

section \<open>Accepting\<close>

datatype AcceptFailure = kDrained | kRetry | kShed | kPause

fun classifyAcceptErrno :: "errno \<Rightarrow> AcceptFailure option" where
  "classifyAcceptErrno EAGAIN = Some kDrained"
| "classifyAcceptErrno EINTR = Some kRetry"
| "classifyAcceptErrno ECONNABORTED = Some kRetry"
| "classifyAcceptErrno EPERM = Some kRetry"
| "classifyAcceptErrno EPROTO = Some kRetry"
| "classifyAcceptErrno ENOPROTOOPT = Some kRetry"
| "classifyAcceptErrno ENETDOWN = Some kRetry"
| "classifyAcceptErrno ENETUNREACH = Some kRetry"
| "classifyAcceptErrno ENONET = Some kRetry"
| "classifyAcceptErrno EHOSTDOWN = Some kRetry"
| "classifyAcceptErrno EHOSTUNREACH = Some kRetry"
| "classifyAcceptErrno EOPNOTSUPP = Some kRetry"
| "classifyAcceptErrno ETIMEDOUT = Some kRetry"
| "classifyAcceptErrno EMFILE = Some kShed"
| "classifyAcceptErrno ENFILE = Some kShed"
| "classifyAcceptErrno EBADF = None"
| "classifyAcceptErrno ENOTSOCK = None"
| "classifyAcceptErrno EINVAL = None"
| "classifyAcceptErrno EFAULT = None"
| "classifyAcceptErrno ENOENT = Some kPause"
| "classifyAcceptErrno (EOTHER n) = Some kPause"

definition openReserve :: "'w sys_ops \<Rightarrow> 'w \<Rightarrow> UniqueFd \<times> 'w" where
  "openReserve sys w =
     (let (r, w) = sys_open_null sys w in (UniqueFd_make (case r of Inr n \<Rightarrow> n | Inl _ \<Rightarrow> - 1), w))"

definition shedPending :: "'w sys_ops \<Rightarrow> ('p, 'w) Server \<Rightarrow> bool \<times> ('p, 'w) Server" where
  "shedPending sys sv =
     (if \<not> UniqueFd_bool (reserveFd sv) then (False, sv)
      else let (reserve, w) = UniqueFd_reset sys (- 1) (reserveFd sv) (world sv);
               (r, w) = sys_accept4 sys (UniqueFd_get (acceptorFd sv)) w;
               shed = UniqueFd_make (case r of Inr n \<Rightarrow> n | Inl _ \<Rightarrow> - 1);
               validShed = UniqueFd_bool shed;
               (shed, w) = UniqueFd_reset sys (- 1) shed w;
               (fresh, w) = openReserve sys w;
               ((reserve, fresh), w) = UniqueFd_assign sys reserve fresh w
           in (validShed, sv\<lparr>reserveFd := reserve, world := w\<rparr>))"

definition pauseAccepting :: "'w sys_ops \<Rightarrow> ('p, 'w) Server \<Rightarrow> ('p, 'w) Server" where
  "pauseAccepting sys sv =
     (if acceptPaused sv then sv
      else case loop_modify sys (UniqueFd_get (acceptorFd sv)) HAcceptor 0 sv of
             (Some _, sv) \<Rightarrow> sv
           | (None, sv) \<Rightarrow> sv\<lparr>acceptPaused := True\<rparr>)"

definition resumeAccepting :: "'w sys_ops \<Rightarrow> ('p, 'w) Server \<Rightarrow> ('p, 'w) Server" where
  "resumeAccepting sys sv =
     (if \<not> acceptPaused sv then sv
      else let (fresh, w) = openReserve sys (world sv);
               ((reserve, fresh), w) = UniqueFd_assign sys (reserveFd sv) fresh w;
               sv = sv\<lparr>reserveFd := reserve, world := w\<rparr>
           in if \<not> UniqueFd_bool (reserveFd sv) then sv
              else case loop_modify sys (UniqueFd_get (acceptorFd sv)) HAcceptor EPOLLIN sv of
                     (Some _, sv) \<Rightarrow> sv
                   | (None, sv) \<Rightarrow> sv\<lparr>acceptPaused := False\<rparr>)"

definition handleAcceptFailure :: "'w sys_ops \<Rightarrow> errno \<Rightarrow> ('p, 'w) Server \<Rightarrow> (bool \<times> ('p, 'w) Server) option" where
  "handleAcceptFailure sys err sv =
     do { f \<leftarrow> classifyAcceptErrno err;
          case f of
            kDrained \<Rightarrow> Some (False, sv)
          | kRetry \<Rightarrow> Some (True, sv)
          | kShed \<Rightarrow>
              (let (shed, sv) = shedPending sys sv
               in if shed then Some (True, sv) else Some (False, pauseAccepting sys sv))
          | kPause \<Rightarrow> Some (False, pauseAccepting sys sv) }"

text \<open>\<open>connections_.emplace\<close>: a key that is taken drops the new object.\<close>

definition emplace :: "'w sys_ops \<Rightarrow> nat \<Rightarrow> ('p, 'w) Server \<Rightarrow> ('p, 'w) Server option" where
  "emplace sys i sv =
     do { c \<leftarrow> objs sv i;
          let fd = UniqueFd_get (connFd c);
          if connections sv fd = None then Some (sv\<lparr>connections := (connections sv)(fd \<mapsto> i)\<rparr>)
          else Connection_dtor sys i sv }"

partial_function (option) acceptPending :: "'w sys_ops \<Rightarrow> ('p, 'w) Server \<Rightarrow> ('p, 'w) Server option" where
  "acceptPending sys sv =
     (case sys_accept4 sys (UniqueFd_get (acceptorFd sv)) (world sv) of
        (Inl e, w) \<Rightarrow>
          do { (again, sv) \<leftarrow> handleAcceptFailure sys e (sv\<lparr>world := w\<rparr>);
               if again then acceptPending sys sv else Some sv }
      | (Inr n, w) \<Rightarrow>
          (case sys_nodelay sys n w of
             (Some _, w) \<Rightarrow> acceptPending sys (sv\<lparr>world := UniqueFd_dtor sys (UniqueFd_make n) w\<rparr>)
           | (None, w) \<Rightarrow>
               do { sv \<leftarrow> (case Connection_make sys (UniqueFd_make n) (sv\<lparr>world := w\<rparr>) of
                             (Inl e, sv) \<Rightarrow> Some sv
                           | (Inr i, sv) \<Rightarrow> emplace sys i sv);
                    acceptPending sys sv }))"

section \<open>The loop\<close>

fun onReadable :: "'p pool_ops \<Rightarrow> 'w sys_ops \<Rightarrow> handler \<Rightarrow> ('p, 'w) Server \<Rightarrow> ('p, 'w) Server option" where
  "onReadable ops sys HAcceptor sv = acceptPending sys sv"
| "onReadable ops sys (HConn i) sv = conn_onReadable ops sys i sv"

fun onWritable :: "'w sys_ops \<Rightarrow> handler \<Rightarrow> ('p, 'w) Server \<Rightarrow> ('p, 'w) Server option" where
  "onWritable sys HAcceptor sv = Some sv"
| "onWritable sys (HConn i) sv = conn_onWritable sys i sv"

definition dispatchEvent :: "'p pool_ops \<Rightarrow> 'w sys_ops \<Rightarrow> u32 \<times> handler \<Rightarrow> ('p, 'w) Server \<Rightarrow> ('p, 'w) Server option" where
  "dispatchEvent ops sys event sv =
     (case event of (events, io) \<Rightarrow>
        do { sv \<leftarrow> (if events AND (EPOLLIN OR EPOLLERR OR EPOLLHUP) \<noteq> 0 then onReadable ops sys io sv else Some sv);
             if events AND EPOLLOUT \<noteq> 0 then onWritable sys io sv else Some sv })"

fun dispatchEvents :: "'p pool_ops \<Rightarrow> 'w sys_ops \<Rightarrow> (u32 \<times> handler) list \<Rightarrow> ('p, 'w) Server \<Rightarrow> ('p, 'w) Server option" where
  "dispatchEvents ops sys [] sv = Some sv"
| "dispatchEvents ops sys (e # es) sv = do { sv \<leftarrow> dispatchEvent ops sys e sv; dispatchEvents ops sys es sv }"

fun destroyAll :: "'w sys_ops \<Rightarrow> nat list \<Rightarrow> ('p, 'w) Server \<Rightarrow> ('p, 'w) Server option" where
  "destroyAll sys [] sv = Some sv"
| "destroyAll sys (i # is) sv = do { sv \<leftarrow> Connection_dtor sys i sv; destroyAll sys is sv }"

definition destroyRetired :: "'w sys_ops \<Rightarrow> ('p, 'w) Server \<Rightarrow> ('p, 'w) Server option" where
  "destroyRetired sys sv = do { sv \<leftarrow> destroyAll sys (retired sv) sv; Some (sv\<lparr>retired := []\<rparr>) }"

definition onTick :: "'p pool_ops \<Rightarrow> 'w sys_ops \<Rightarrow> ('p, 'w) Server \<Rightarrow> ('p, 'w) Server option" where
  "onTick ops sys sv =
     do { sv \<leftarrow> destroyRetired sys sv;
          let sv = resumeAccepting sys sv;
          let (tNow, sv) = Server_now sys sv;
          require (i64 (tNow - lastSweepMs sv));
          if tNow - lastSweepMs sv \<ge> expireIntervalMs (cfg sv)
          then do { (r, st) \<leftarrow> activeExpireCycle ops tNow (expireSampleBuckets (cfg sv)) (store sv);
                    Some (sv\<lparr>store := st, lastSweepMs := tNow\<rparr>) }
          else Some sv }"

definition connectionCount :: "('p, 'w) Server \<Rightarrow> nat" where
  "connectionCount sv = card (dom (connections sv))"

definition loop_stop :: "('p, 'w) Server \<Rightarrow> ('p, 'w) Server" where
  "loop_stop sv = sv\<lparr>loop := (loop sv)\<lparr>stopRequested := True\<rparr>\<rparr>"

definition Server_stop :: "('p, 'w) Server \<Rightarrow> ('p, 'w) Server" where
  "Server_stop sv = loop_stop sv"

datatype loop_status = Running | Stopped | Threw errno

text \<open>One iteration of \<open>EventLoop::run\<close>; both ways out reset \<open>stopRequested_\<close>.\<close>

definition loop_tick :: "'p pool_ops \<Rightarrow> 'w sys_ops \<Rightarrow> ('p, 'w) Server \<Rightarrow> (loop_status \<times> ('p, 'w) Server) option" where
  "loop_tick ops sys sv =
     (if stopRequested (loop sv)
      then Some (Stopped, sv\<lparr>loop := (loop sv)\<lparr>stopRequested := False\<rparr>\<rparr>)
      else case sys_epoll_wait sys (UniqueFd_get (epollFd (loop sv))) kMaxEvents (expireIntervalMs (cfg sv)) (world sv) of
             (Inl e, w) \<Rightarrow>
               (if e = EINTR then Some (Running, sv\<lparr>world := w\<rparr>)
                else Some (Threw e, sv\<lparr>loop := (loop sv)\<lparr>stopRequested := False\<rparr>, world := w\<rparr>))
           | (Inr evs, w) \<Rightarrow>
               do { require (length evs \<le> kMaxEvents);
                    let sv = sv\<lparr>loop := (loop sv)\<lparr>tickCount := tickCount (loop sv) + 1\<rparr>, world := w\<rparr>;
                    sv \<leftarrow> dispatchEvents ops sys evs sv;
                    sv \<leftarrow> onTick ops sys sv;
                    Some (Running, sv) })"

text \<open>As many iterations as \<open>sigs\<close> has elements, each telling whether \<open>stop\<close> was called before the
  check of the flag; then the end of \<open>Server::run\<close> if the loop was stopped.\<close>

fun Server_run :: "'p pool_ops \<Rightarrow> 'w sys_ops \<Rightarrow> bool list \<Rightarrow> ('p, 'w) Server \<Rightarrow> (loop_status \<times> ('p, 'w) Server) option" where
  "Server_run ops sys [] sv = Some (Running, sv)"
| "Server_run ops sys (sig # sigs) sv =
     do { (st, sv) \<leftarrow> loop_tick ops sys (if sig then Server_stop sv else sv);
          case st of
            Running \<Rightarrow> Server_run ops sys sigs sv
          | Stopped \<Rightarrow> do { sv \<leftarrow> destroyRetired sys sv; Some (Stopped, sv) }
          | Threw e \<Rightarrow> Some (Threw e, sv) }"

section \<open>Construction and destruction\<close>

datatype startup_error = InvalidBind | SysError errno

definition EventLoop_make :: "'w sys_ops \<Rightarrow> 'w \<Rightarrow> (errno + EventLoop) \<times> 'w" where
  "EventLoop_make sys w =
     (case sys_epoll_create1 sys w of
        (Inl e, w) \<Rightarrow> (Inl e, w)
      | (Inr epfd, w) \<Rightarrow>
          let (u, w) = UniqueFd_reset sys epfd (UniqueFd_make (- 1)) w
          in (Inr \<lparr>epollFd = u, tickCount = 0, stopRequested = False\<rparr>, w))"

text \<open>\<open>htons\<close> is left out: \<open>sys_bind\<close> takes the port number.\<close>

definition openListener :: "'w sys_ops \<Rightarrow> ServerConfig \<Rightarrow> 'w \<Rightarrow> (startup_error + UniqueFd) \<times> 'w" where
  "openListener sys c w =
     (case sys_inet_pton sys (bindAddr c) of
        None \<Rightarrow> (Inl InvalidBind, w)
      | Some addr \<Rightarrow>
          (case sys_socket sys w of
             (Inl e, w) \<Rightarrow> (Inl (SysError e), w)
           | (Inr n, w) \<Rightarrow>
               let fd = UniqueFd_make n;
                   throwSys = \<lambda>e w. (Inl (SysError e), UniqueFd_dtor sys fd w)
               in (case sys_reuseaddr sys (UniqueFd_get fd) w of
                     (Some e, w) \<Rightarrow> throwSys e w
                   | (None, w) \<Rightarrow>
                       (case sys_bind sys (UniqueFd_get fd) addr (port c) w of
                          (Some e, w) \<Rightarrow> throwSys e w
                        | (None, w) \<Rightarrow>
                            (case sys_listen sys (UniqueFd_get fd) (backlog c) w of
                               (Some e, w) \<Rightarrow> throwSys e w
                             | (None, w) \<Rightarrow> (Inr fd, w))))))"

definition Acceptor_make :: "'w sys_ops \<Rightarrow> ('p, 'w) Server \<Rightarrow> startup_error option \<times> ('p, 'w) Server" where
  "Acceptor_make sys sv =
     (case openListener sys (cfg sv) (world sv) of
        (Inl e, w) \<Rightarrow> (Some e, sv\<lparr>world := w\<rparr>)
      | (Inr fd, w) \<Rightarrow>
          (case loop_add sys (UniqueFd_get fd) HAcceptor EPOLLIN (sv\<lparr>world := w\<rparr>) of
             (Some e, sv) \<Rightarrow> (Some (SysError e), sv\<lparr>world := UniqueFd_dtor sys fd (world sv)\<rparr>)
           | (None, sv) \<Rightarrow> (None, sv\<lparr>acceptorFd := fd\<rparr>)))"

definition Acceptor_dtor :: "'w sys_ops \<Rightarrow> ('p, 'w) Server \<Rightarrow> ('p, 'w) Server option" where
  "Acceptor_dtor sys sv =
     do { sv \<leftarrow> loop_remove sys (UniqueFd_get (acceptorFd sv)) sv;
          Some (sv\<lparr>world := UniqueFd_dtor sys (acceptorFd sv) (world sv)\<rparr>) }"

definition EventLoop_dtor :: "'w sys_ops \<Rightarrow> EventLoop \<Rightarrow> 'w \<Rightarrow> 'w" where
  "EventLoop_dtor sys l w = UniqueFd_dtor sys (epollFd l) w"

text \<open>The members are built in the order of their declaration; one that throws unwinds those before it.\<close>

definition Server_make :: "'p \<Rightarrow> u32 \<Rightarrow> u32 \<Rightarrow> 'p pool_ops \<Rightarrow> 'w sys_ops \<Rightarrow> ServerConfig \<Rightarrow> 'w \<Rightarrow>
    (startup_error \<times> (CharHeap \<times> 'p) \<times> 'w + ('p, 'w) Server) option" where
  "Server_make p rd1 rd2 ops sys c w =
     do { st \<leftarrow> Store_init p rd1 rd2 (storeCfg c);
          case EventLoop_make sys w of
            (Inl e, w) \<Rightarrow> do { m \<leftarrow> Store_dtor ops st; Some (Inl (SysError e, m, w)) }
          | (Inr l, w) \<Rightarrow>
              (case Acceptor_make sys
                      \<lparr>cfg = c, store = st, loop = l, acceptorFd = UniqueFd_make (- 1), connections = Map.empty,
                       retired = [], cachedNow = 0, lastSweepMs = 0, cachedTick = - 1, reserveFd = UniqueFd_make (- 1),
                       acceptPaused = False, objs = Map.empty, nextObj = 0, world = w\<rparr> of
                 (Some e, sv) \<Rightarrow>
                   do { let w = EventLoop_dtor sys l (world sv);
                        m \<leftarrow> Store_dtor ops (store sv);
                        Some (Inl (e, m, w)) }
               | (None, sv) \<Rightarrow>
                   let (reserve, w) = openReserve sys (world sv)
                   in Some (Inr (sv\<lparr>reserveFd := reserve, world := w\<rparr>))) }"

text \<open>Members are destroyed in reverse order, the store last; \<open>order\<close> is the iteration order of the hash map.\<close>

definition Server_dtor :: "'p pool_ops \<Rightarrow> 'w sys_ops \<Rightarrow> nat list \<Rightarrow> ('p, 'w) Server \<Rightarrow>
    ((CharHeap \<times> 'p) \<times> 'w) option" where
  "Server_dtor ops sys order sv =
     do { let sv = sv\<lparr>world := UniqueFd_dtor sys (reserveFd sv) (world sv)\<rparr>;
          sv \<leftarrow> destroyAll sys (retired sv) sv;
          sv \<leftarrow> destroyAll sys order sv;
          sv \<leftarrow> Acceptor_dtor sys sv;
          let w = EventLoop_dtor sys (loop sv) (world sv);
          m \<leftarrow> Store_dtor ops (store sv);
          Some (m, w) }"

end
