(* ===== verification/Net_Inv.thy ===== *)
theory Net_Inv
  imports Service Server
begin

text \<open>
  The invariant of the network layer: who owns which descriptor and which object, what the kernel
  watches, and how the buffers of an open connection are bounded. The lemmas are the transitions
  every operation is made of: a kernel call that changes neither descriptors nor interests, an
  update of an object, and closing it.
\<close>

section \<open>Definitions\<close>

abbreviation cfd :: "Connection \<Rightarrow> int" where
  "cfd c \<equiv> UniqueFd_get (connFd c)"

text \<open>The largest input that can still be incomplete, and the capacity that holds it and one more read.\<close>

definition kMaxPartial :: nat where
  "kMaxPartial = kMaxHeaderLength + 2 + kMaxArgs * bulk_room"

definition kMaxInput :: nat where
  "kMaxInput = 2 * (kMaxPartial + kDefaultCapacity)"

definition conn_ok :: "Connection \<Rightarrow> bool" where
  "conn_ok c \<longleftrightarrow> Buffer_inv (inbuf c) \<and> Buffer_inv (outbuf c) \<and>
     (cstate c = kOpen \<longrightarrow> length (contents (inbuf c)) \<le> kMaxPartial \<and> Buffer_capacity (inbuf c) \<le> kMaxInput)"

text \<open>Every object is sound, registered under its own handler, and owned by the map or, once closed,
  by the list of retired ones.\<close>

definition obj_inv :: "(int \<rightharpoonup> fd_kind) \<Rightarrow> (int \<rightharpoonup> u32 \<times> handler) \<Rightarrow> ('p, 'w) Server \<Rightarrow> nat \<Rightarrow> Connection \<Rightarrow> bool" where
  "obj_inv fs ws sv i c \<longleftrightarrow> i < nextObj sv \<and> conn_ok c \<and> cfd c \<noteq> - 1 \<and> fs (cfd c) = Some KStream \<and>
     ws (cfd c) = Some (interest c, HConn i) \<and>
     (if cstate c = kClosed then i \<in> set (retired sv) else connections sv (cfd c) = Some i)"

definition owners_inv :: "('p, 'w) Server \<Rightarrow> bool" where
  "owners_inv sv \<longleftrightarrow>
     (\<forall>g i. connections sv g = Some i \<longrightarrow> (\<exists>c. objs sv i = Some c \<and> cfd c = g \<and> cstate c \<noteq> kClosed)) \<and>
     distinct (retired sv) \<and> (\<forall>i \<in> set (retired sv). \<exists>c. objs sv i = Some c \<and> cstate c = kClosed)"

definition reserve_inv :: "(int \<rightharpoonup> fd_kind) \<Rightarrow> (int \<rightharpoonup> u32 \<times> handler) \<Rightarrow> int \<Rightarrow> bool" where
  "reserve_inv fs ws g \<longleftrightarrow> g = - 1 \<or> fs g = Some KNull \<and> ws g = None"

definition loop_inv :: "(int \<rightharpoonup> fd_kind) \<Rightarrow> (int \<rightharpoonup> u32 \<times> handler) \<Rightarrow> ('p, 'w) Server \<Rightarrow> bool" where
  "loop_inv fs ws sv \<longleftrightarrow>
     (let ep = UniqueFd_get (epollFd (loop sv)); ac = UniqueFd_get (acceptorFd sv) in
        ep \<noteq> - 1 \<and> fs ep = Some KEpoll \<and> ac \<noteq> - 1 \<and> fs ac = Some KListener \<and>
        ws ac = Some (if acceptPaused sv then 0 else EPOLLIN, HAcceptor) \<and>
        (\<forall>g ev h. ws g = Some (ev, h) \<longrightarrow> g = ac \<and> h = HAcceptor \<or> (\<exists>i c. h = HConn i \<and> objs sv i = Some c \<and> cfd c = g)))"

text \<open>The descriptors of the server; all others are those of \<open>base\<close>.\<close>

definition conn_fds :: "('p, 'w) Server \<Rightarrow> int set" where
  "conn_fds sv = {g. \<exists>i c. objs sv i = Some c \<and> cfd c = g}"

definition owned_fds :: "('p, 'w) Server \<Rightarrow> int set" where
  "owned_fds sv = {UniqueFd_get (epollFd (loop sv)), UniqueFd_get (acceptorFd sv)} \<union>
     ({UniqueFd_get (reserveFd sv)} - {- 1}) \<union> conn_fds sv"

definition base_inv :: "(int \<rightharpoonup> fd_kind) \<Rightarrow> (int \<rightharpoonup> fd_kind) \<Rightarrow> ('p, 'w) Server \<Rightarrow> bool" where
  "base_inv base fs sv \<longleftrightarrow> (\<forall>g. if g \<in> owned_fds sv then base g = None else fs g = base g)"

definition time_inv :: "('p, 'w) Server \<Rightarrow> bool" where
  "time_inv sv \<longleftrightarrow> 0 \<le> lastSweepMs sv \<and> lastSweepMs sv \<le> INT64_MAX \<and>
     (clock_ok (cachedNow sv) \<or> cachedTick sv \<noteq> tickCount (loop sv))"

definition wires_inv :: "(int \<rightharpoonup> fd_kind) \<Rightarrow> (int \<rightharpoonup> fd_kind) \<Rightarrow> (int \<rightharpoonup> u32 \<times> handler) \<Rightarrow> ('p, 'w) Server \<Rightarrow> bool" where
  "wires_inv base fs ws sv \<longleftrightarrow> (\<forall>i c. objs sv i = Some c \<longrightarrow> obj_inv fs ws sv i c) \<and> owners_inv sv \<and> loop_inv fs ws sv \<and>
     reserve_inv fs ws (UniqueFd_get (reserveFd sv)) \<and> base_inv base fs sv"

definition net_inv :: "('p \<Rightarrow> addr set) \<Rightarrow> ('p \<Rightarrow> bool) \<Rightarrow> ('w \<Rightarrow> int \<rightharpoonup> fd_kind) \<Rightarrow> ('w \<Rightarrow> int \<rightharpoonup> u32 \<times> handler) \<Rightarrow>
    (int \<rightharpoonup> fd_kind) \<Rightarrow> ('p, 'w) Server \<Rightarrow> bool" where
  "net_inv live pool_inv fds watched base sv \<longleftrightarrow>
     wires_inv base (fds (world sv)) (watched (world sv)) sv \<and> Store_inv live pool_inv (store sv) \<and> time_inv sv"

text \<open>What a handler leaves alone: no object is destroyed, the loop goes on as it was.\<close>

definition later :: "('w \<Rightarrow> nat) \<Rightarrow> ('p, 'w) Server \<Rightarrow> ('p, 'w) Server \<Rightarrow> bool" where
  "later pending sv sv' \<longleftrightarrow> dom (objs sv) \<subseteq> dom (objs sv') \<and> cfg sv' = cfg sv \<and> loop sv' = loop sv \<and>
     pending (world sv') \<le> pending (world sv)"

lemma later_refl [simp]: "later pending sv sv"
  by (simp add: later_def)

lemma later_trans: "later pending sv sv' \<Longrightarrow> later pending sv' sv'' \<Longrightarrow> later pending sv sv''"
  by (auto simp: later_def)

section \<open>Transitions\<close>

lemma get_make [simp]: "UniqueFd_get (UniqueFd_make n) = n"
  by (simp add: UniqueFd_get_def UniqueFd_make_def)

lemma conn_fds_ran: "conn_fds sv = (\<lambda>c. cfd c) ` ran (objs sv)"
  by (auto simp: conn_fds_def ran_def)

lemma conn_fds_put:
  assumes "objs sv i = Some c" "connFd c' = connFd c"
  shows "conn_fds (put_conn i c' sv) = conn_fds sv"
proof (rule set_eqI)
  fix g
  show "g \<in> conn_fds (put_conn i c' sv) \<longleftrightarrow> g \<in> conn_fds sv"
  proof (cases "g = cfd c")
    case True
    then show ?thesis using assms by (auto simp: conn_fds_def)
  next
    case False
    then show ?thesis using assms by (auto simp: conn_fds_def) (metis option.inject)
  qed
qed

lemma wires_obj:
  assumes "wires_inv base fs ws sv" "objs sv i = Some c"
  shows "i < nextObj sv" "conn_ok c" "cfd c \<noteq> - 1" "fs (cfd c) = Some KStream" "ws (cfd c) = Some (interest c, HConn i)"
    "cstate c = kClosed \<Longrightarrow> i \<in> set (retired sv)" "cstate c \<noteq> kClosed \<Longrightarrow> connections sv (cfd c) = Some i"
    "base (cfd c) = None"
proof -
  have "cfd c \<in> owned_fds sv" using assms(2) by (auto simp: owned_fds_def conn_fds_def)
  then show "base (cfd c) = None" using assms by (auto simp: wires_inv_def base_inv_def)
qed (use assms in \<open>auto simp: wires_inv_def obj_inv_def\<close>)

lemma wires_loop:
  assumes "wires_inv base fs ws sv"
  shows "UniqueFd_get (epollFd (loop sv)) \<noteq> - 1" "fs (UniqueFd_get (epollFd (loop sv))) = Some KEpoll"
    "UniqueFd_get (acceptorFd sv) \<noteq> - 1" "fs (UniqueFd_get (acceptorFd sv)) = Some KListener"
    "ws (UniqueFd_get (acceptorFd sv)) = Some (if acceptPaused sv then 0 else EPOLLIN, HAcceptor)"
  using assms by (simp_all add: wires_inv_def loop_inv_def Let_def)

lemma wires_owner:
  assumes "wires_inv base fs ws sv"
  shows "connections sv g = Some i \<Longrightarrow> \<exists>c. objs sv i = Some c \<and> cfd c = g \<and> cstate c \<noteq> kClosed"
    and "i \<in> set (retired sv) \<Longrightarrow> \<exists>c. objs sv i = Some c \<and> cstate c = kClosed"
    and "distinct (retired sv)"
    and "ws g = Some (ev, h) \<Longrightarrow> g = UniqueFd_get (acceptorFd sv) \<and> h = HAcceptor \<or>
      (\<exists>i c. h = HConn i \<and> objs sv i = Some c \<and> cfd c = g)"
  using assms by (simp_all add: wires_inv_def owners_inv_def loop_inv_def Let_def)

text \<open>Two objects never share a descriptor.\<close>

lemma wires_inj:
  assumes "wires_inv base fs ws sv" "objs sv i = Some c" "objs sv j = Some d" "cfd d = cfd c"
  shows "j = i"
  using wires_obj(5) [OF assms(1,2)] wires_obj(5) [OF assms(1,3)] assms(4) by simp

lemma wiresI:
  assumes "\<And>i c. objs sv i = Some c \<Longrightarrow> obj_inv fs ws sv i c"
    and "\<And>g i. connections sv g = Some i \<Longrightarrow> \<exists>c. objs sv i = Some c \<and> cfd c = g \<and> cstate c \<noteq> kClosed"
    and "distinct (retired sv)" "\<And>i. i \<in> set (retired sv) \<Longrightarrow> \<exists>c. objs sv i = Some c \<and> cstate c = kClosed"
    and "UniqueFd_get (epollFd (loop sv)) \<noteq> - 1" "fs (UniqueFd_get (epollFd (loop sv))) = Some KEpoll"
    and "UniqueFd_get (acceptorFd sv) \<noteq> - 1" "fs (UniqueFd_get (acceptorFd sv)) = Some KListener"
    and "ws (UniqueFd_get (acceptorFd sv)) = Some (if acceptPaused sv then 0 else EPOLLIN, HAcceptor)"
    and "\<And>g ev h. ws g = Some (ev, h) \<Longrightarrow> g = UniqueFd_get (acceptorFd sv) \<and> h = HAcceptor \<or>
      (\<exists>i c. h = HConn i \<and> objs sv i = Some c \<and> cfd c = g)"
    and "reserve_inv fs ws (UniqueFd_get (reserveFd sv))" "base_inv base fs sv"
  shows "wires_inv base fs ws sv"
  using assms by (simp add: wires_inv_def owners_inv_def loop_inv_def Let_def)

lemma watcher_kept:
  assumes "wires_inv base fs ws sv" "ws g = Some (ev, h)" "acceptorFd sv' = acceptorFd sv"
    and "\<And>j d. objs sv j = Some d \<Longrightarrow> cfd d = g \<Longrightarrow> \<exists>d'. objs sv' j = Some d' \<and> cfd d' = cfd d"
  shows "g = UniqueFd_get (acceptorFd sv') \<and> h = HAcceptor \<or> (\<exists>i c. h = HConn i \<and> objs sv' i = Some c \<and> cfd c = g)"
  using wires_owner(4) [OF assms(1,2)] assms(3,4) by metis

text \<open>An update of one object that keeps its descriptor and does not close it.\<close>

lemma wires_put:
  assumes inv: "wires_inv base fs ws sv" and i: "objs sv i = Some c"
    and c': "connFd c' = connFd c" "interest c' = interest c" "cstate c' = kClosed \<longleftrightarrow> cstate c = kClosed" "conn_ok c'"
  shows "wires_inv base fs ws (put_conn i c' sv)"
proof -
  have kept: "\<exists>d'. objs (put_conn i c' sv) j = Some d' \<and> cfd d' = cfd d \<and> (cstate d' = kClosed \<longleftrightarrow> cstate d = kClosed)"
    if "objs sv j = Some d" for j d
    using that i c' by (cases "j = i") auto
  have owned: "owned_fds (put_conn i c' sv) = owned_fds sv"
    using conn_fds_put [of sv i c c'] i c'(1) by (simp add: owned_fds_def)
  show ?thesis
  proof (rule wiresI)
    fix j d
    assume "objs (put_conn i c' sv) j = Some d"
    then show "obj_inv fs ws (put_conn i c' sv) j d"
      using inv i c' by (cases "j = i") (auto simp: wires_inv_def obj_inv_def)
  next
    fix g j
    assume "connections (put_conn i c' sv) g = Some j"
    then show "\<exists>d. objs (put_conn i c' sv) j = Some d \<and> cfd d = g \<and> cstate d \<noteq> kClosed"
      using wires_owner(1) [OF inv, of g j] kept by (metis put_conn_simps(6))
  next
    fix j
    assume "j \<in> set (retired (put_conn i c' sv))"
    then show "\<exists>d. objs (put_conn i c' sv) j = Some d \<and> cstate d = kClosed"
      using wires_owner(2) [OF inv, of j] kept by (metis put_conn_simps(7))
  next
    fix g ev h
    assume "ws g = Some (ev, h)"
    then show "g = UniqueFd_get (acceptorFd (put_conn i c' sv)) \<and> h = HAcceptor \<or>
        (\<exists>j d. h = HConn j \<and> objs (put_conn i c' sv) j = Some d \<and> cfd d = g)"
      using wires_owner(4) [OF inv, of g ev h] kept by (metis put_conn_simps(8))
  next
    show "base_inv base fs (put_conn i c' sv)" unfolding base_inv_def owned using inv by (simp add: wires_inv_def base_inv_def)
  qed (use wires_loop [OF inv] wires_owner(3) [OF inv] inv in \<open>simp_all add: wires_inv_def\<close>)
qed

text \<open>A change of the interest of one object, in the kernel and in the object.\<close>

lemma wires_interest:
  assumes inv: "wires_inv base fs ws sv" and i: "objs sv i = Some c"
  shows "wires_inv base fs (ws(cfd c \<mapsto> (ev, HConn i))) (put_conn i (c\<lparr>interest := ev\<rparr>) sv)"
proof -
  let ?c = "c\<lparr>interest := ev\<rparr>" and ?sv = "put_conn i (c\<lparr>interest := ev\<rparr>) sv" and ?ws = "ws(cfd c \<mapsto> (ev, HConn i))"
  have kept: "\<exists>d'. objs ?sv j = Some d' \<and> cfd d' = cfd d \<and> cstate d' = cstate d" if "objs sv j = Some d" for j d
    using that i by (cases "j = i") auto
  have owned: "owned_fds ?sv = owned_fds sv"
    using conn_fds_put [of sv i c ?c] i by (simp add: owned_fds_def)
  have kind: "fs (cfd c) = Some KStream" using wires_obj(4) [OF inv i] .
  show ?thesis
  proof (rule wiresI)
    fix j d
    assume d: "objs ?sv j = Some d"
    show "obj_inv fs ?ws ?sv j d"
    proof (cases "j = i")
      case True
      then show ?thesis using d wires_obj [OF inv i] by (auto simp: obj_inv_def conn_ok_def)
    next
      case False
      then have "objs sv j = Some d" using d by simp
      moreover from this have "cfd d \<noteq> cfd c" using wires_inj [OF inv i] False by blast
      ultimately show ?thesis using inv by (simp add: wires_inv_def obj_inv_def)
    qed
  next
    fix g j
    assume "connections ?sv g = Some j"
    then show "\<exists>d. objs ?sv j = Some d \<and> cfd d = g \<and> cstate d \<noteq> kClosed"
      using wires_owner(1) [OF inv, of g j] kept by (metis put_conn_simps(6))
  next
    fix j
    assume "j \<in> set (retired ?sv)"
    then show "\<exists>d. objs ?sv j = Some d \<and> cstate d = kClosed"
      using wires_owner(2) [OF inv, of j] kept by (metis put_conn_simps(7))
  next
    fix g e h
    assume "?ws g = Some (e, h)"
    then show "g = UniqueFd_get (acceptorFd ?sv) \<and> h = HAcceptor \<or> (\<exists>j d. h = HConn j \<and> objs ?sv j = Some d \<and> cfd d = g)"
    proof (cases "g = cfd c")
      case True
      moreover have "objs ?sv i = Some ?c" by simp
      ultimately show ?thesis using \<open>?ws g = Some (e, h)\<close> by force
    next
      case False
      then have "ws g = Some (e, h)" using \<open>?ws g = Some (e, h)\<close> by simp
      then show ?thesis using wires_owner(4) [OF inv] kept by (metis put_conn_simps(8))
    qed
  next
    show "base_inv base fs ?sv" unfolding base_inv_def owned using inv by (simp add: wires_inv_def base_inv_def)
  qed (use wires_loop [OF inv] wires_owner(3) [OF inv] inv kind in \<open>auto simp: wires_inv_def reserve_inv_def\<close>)
qed

text \<open>Closing: the object moves from the map to the retired ones.\<close>

lemma wires_close:
  assumes inv: "wires_inv base fs ws sv" and i: "objs sv i = Some c" and st: "cstate c \<noteq> kClosed"
  shows "wires_inv base fs ws ((put_conn i (c\<lparr>cstate := kClosed\<rparr>) sv)
     \<lparr>retired := retired sv @ [i], connections := (connections sv)(cfd c := None)\<rparr>)"
    (is "wires_inv base fs ws ?sv")
proof -
  let ?c = "c\<lparr>cstate := kClosed\<rparr>"
  have kept: "\<exists>d'. objs ?sv j = Some d' \<and> cfd d' = cfd d" if "objs sv j = Some d" for j d
    using that i by (cases "j = i") auto
  have owned: "owned_fds ?sv = owned_fds sv"
    using conn_fds_put [of sv i c ?c] i by (simp add: owned_fds_def conn_fds_def)
  have out: "i \<notin> set (retired sv)" using wires_owner(2) [OF inv, of i] i st by auto
  show ?thesis
  proof (rule wiresI)
    fix j d
    assume d: "objs ?sv j = Some d"
    show "obj_inv fs ws ?sv j d"
    proof (cases "j = i")
      case True
      then show ?thesis using d wires_obj [OF inv i] by (auto simp: obj_inv_def conn_ok_def)
    next
      case False
      then have "objs sv j = Some d" using d by simp
      moreover from this have "cfd d \<noteq> cfd c" using wires_inj [OF inv i] False by blast
      ultimately show ?thesis using inv by (auto simp: wires_inv_def obj_inv_def)
    qed
  next
    fix g j
    assume "connections ?sv g = Some j"
    then have "g \<noteq> cfd c" "connections sv g = Some j" by (auto split: if_splits)
    then show "\<exists>d. objs ?sv j = Some d \<and> cfd d = g \<and> cstate d \<noteq> kClosed"
      using wires_owner(1) [OF inv, of g j] i by (cases "j = i") auto
  next
    fix j
    assume "j \<in> set (retired ?sv)"
    then show "\<exists>d. objs ?sv j = Some d \<and> cstate d = kClosed"
      using wires_owner(2) [OF inv, of j] by (cases "j = i") simp_all
  next
    fix g e h
    assume "ws g = Some (e, h)"
    then show "g = UniqueFd_get (acceptorFd ?sv) \<and> h = HAcceptor \<or> (\<exists>j d. h = HConn j \<and> objs ?sv j = Some d \<and> cfd d = g)"
      by (rule watcher_kept [OF inv]) (simp, erule kept)
  next
    show "base_inv base fs ?sv" unfolding base_inv_def owned using inv by (simp add: wires_inv_def base_inv_def)
  qed (use wires_loop [OF inv] wires_owner(3) [OF inv] inv out in \<open>simp_all add: wires_inv_def\<close>)
qed

section \<open>Descriptors coming and going\<close>

lemma wires_owned:
  assumes inv: "wires_inv base fs ws sv" and g: "g \<in> owned_fds sv"
  shows "fs g \<noteq> None" "base g = None" "g \<noteq> - 1"
proof -
  show "fs g \<noteq> None" "g \<noteq> - 1"
    using g wires_loop [OF inv] wires_obj(3,4) [OF inv] inv by (auto simp: owned_fds_def conn_fds_def wires_inv_def reserve_inv_def)
  have "base_inv base fs sv" using inv by (simp add: wires_inv_def)
  then show "base g = None" using g unfolding base_inv_def by metis
qed

lemma wires_unowned:
  assumes "wires_inv base fs ws sv" "g \<notin> owned_fds sv"
  shows "fs g = base g" "ws g = None"
proof -
  have "base_inv base fs sv" using assms(1) by (simp add: wires_inv_def)
  then show "fs g = base g" using assms(2) unfolding base_inv_def by metis
  have "g \<in> owned_fds sv" if "ws g = Some (ev, h)" for ev h
    using wires_owner(4) [OF assms(1) that] by (auto simp: owned_fds_def conn_fds_def)
  then show "ws g = None" using assms(2) by (cases "ws g") auto
qed

text \<open>Kernel tables that agree on the descriptors of the server.\<close>

lemma wires_agree:
  assumes inv: "wires_inv base fs ws sv"
    and agree: "\<And>g. g \<in> owned_fds sv \<Longrightarrow> fs' g = fs g \<and> ws' g = ws g \<and> base' g = base g"
    and rest: "\<And>g. g \<notin> owned_fds sv \<Longrightarrow> fs' g = base' g \<and> ws' g = None"
  shows "wires_inv base' fs' ws' sv"
proof (rule wiresI)
  have ep: "UniqueFd_get (epollFd (loop sv)) \<in> owned_fds sv" and ac: "UniqueFd_get (acceptorFd sv) \<in> owned_fds sv"
    by (simp_all add: owned_fds_def)
  show "fs' (UniqueFd_get (epollFd (loop sv))) = Some KEpoll" "fs' (UniqueFd_get (acceptorFd sv)) = Some KListener"
    "ws' (UniqueFd_get (acceptorFd sv)) = Some (if acceptPaused sv then 0 else EPOLLIN, HAcceptor)"
    using agree [OF ep] agree [OF ac] wires_loop [OF inv] by simp_all
next
  fix i c
  assume c: "objs sv i = Some c"
  then have "cfd c \<in> owned_fds sv" by (auto simp: owned_fds_def conn_fds_def)
  then show "obj_inv fs' ws' sv i c" using agree wires_obj [OF inv c] by (auto simp: obj_inv_def)
next
  fix g ev h
  assume g: "ws' g = Some (ev, h)"
  then have "ws g = Some (ev, h)" using agree rest by (metis option.distinct(1))
  from wires_owner(4) [OF inv this]
  show "g = UniqueFd_get (acceptorFd sv) \<and> h = HAcceptor \<or> (\<exists>i c. h = HConn i \<and> objs sv i = Some c \<and> cfd c = g)" .
next
  let ?r = "UniqueFd_get (reserveFd sv)"
  have "reserve_inv fs ws ?r" using inv by (simp add: wires_inv_def)
  moreover have "?r = - 1 \<or> ?r \<in> owned_fds sv" by (simp add: owned_fds_def)
  ultimately show "reserve_inv fs' ws' ?r" using agree by (auto simp: reserve_inv_def)
next
  show "base_inv base' fs' sv"
    unfolding base_inv_def using agree rest wires_owned(2) [OF inv] by (metis (full_types))
qed (use wires_owner [OF inv] wires_loop [OF inv] in blast)+

text \<open>A descriptor outside the server is opened or closed.\<close>

lemma wires_open:
  assumes inv: "wires_inv base fs ws sv" and n: "fs n = None" "ws n = None"
  shows "wires_inv (base(n \<mapsto> k)) (fs(n \<mapsto> k)) ws sv"
proof (rule wires_agree [OF inv])
  fix g
  show "g \<in> owned_fds sv \<Longrightarrow> (fs(n \<mapsto> k)) g = fs g \<and> ws g = ws g \<and> (base(n \<mapsto> k)) g = base g"
    using wires_owned(1) [OF inv, of g] n by auto
  show "g \<notin> owned_fds sv \<Longrightarrow> (fs(n \<mapsto> k)) g = (base(n \<mapsto> k)) g \<and> ws g = None"
    using wires_unowned [OF inv] by simp
qed

lemma wires_shut:
  assumes inv: "wires_inv base fs ws sv" and n: "base n \<noteq> None"
  shows "wires_inv (base(n := None)) (fs(n := None)) (ws(n := None)) sv"
proof (rule wires_agree [OF inv])
  fix g
  show "g \<in> owned_fds sv \<Longrightarrow> (fs(n := None)) g = fs g \<and> (ws(n := None)) g = ws g \<and> (base(n := None)) g = base g"
    using wires_owned(2) [OF inv, of g] n by auto
  show "g \<notin> owned_fds sv \<Longrightarrow> (fs(n := None)) g = (base(n := None)) g \<and> (ws(n := None)) g = None"
    using wires_unowned [OF inv] by simp
qed

text \<open>The server takes over an outside descriptor as its reserve, or gives the reserve up.\<close>

lemma wires_take_reserve:
  assumes inv: "wires_inv base fs ws sv" and r: "UniqueFd_get (reserveFd sv) = - 1"
    and n: "base n = Some KNull" "n \<noteq> - 1"
  shows "wires_inv (base(n := None)) fs ws (sv\<lparr>reserveFd := UniqueFd_make n\<rparr>)"
proof -
  have out: "n \<notin> owned_fds sv" using wires_owned(2) [OF inv, of n] n by auto
  note null = wires_unowned [OF inv out]
  have "owned_fds (sv\<lparr>reserveFd := UniqueFd_make n\<rparr>) = insert n (owned_fds sv)"
    using r n(2) by (auto simp: owned_fds_def conn_fds_def)
  moreover have "base_inv base fs sv" using inv by (simp add: wires_inv_def)
  ultimately have "base_inv (base(n := None)) fs (sv\<lparr>reserveFd := UniqueFd_make n\<rparr>)"
    by (auto simp: base_inv_def)
  then show ?thesis
    using inv n null by (simp add: wires_inv_def obj_inv_def owners_inv_def loop_inv_def Let_def reserve_inv_def)
qed

lemma wires_give_reserve:
  assumes inv: "wires_inv base fs ws sv" and g: "g = UniqueFd_get (reserveFd sv)" "g \<noteq> - 1"
  shows "wires_inv (base(g \<mapsto> KNull)) fs ws (sv\<lparr>reserveFd := UniqueFd_make (- 1)\<rparr>)"
proof -
  have kind: "fs g = Some KNull" using inv g by (simp add: wires_inv_def reserve_inv_def)
  have others: "g \<noteq> UniqueFd_get (epollFd (loop sv))" "g \<noteq> UniqueFd_get (acceptorFd sv)" "g \<notin> conn_fds sv"
    using kind wires_loop [OF inv] wires_obj(4) [OF inv] by (auto simp: conn_fds_def)
  then have "owned_fds (sv\<lparr>reserveFd := UniqueFd_make (- 1)\<rparr>) = owned_fds sv - {g}"
    using g by (auto simp: owned_fds_def conn_fds_def)
  moreover have "base_inv base fs sv" using inv by (simp add: wires_inv_def)
  ultimately have "base_inv (base(g \<mapsto> KNull)) fs (sv\<lparr>reserveFd := UniqueFd_make (- 1)\<rparr>)"
    using kind by (auto simp: base_inv_def)
  then show ?thesis
    using inv by (simp add: wires_inv_def obj_inv_def owners_inv_def loop_inv_def Let_def reserve_inv_def)
qed

text \<open>The listener's interest.\<close>

lemma wires_pause:
  assumes inv: "wires_inv base fs ws sv" and ac: "UniqueFd_get (acceptorFd sv) = ac"
  shows "wires_inv base fs (ws(ac \<mapsto> (if b then 0 else EPOLLIN, HAcceptor))) (sv\<lparr>acceptPaused := b\<rparr>)"
    (is "wires_inv base fs ?ws ?sv")
proof (rule wiresI)
  have kind: "fs ac = Some KListener" using wires_loop(4) [OF inv] ac by simp
  show "reserve_inv fs ?ws (UniqueFd_get (reserveFd ?sv))" using inv kind by (auto simp: wires_inv_def reserve_inv_def)
  have "owned_fds ?sv = owned_fds sv" by (simp add: owned_fds_def conn_fds_def)
  then show "base_inv base fs ?sv" using inv by (simp add: wires_inv_def base_inv_def)
  fix i c
  assume c: "objs ?sv i = Some c"
  then have "cfd c \<noteq> ac" using wires_obj(4) [OF inv, of i c] kind by auto
  then show "obj_inv fs ?ws ?sv i c" using c inv by (simp add: wires_inv_def obj_inv_def)
next
  fix g ev h
  assume "?ws g = Some (ev, h)"
  then show "g = UniqueFd_get (acceptorFd ?sv) \<and> h = HAcceptor \<or> (\<exists>i c. h = HConn i \<and> objs ?sv i = Some c \<and> cfd c = g)"
    using wires_owner(4) [OF inv, of g ev h] ac by (cases "g = ac") simp_all
qed (use wires_loop [OF inv] wires_owner [OF inv] ac in simp_all)

section \<open>Objects coming and going\<close>

text \<open>A new object takes over an outside descriptor.\<close>

lemma wires_new:
  assumes inv: "wires_inv base fs ws sv" and n: "base n = Some KStream" "n \<noteq> - 1"
    and c: "connFd c = UniqueFd_make n" "cstate c = kOpen" "conn_ok c"
  shows "wires_inv (base(n := None)) fs (ws(n \<mapsto> (interest c, HConn (nextObj sv))))
     (sv\<lparr>connections := (connections sv)(n \<mapsto> nextObj sv), objs := (objs sv)(nextObj sv \<mapsto> c), nextObj := nextObj sv + 1\<rparr>)"
    (is "wires_inv ?base fs ?ws ?sv")
proof -
  have out: "n \<notin> owned_fds sv" using wires_owned(2) [OF inv, of n] n by auto
  note free = wires_unowned [OF inv out]
  have old: "i \<noteq> nextObj sv \<and> cfd d \<noteq> n" if "objs sv i = Some d" for i d
    using wires_obj(1) [OF inv that] out that by (auto simp: owned_fds_def conn_fds_def)
  have fresh: "objs sv (nextObj sv) = None" using old by (cases "objs sv (nextObj sv)") auto
  have kept: "objs ?sv i = Some d" if "objs sv i = Some d" for i d using that old by simp
  have loop: "UniqueFd_get (epollFd (loop sv)) \<noteq> n" "UniqueFd_get (acceptorFd sv) \<noteq> n"
    using out by (auto simp: owned_fds_def)
  have "conn_fds ?sv = insert n (conn_fds sv)" using c(1) fresh by (simp add: conn_fds_ran)
  then have owned: "owned_fds ?sv = insert n (owned_fds sv)" by (auto simp: owned_fds_def)
  show ?thesis
  proof (rule wiresI)
    fix i d
    assume d: "objs ?sv i = Some d"
    show "obj_inv fs ?ws ?sv i d"
    proof (cases "i = nextObj sv")
      case True
      then show ?thesis using d c n free by (simp add: obj_inv_def)
    next
      case False
      then have "objs sv i = Some d" using d by simp
      then show ?thesis using old [of i d] wires_obj [OF inv, of i d] by (auto simp: obj_inv_def)
    qed
  next
    fix g i
    assume "connections ?sv g = Some i"
    then show "\<exists>d. objs ?sv i = Some d \<and> cfd d = g \<and> cstate d \<noteq> kClosed"
      using wires_owner(1) [OF inv, of g i] c fresh by (cases "g = n") auto
  next
    fix i
    assume "i \<in> set (retired ?sv)"
    then show "\<exists>d. objs ?sv i = Some d \<and> cstate d = kClosed"
      using wires_owner(2) [OF inv, of i] fresh by auto
  next
    fix g ev h
    assume g: "?ws g = Some (ev, h)"
    show "g = UniqueFd_get (acceptorFd ?sv) \<and> h = HAcceptor \<or> (\<exists>i d. h = HConn i \<and> objs ?sv i = Some d \<and> cfd d = g)"
    proof (cases "g = n")
      case True
      then show ?thesis
        by (intro disjI2 exI [of _ "nextObj sv"] exI [of _ c]) (use g c(1) in simp)
    next
      case False
      then have "ws g = Some (ev, h)" using g by simp
      then show ?thesis by (rule watcher_kept [OF inv]) (simp, blast dest: kept)
    qed
  next
    have "base_inv base fs sv" using inv by (simp add: wires_inv_def)
    then show "base_inv ?base fs ?sv" unfolding base_inv_def owned by auto
  next
    show "reserve_inv fs ?ws (UniqueFd_get (reserveFd ?sv))"
      using inv n free by (auto simp: wires_inv_def reserve_inv_def)
  qed (use wires_loop [OF inv] wires_owner(3) [OF inv] loop in simp_all)
qed

text \<open>An object is destroyed: its descriptor is closed, nobody owns it any more.\<close>

lemma wires_destroy:
  assumes inv: "wires_inv base fs ws sv" and i: "objs sv i = Some c" and g: "g = cfd c"
  shows "wires_inv base (fs(g := None)) (ws(g := None))
     (sv\<lparr>connections := (connections sv)(g := None), retired := removeAll i (retired sv), objs := (objs sv)(i := None)\<rparr>)"
    (is "wires_inv base ?fs ?ws ?sv")
proof -
  note obj = wires_obj [OF inv i, folded g]
  have other: "cfd d \<noteq> g" if "objs sv j = Some d" "j \<noteq> i" for j d
    using wires_inj [OF inv i that(1)] that(2) g by blast
  have loop: "UniqueFd_get (epollFd (loop sv)) \<noteq> g" "UniqueFd_get (acceptorFd sv) \<noteq> g" "UniqueFd_get (reserveFd sv) \<noteq> g"
    using obj(3,4) wires_loop [OF inv] inv by (auto simp: wires_inv_def reserve_inv_def)
  have "conn_fds ?sv = conn_fds sv - {g}" using i g other by (auto simp: conn_fds_def) (metis option.inject)+
  then have owned: "owned_fds ?sv = owned_fds sv - {g}" using loop by (auto simp: owned_fds_def)
  show ?thesis
  proof (rule wiresI)
    fix j d
    assume "objs ?sv j = Some d"
    then have j: "objs sv j = Some d" "j \<noteq> i" by (auto split: if_splits)
    then show "obj_inv ?fs ?ws ?sv j d" using wires_obj [OF inv j(1)] other by (auto simp: obj_inv_def)
  next
    fix f j
    assume "connections ?sv f = Some j"
    then have "f \<noteq> g" "connections sv f = Some j" by (auto split: if_splits)
    then show "\<exists>d. objs ?sv j = Some d \<and> cfd d = f \<and> cstate d \<noteq> kClosed"
      using wires_owner(1) [OF inv, of f j] i g by auto
  next
    fix j
    assume "j \<in> set (retired ?sv)"
    then show "\<exists>d. objs ?sv j = Some d \<and> cstate d = kClosed"
      using wires_owner(2) [OF inv, of j] by auto
  next
    fix f ev h
    assume "?ws f = Some (ev, h)"
    then have f: "f \<noteq> g" "ws f = Some (ev, h)" by (auto split: if_splits)
    show "f = UniqueFd_get (acceptorFd ?sv) \<and> h = HAcceptor \<or> (\<exists>j d. h = HConn j \<and> objs ?sv j = Some d \<and> cfd d = f)"
      by (rule watcher_kept [OF inv f(2)]) (use f i g in auto)
  next
    have "base_inv base fs sv" using inv by (simp add: wires_inv_def)
    then show "base_inv base ?fs ?sv" unfolding base_inv_def owned using obj(8) by auto
  next
    show "reserve_inv ?fs ?ws (UniqueFd_get (reserveFd ?sv))"
      using inv loop by (auto simp: wires_inv_def reserve_inv_def)
  qed (use wires_loop [OF inv] wires_owner(3) [OF inv] loop in \<open>simp_all add: distinct_removeAll\<close>)
qed

end
