(* ===== verification/Connection_Inv.thy ===== *)
theory Connection_Inv
  imports Net_Inv
begin

text \<open>
  The operations of a connection keep the invariant of the network layer, always return, and are
  turns of the service. The locale \<open>server_env\<close> joins the interfaces of the pool and of the kernel.
\<close>

section \<open>Frames\<close>

lemma wires_frame [simp]:
  "wires_inv base fs ws (sv\<lparr>world := w\<rparr>) \<longleftrightarrow> wires_inv base fs ws sv"
  "wires_inv base fs ws (sv\<lparr>store := s\<rparr>) \<longleftrightarrow> wires_inv base fs ws sv"
  "wires_inv base fs ws (sv\<lparr>cachedNow := t\<rparr>) \<longleftrightarrow> wires_inv base fs ws sv"
  "wires_inv base fs ws (sv\<lparr>cachedTick := k\<rparr>) \<longleftrightarrow> wires_inv base fs ws sv"
  "wires_inv base fs ws (sv\<lparr>lastSweepMs := t\<rparr>) \<longleftrightarrow> wires_inv base fs ws sv"
  by (simp_all add: wires_inv_def obj_inv_def owners_inv_def loop_inv_def base_inv_def owned_fds_def conn_fds_def)

lemma time_frame [simp]:
  "time_inv (sv\<lparr>world := w\<rparr>) \<longleftrightarrow> time_inv sv" "time_inv (sv\<lparr>store := s\<rparr>) \<longleftrightarrow> time_inv sv"
  "time_inv (put_conn i c sv) \<longleftrightarrow> time_inv sv" "time_inv (sv\<lparr>retired := r\<rparr>) \<longleftrightarrow> time_inv sv"
  "time_inv (sv\<lparr>connections := m\<rparr>) \<longleftrightarrow> time_inv sv" "time_inv (sv\<lparr>objs := obs\<rparr>) \<longleftrightarrow> time_inv sv"
  "time_inv (sv\<lparr>nextObj := k\<rparr>) \<longleftrightarrow> time_inv sv" "time_inv (sv\<lparr>reserveFd := u\<rparr>) \<longleftrightarrow> time_inv sv"
  "time_inv (sv\<lparr>acceptPaused := b\<rparr>) \<longleftrightarrow> time_inv sv"
  by (simp_all add: time_inv_def)

lemma later_frame [simp]:
  "later pending sv (sv\<lparr>store := s\<rparr>)" "later pending sv (sv\<lparr>acceptPaused := b\<rparr>)" "later pending sv (sv\<lparr>reserveFd := u\<rparr>)"
  "later pending sv (sv\<lparr>cachedNow := t\<rparr>)" "later pending sv (sv\<lparr>lastSweepMs := t\<rparr>)"
  by (simp_all add: later_def)

lemma Server_now_put:
  "Server_now sys sv = (t, sv') \<Longrightarrow> Server_now sys (put_conn i c sv) = (t, put_conn i c sv')"
  by (auto simp: Server_now_def Let_def put_conn_def split: if_splits prod.splits)

lemma contents_fit: "Buffer_inv b \<Longrightarrow> Buffer_capacity b \<le> kMaxInput \<Longrightarrow> length (contents b) < 2 ^ 64"
  by (erule Buffer_invE)
    (simp add: Buffer_capacity_def kMaxInput_def kMaxPartial_def kDefaultCapacity_def kMaxHeaderLength_def kMaxArgs_def
      bulk_room_def kMaxBulkLength_def)

text \<open>Room for one read. The input of an open connection does not outgrow \<open>kMaxInput\<close>.\<close>

lemma read_room:
  assumes "conn_ok c"
  obtains b where "ensureWritable kDefaultCapacity (inbuf c) = Some b" "Buffer_inv b" "contents b = contents (inbuf c)"
    "cstate c = kOpen \<longrightarrow> Buffer_capacity b \<le> kMaxInput"
proof -
  obtain b where b: "ensureWritable kDefaultCapacity (inbuf c) = Some b" "Buffer_inv b" "contents b = contents (inbuf c)"
      "fits (Buffer_capacity (inbuf c)) (length (contents (inbuf c)) + kDefaultCapacity) b"
    using ensureWritable_ok [of "inbuf c" kDefaultCapacity] assms by (auto simp: conn_ok_def)
  have "Buffer_capacity b \<le> kMaxInput" if "cstate c = kOpen"
    using b(4) assms that unfolding conn_ok_def fits_def kMaxInput_def by auto
  then show thesis using that [of b] b by blast
qed

text \<open>The interest a connection should have.\<close>

definition wanted :: "Connection \<Rightarrow> u32" where
  "wanted c = (if contents (outbuf c) \<noteq> [] then EPOLLOUT else 0) OR (if cstate c = kOpen then EPOLLIN else 0)"

locale server_env = entry_pool ops live pool_inv + kernel sys fds watched taken sent pending
  for ops :: "'p pool_ops" and live pool_inv and sys :: "'w sys_ops" and fds watched taken sent pending
begin

abbreviation ninv :: "(int \<rightharpoonup> fd_kind) \<Rightarrow> ('p, 'w) Server \<Rightarrow> bool" where
  "ninv base sv \<equiv> net_inv live pool_inv fds watched base sv"

lemma ninv_wires: "ninv base sv \<Longrightarrow> wires_inv base (fds (world sv)) (watched (world sv)) sv"
  by (simp add: net_inv_def)

lemmas obj_facts = wires_obj [OF ninv_wires]
lemmas loop_facts = wires_loop [OF ninv_wires]

lemma ninv_settled: "ninv base sv \<Longrightarrow> settled (world sv) w \<Longrightarrow> ninv base (sv\<lparr>world := w\<rparr>)"
  by (simp add: net_inv_def settled_def)

lemma later_settled: "settled (world sv) w \<Longrightarrow> later pending sv (sv\<lparr>world := w\<rparr>)"
  by (simp add: later_def settled_def)

section \<open>Clients\<close>

abbreviation vw :: "('p, 'w) Server \<Rightarrow> service" where
  "vw sv \<equiv> view taken sent sv"

abbreviation cl :: "'w \<Rightarrow> Connection \<Rightarrow> client" where
  "cl w c \<equiv> client_of taken sent w c"

abbreviation still :: "'w \<Rightarrow> 'w \<Rightarrow> bool" where
  "still w w' \<equiv> quiet taken sent w w'"

text \<open>A change of one connection is a change of one client.\<close>

lemma view_upd:
  assumes inv: "ninv base sv" and i: "objs sv i = Some c" and sv': "objs sv' = (objs sv)(i \<mapsto> c')"
    and rest: "\<forall>g. g \<noteq> cfd c \<longrightarrow> taken (world sv') g = taken (world sv) g \<and> sent (world sv') g = sent (world sv) g"
  shows "vw sv' = \<lparr>db = store_abs (store sv'), clients = (clients (vw sv))(i \<mapsto> cl (world sv') c')\<rparr>"
proof -
  have "map_option (cl (world sv')) (objs sv j) = map_option (cl (world sv)) (objs sv j)" if j: "j \<noteq> i" for j
  proof (cases "objs sv j")
    case (Some d)
    then have "cfd d \<noteq> cfd c" using wires_inj [OF ninv_wires [OF inv] i] j by blast
    then show ?thesis using Some rest by (simp add: client_of_def Let_def)
  qed simp
  then show ?thesis using sv' by (simp add: view_def fun_eq_iff)
qed

lemma leads_same:
  assumes "ninv base sv" "objs sv i = Some c" "objs sv' = (objs sv)(i \<mapsto> c')" "store sv' = store sv"
    and "\<forall>g. g \<noteq> cfd c \<longrightarrow> taken (world sv') g = taken (world sv) g \<and> sent (world sv') g = sent (world sv) g"
    and "cl (world sv') c' = cl (world sv) c"
  shows "vw sv' = vw sv"
  unfolding view_upd [OF assms(1-3,5)] using assms(2,4,6) by (auto simp: view_def)

text \<open>A connection that is closed, or looks to its client as before.\<close>

lemma leads_shut:
  assumes "ninv base sv" "objs sv i = Some c" "objs sv' = (objs sv)(i \<mapsto> c')" "store sv' = store sv"
    and "\<forall>g. g \<noteq> cfd c \<longrightarrow> taken (world sv') g = taken (world sv) g \<and> sent (world sv') g = sent (world sv) g"
    and "cl (world sv') c' = cl (world sv) c \<or> cl (world sv') c' = (cl (world sv) c)\<lparr>unparsed := [], attentive := False\<rparr>"
  shows "leads (vw sv) (vw sv')"
  using assms(6)
proof
  assume "cl (world sv') c' = cl (world sv) c"
  from leads_same [OF assms(1-5) this] show ?thesis by simp
next
  assume shut: "cl (world sv') c' = (cl (world sv) c)\<lparr>unparsed := [], attentive := False\<rparr>"
  have "clients (vw sv) i = Some (cl (world sv) c)" using assms(2) by simp
  from turn.shut [OF this] have "turn (vw sv) (vw sv')"
    unfolding view_upd [OF assms(1-3,5)] shut assms(4) by (simp add: view_def)
  then show ?thesis by (rule r_into_rtranclp)
qed

section \<open>The clock\<close>

lemma Server_now_ok:
  assumes inv: "ninv base sv" and now: "Server_now sys sv = (t, sv')"
  obtains w where "sv' = sv\<lparr>cachedNow := t, cachedTick := tickCount (loop sv), world := w\<rparr>" "settled (world sv) w"
    "still (world sv) w" "clock_ok t" "ninv base sv'" "later pending sv sv'"
proof (cases "tickCount (loop sv) = cachedTick sv")
  case True
  then have eq: "t = cachedNow sv" "sv' = sv" using now by (auto simp: Server_now_def)
  moreover have "clock_ok (cachedNow sv)" using inv True by (simp add: net_inv_def time_inv_def)
  ultimately show thesis using that [of "world sv"] True inv by (simp add: quiet_def)
next
  case False
  obtain t' w where tw: "sys_now sys (world sv) = (t', w)" by fastforce
  have ok: "settled (world sv) w" "still (world sv) w" "clock_ok t'"
    using now_ok [OF tw] by (simp_all add: settled_def clock_ok_def)
  have eq: "t = t'" "sv' = sv\<lparr>cachedNow := t, cachedTick := tickCount (loop sv), world := w\<rparr>"
    using now False tw by (auto simp: Server_now_def Let_def)
  have "ninv base sv'"
    using inv ok unfolding eq(2) eq(1) by (simp add: net_inv_def settled_def time_inv_def)
  then show thesis using that [of w] ok eq by (simp add: later_def settled_def)
qed

section \<open>Closing and interest\<close>

lemma markClosed_ok:
  assumes inv: "ninv base sv" and i: "objs sv i = Some c"
  obtains sv' where "markClosed i sv = Some sv'" "ninv base sv'" "later pending sv sv'"
    "objs sv' = (objs sv)(i \<mapsto> c\<lparr>cstate := kClosed\<rparr>)" "world sv' = world sv" "store sv' = store sv"
proof (cases "cstate c = kClosed")
  case True
  then have "markClosed i sv = Some sv" "c\<lparr>cstate := kClosed\<rparr> = c" using i by (simp_all add: markClosed_def conn_closed_def)
  then show thesis using that [of sv] inv i by (simp add: fun_upd_idem)
next
  case False
  let ?c = "c\<lparr>cstate := kClosed\<rparr>"
  let ?sv = "(put_conn i ?c sv)\<lparr>retired := retired sv @ [i], connections := (connections sv)(cfd c := None)\<rparr>"
  have "connections sv (cfd c) = Some i" using obj_facts(7) [OF inv i False] .
  then have "markClosed i sv = Some ?sv"
    using i False by (simp add: markClosed_def conn_closed_def retire_def Let_def)
  moreover have "ninv base ?sv"
    using wires_close [OF ninv_wires [OF inv] i False] inv by (simp add: net_inv_def)
  moreover have "later pending sv ?sv" by (auto simp: later_def)
  ultimately show thesis using that [of ?sv] by simp
qed

lemma updateInterest_ok:
  assumes inv: "ninv base sv" and i: "objs sv i = Some c"
  obtains sv' c' where "updateInterest sys i sv = Some sv'" "ninv base sv'" "later pending sv sv'"
    "objs sv' = (objs sv)(i \<mapsto> c')" "store sv' = store sv" "still (world sv) (world sv')"
    "c' = c\<lparr>interest := wanted c\<rparr> \<or> c' = c\<lparr>cstate := kClosed\<rparr>"
proof -
  have out: "Buffer_empty (outbuf c) \<longleftrightarrow> contents (outbuf c) = []"
    using obj_facts(2) [OF inv i] by (simp add: conn_ok_def Buffer_empty_contents)
  let ?ep = "UniqueFd_get (epollFd (loop sv))"
  have code: "updateInterest sys i sv = (if wanted c = interest c then Some sv
      else case sys_epoll_ctl sys ?ep (cfd c) (CTL_MOD (wanted c) (HConn i)) (world sv) of
        (Some e, w) \<Rightarrow> do { require (e \<noteq> ENOENT \<and> e \<noteq> EBADF); markClosed i (sv\<lparr>world := w\<rparr>) }
      | (None, w) \<Rightarrow> Some (put_conn i (c\<lparr>interest := wanted c\<rparr>) (sv\<lparr>world := w\<rparr>)))"
    using i by (simp add: updateInterest_def wanted_def out loop_modify_def epollCtl_def Let_def split: prod.split option.split)
  show thesis
  proof (cases "wanted c = interest c")
    case True
    then have "c\<lparr>interest := wanted c\<rparr> = c" by simp
    then show thesis using that [of sv c] code True inv i by (simp add: fun_upd_idem quiet_def)
  next
    case False
    obtain r w where ctl: "sys_epoll_ctl sys ?ep (cfd c) (CTL_MOD (wanted c) (HConn i)) (world sv) = (r, w)" by fastforce
    have "watched (world sv) (cfd c) \<noteq> None" using obj_facts(5) [OF inv i] by simp
    note ok = ctl_mod_ok [OF loop_facts(2) [OF inv] this ctl]
    show thesis
    proof (cases r)
      case None
      let ?c = "c\<lparr>interest := wanted c\<rparr>"
      let ?sv = "put_conn i ?c (sv\<lparr>world := w\<rparr>)"
      have "wires_inv base (fds w) (watched w) (put_conn i ?c sv)"
        using wires_interest [OF ninv_wires [OF inv] i, of "wanted c"] ok None by simp
      then have "wires_inv base (fds w) (watched w) ((put_conn i ?c sv)\<lparr>world := w\<rparr>)" unfolding wires_frame .
      then have "ninv base ?sv" using inv by (simp add: net_inv_def)
      moreover have "later pending sv ?sv" using ok by (auto simp: later_def)
      ultimately show thesis using that [of ?sv ?c] code False ctl None ok by simp
    next
      case (Some e)
      then have set: "settled (world sv) w" "still (world sv) w" "e \<noteq> ENOENT" "e \<noteq> EBADF"
        using ok by (simp_all add: settled_def)
      obtain sv' where sv': "markClosed i (sv\<lparr>world := w\<rparr>) = Some sv'" "ninv base sv'" "later pending (sv\<lparr>world := w\<rparr>) sv'"
          "objs sv' = (objs (sv\<lparr>world := w\<rparr>))(i \<mapsto> c\<lparr>cstate := kClosed\<rparr>)" "world sv' = world (sv\<lparr>world := w\<rparr>)" "store sv' = store (sv\<lparr>world := w\<rparr>)"
        by (rule markClosed_ok [OF ninv_settled [OF inv set(1)], of i c]) (use i in simp_all)
      show thesis
        by (rule that [of sv' "c\<lparr>cstate := kClosed\<rparr>"])
          (use code False ctl Some set sv' later_trans [OF later_settled [OF set(1)]] in simp_all)
    qed
  qed
qed

section \<open>Output\<close>

lemma flushOutput_ok:
  assumes inv: "ninv base sv" and i: "objs sv i = Some c" and st: "cstate c \<noteq> kClosed"
  obtains sv' c' where "flushOutput sys i sv = Some sv'" "ninv base sv'" "later pending sv sv'"
    "objs sv' = (objs sv)(i \<mapsto> c')" "store sv' = store sv" "connFd c' = connFd c" "inbuf c' = inbuf c"
    "sent (world sv') (cfd c) @ contents (outbuf c') = sent (world sv) (cfd c) @ contents (outbuf c)"
    "\<forall>g. g \<noteq> cfd c \<longrightarrow> sent (world sv') g = sent (world sv) g" "taken (world sv') = taken (world sv)"
    "cstate c' = kClosed \<or> cstate c' = cstate c \<and> interest c' = wanted c' \<and> (cstate c' = kClosing \<longrightarrow> contents (outbuf c') \<noteq> [])"
proof -
  have ok: "conn_ok c" "fds (world sv) (cfd c) = Some KStream" using obj_facts(2,4) [OF inv i] .
  obtain b w gone where fl: "flushed i (cfd c) c sv b w gone"
    using flushLoop_sends [OF i _ refl ok(2)] ok(1) by (auto simp: conn_ok_def)
  let ?c = "c\<lparr>outbuf := b\<rparr>"
  let ?sv = "put_conn i ?c (sv\<lparr>world := w\<rparr>)"
  have b: "settled (world sv) w" "Buffer_inv b" "\<forall>g. g \<noteq> cfd c \<longrightarrow> sent w g = sent (world sv) g"
      "sent w (cfd c) @ contents b = sent (world sv) (cfd c) @ contents (outbuf c)" "taken w = taken (world sv)"
    using fl by (simp_all add: flushed_def)
  have loop: "flushLoop sys i sv = (if gone then do { sv' \<leftarrow> markClosed i ?sv; Some (True, sv') } else Some (False, ?sv))"
    using fl by (simp add: flushed_def Let_def)
  have inv1: "ninv base ?sv"
    using wires_put [OF ninv_wires [OF ninv_settled [OF inv b(1)]], of i c ?c] i ok(1) b(2) inv
    by (simp add: net_inv_def conn_ok_def)
  have i1: "objs ?sv i = Some ?c" by simp
  have later1: "later pending sv ?sv" using b(1) by (auto simp: later_def settled_def)
  note empty = Buffer_empty_contents [OF b(2)]
  show thesis
  proof (cases "gone \<or> Buffer_empty b \<and> cstate c = kClosing")
    case True
    obtain sv' where sv': "markClosed i ?sv = Some sv'" "ninv base sv'" "later pending ?sv sv'"
        "objs sv' = (objs ?sv)(i \<mapsto> ?c\<lparr>cstate := kClosed\<rparr>)" "world sv' = world ?sv" "store sv' = store ?sv"
      by (rule markClosed_ok [OF inv1 i1])
    have "flushOutput sys i sv = Some sv'" using True loop sv'(1) by (auto simp: flushOutput_def)
    then show thesis
      by (rule that [of sv' "?c\<lparr>cstate := kClosed\<rparr>"]) (use sv' b later_trans [OF later1 sv'(3)] in simp_all)
  next
    case False
    obtain sv' c' where sv': "updateInterest sys i ?sv = Some sv'" "ninv base sv'" "later pending ?sv sv'"
        "objs sv' = (objs ?sv)(i \<mapsto> c')" "store sv' = store ?sv" "still (world ?sv) (world sv')"
        "c' = ?c\<lparr>interest := wanted ?c\<rparr> \<or> c' = ?c\<lparr>cstate := kClosed\<rparr>"
      by (rule updateInterest_ok [OF inv1 i1])
    have "flushOutput sys i sv = Some sv'" using False loop sv'(1) by (auto simp: flushOutput_def)
    then show thesis
      by (rule that [of sv' c'])
        (use sv' b False empty later_trans [OF later1 sv'(3)] in \<open>auto simp: wanted_def quiet_def\<close>)
  qed
qed

section \<open>Input\<close>

lemma processInput_open:
  assumes inv: "ninv base sv" and i: "objs sv i = Some c" and st: "cstate c = kOpen"
    and b: "Buffer_inv b" "Buffer_capacity b \<le> kMaxInput" and r: "drains command_spec (contents b) xs e rest"
  obtains sv' c' bs q where "processInput ops sys i (put_conn i (c\<lparr>inbuf := b\<rparr>) sv) = Some sv'" "ninv base sv'"
    "later pending sv sv'" "objs sv' = (objs sv)(i \<mapsto> c')" "connFd c' = connFd c" "still (world sv) (world sv')" "clock_ok (fst (Server_now sys sv))"
    "serve ops (fst (Server_now sys sv)) xs (store sv) = Some (bs, q, store sv')"
    "contents (outbuf c') = contents (outbuf c) @ bs @ last_words q e"
    "cstate c' = (if q \<or> e \<noteq> None then kClosing else kOpen)" "\<not> q \<longrightarrow> contents (inbuf c') = rest"
proof -
  let ?c = "c\<lparr>inbuf := b\<rparr>"
  obtain t sv1 where now: "Server_now sys sv = (t, sv1)" by fastforce
  obtain w where w: "sv1 = sv\<lparr>cachedNow := t, cachedTick := tickCount (loop sv), world := w\<rparr>" "settled (world sv) w"
      "still (world sv) w" "clock_ok t" "ninv base sv1" "later pending sv sv1"
    by (rule Server_now_ok [OF inv now])
  have ok: "conn_ok c" using obj_facts(2) [OF inv i] .
  have s: "sinv (store sv)" using inv by (simp add: net_inv_def)
  obtain bs q s' c' where run: "serve ops t xs (store sv) = Some (bs, q, s')" "sinv s'"
      "processLoop ops i t Command_init (put_conn i ?c sv1) = Some (put_conn i c' (sv1\<lparr>store := s'\<rparr>))"
      "connFd c' = connFd c" "interest c' = interest c" "Buffer_inv (inbuf c')" "Buffer_inv (outbuf c')"
      "contents (outbuf c') = contents (outbuf c) @ bs @ last_words q e"
      "cstate c' = (if q \<or> e \<noteq> None then kClosing else kOpen)" "\<not> q \<longrightarrow> contents (inbuf c') = rest" "buf (inbuf c') = buf b"
    using processLoop_drains [OF r, of "put_conn i ?c sv1" i ?c t Command_init] b contents_fit [OF b] ok st s w(4)
    by (auto simp: w(1) conn_ok_def Command_init_def)
  have "conn_ok c'"
  proof -
    have "length rest \<le> kMaxPartial" if "e = None"
      using command_spec_More [OF requests.drains_left [OF r that]] by (simp add: kMaxPartial_def)
    then show ?thesis using run b(2) by (auto simp: conn_ok_def Buffer_capacity_def)
  qed
  moreover have "objs sv1 i = Some c" using i by (simp add: w(1))
  ultimately have "wires_inv base (fds (world sv1)) (watched (world sv1)) (put_conn i c' sv1)"
    using wires_put [OF ninv_wires [OF w(5)], of i c c'] run(4,5,9) st by simp
  then have "wires_inv base (fds (world sv1)) (watched (world sv1)) ((put_conn i c' sv1)\<lparr>store := s'\<rparr>)"
    unfolding wires_frame .
  then have inv': "ninv base (put_conn i c' (sv1\<lparr>store := s'\<rparr>))" using w(5) run(2) by (simp add: net_inv_def)
  have later': "later pending sv (put_conn i c' (sv1\<lparr>store := s'\<rparr>))" using w(6) by (auto simp: later_def)
  have "processInput ops sys i (put_conn i ?c sv) = Some (put_conn i c' (sv1\<lparr>store := s'\<rparr>))"
    using run(3) st Server_now_put [OF now, of i ?c] by (simp add: processInput_def)
  then show thesis
    by (rule that [OF _ inv' later']) (use run w(1,3,4) now in simp_all)
qed

text \<open>A read that delivers bytes to an open connection.\<close>

lemma onReadable_data:
  assumes inv: "ninv base sv" and i: "objs sv i = Some c" and st: "cstate c = kOpen"
    and b: "ensureWritable kDefaultCapacity (inbuf c) = Some b" and n: "n = writableBytes b"
    and rd: "sys_read sys (cfd c) n (world sv) = (Inr t, w)" "t \<noteq> []"
    and r: "drains command_spec (contents (inbuf c) @ t) xs e rest"
  obtains sv' c' bs q where "conn_onReadable ops sys i sv = Some sv'" "ninv base sv'" "later pending sv sv'"
    "objs sv' = (objs sv)(i \<mapsto> c')" "connFd c' = connFd c"
    "serve ops (fst (Server_now sys (sv\<lparr>world := w\<rparr>))) xs (store sv) = Some (bs, q, store sv')"
    "sent (world sv') (cfd c) @ contents (outbuf c') =
       sent (world sv) (cfd c) @ contents (outbuf c) @ bs @ last_words q e"
    "\<forall>g. g \<noteq> cfd c \<longrightarrow> sent (world sv') g = sent (world sv) g"
    "cstate c' = kClosed \<or> cstate c' = (if q \<or> e \<noteq> None then kClosing else kOpen) \<and> interest c' = wanted c' \<and>
       (cstate c' = kClosing \<longrightarrow> contents (outbuf c') \<noteq> [])" "\<not> q \<longrightarrow> contents (inbuf c') = rest"
    "leads (vw sv) (vw sv')"
proof -
  have ok: "conn_ok c" "fds (world sv) (cfd c) = Some KStream" using obj_facts(2,4) [OF inv i] .
  obtain b0 where b0: "Buffer_inv b" "contents b = contents (inbuf c)" "Buffer_capacity b \<le> kMaxInput"
    using read_room [OF ok(1)] b st by auto
  note read = read_ok [OF ok(2) rd(1)]
  have set: "settled (world sv) w" "sent w = sent (world sv)" using read by (simp_all add: settled_def)
  obtain b1 b2 where b2: "write_tail t b = Some b1" "commit (length t) b1 = Some b2" "Buffer_inv b2"
      "contents b2 = contents (inbuf c) @ t" "Buffer_capacity b2 = Buffer_capacity b"
    using write_commit [OF b0(1), of t] read n b0(2) by auto
  let ?sv = "sv\<lparr>world := w\<rparr>"
  have i1: "objs ?sv i = Some c" using i by simp
  have pre: "Buffer_capacity b2 \<le> kMaxInput" "drains command_spec (contents b2) xs e rest"
    using b0(3) b2(4,5) r by simp_all
  obtain sv1 c1 bs q where p: "processInput ops sys i (put_conn i (c\<lparr>inbuf := b2\<rparr>) ?sv) = Some sv1" "ninv base sv1"
      "later pending ?sv sv1" "objs sv1 = (objs ?sv)(i \<mapsto> c1)" "connFd c1 = connFd c" "still (world ?sv) (world sv1)"
      "clock_ok (fst (Server_now sys ?sv))"
      "serve ops (fst (Server_now sys ?sv)) xs (store ?sv) = Some (bs, q, store sv1)"
      "contents (outbuf c1) = contents (outbuf c) @ bs @ last_words q e"
      "cstate c1 = (if q \<or> e \<noteq> None then kClosing else kOpen)" "\<not> q \<longrightarrow> contents (inbuf c1) = rest"
    by (rule processInput_open [OF ninv_settled [OF inv set(1)] i1 st b2(3) pre])
  have i2: "objs sv1 i = Some c1" "cstate c1 \<noteq> kClosed" using p(4,10) by simp_all
  obtain sv' c' where f: "flushOutput sys i sv1 = Some sv'" "ninv base sv'" "later pending sv1 sv'"
      "objs sv' = (objs sv1)(i \<mapsto> c')" "store sv' = store sv1" "connFd c' = connFd c1" "inbuf c' = inbuf c1"
      "sent (world sv') (cfd c1) @ contents (outbuf c') = sent (world sv1) (cfd c1) @ contents (outbuf c1)"
      "\<forall>g. g \<noteq> cfd c1 \<longrightarrow> sent (world sv') g = sent (world sv1) g" "taken (world sv') = taken (world sv1)"
      "cstate c' = kClosed \<or> cstate c' = cstate c1 \<and> interest c' = wanted c' \<and> (cstate c' = kClosing \<longrightarrow> contents (outbuf c') \<noteq> [])"
    by (rule flushOutput_ok [OF p(2) i2])
  have run: "conn_onReadable ops sys i sv = Some sv'"
    using i st b n rd b2(1,2) p(1) f(1) by (simp add: conn_onReadable_def conn_closed_def Let_def)
  have "leads (vw sv) (vw sv1)"
  proof -
    have t1: "taken (world sv1) = (taken (world sv))(cfd c := taken (world sv) (cfd c) @ t)" "sent (world sv1) = sent (world sv)"
      using read p(6) by (simp_all add: quiet_def)
    obtain vs where vs: "serves (fst (Server_now sys ?sv)) xs (store_abs (store sv)) vs q (store_abs (store sv1))"
        "bs = concat (map reply_bytes vs)"
      using serve_serves [OF p(8) _ p(7) drains_args [OF r]] inv by (auto simp: net_inv_def)
    have "turn (vw sv) \<lparr>db = store_abs (store sv1), clients = (clients (vw sv))(i \<mapsto> cl (world sv1) c1)\<rparr>"
      using turn.talk [of "vw sv" i "cl (world sv) c" t xs e rest, OF _ _ _ p(7) _ refl refl, of vs q "store_abs (store sv1)"]
        i st r vs p(5,9-11) t1 by (auto simp: client_of_def Let_def)
    moreover have "\<forall>g. g \<noteq> cfd c \<longrightarrow> taken (world sv1) g = taken (world sv) g \<and> sent (world sv1) g = sent (world sv) g"
      using t1 by simp
    ultimately show ?thesis using view_upd [OF inv i, of sv1 c1] p(4) by simp
  qed
  moreover have "leads (vw sv1) (vw sv')"
    by (rule leads_shut [OF p(2) i2(1) f(4,5)]) (use f(6-11) in \<open>auto simp: client_of_def Let_def\<close>)
  ultimately have leads: "leads (vw sv) (vw sv')" by (rule rtranclp_trans)
  have "later pending sv sv'" using later_settled [OF set(1)] p(3) f(3) by (blast intro: later_trans)
  then show thesis
    by (rule that [of sv' c' bs q, OF run f(2)]) (use p f set(2) leads in \<open>simp_all add: quiet_def\<close>)
qed

section \<open>Handlers\<close>

text \<open>A step returns, keeps the invariant, destroys no object and is made of turns of the service.\<close>

definition safe :: "(int \<rightharpoonup> fd_kind) \<Rightarrow> ('p, 'w) Server \<Rightarrow> ('p, 'w) Server option \<Rightarrow> bool" where
  "safe base sv m \<longleftrightarrow> (\<exists>sv'. m = Some sv' \<and> ninv base sv' \<and> later pending sv sv' \<and> leads (vw sv) (vw sv'))"

lemma safeI: "m = Some sv' \<Longrightarrow> ninv base sv' \<Longrightarrow> later pending sv sv' \<Longrightarrow> leads (vw sv) (vw sv') \<Longrightarrow> safe base sv m"
  by (simp add: safe_def)

lemma safe_same: "ninv base sv \<Longrightarrow> safe base sv (Some sv)"
  by (simp add: safe_def)

lemma safe_bind:
  assumes "safe base sv m" "\<And>sv'. ninv base sv' \<Longrightarrow> later pending sv sv' \<Longrightarrow> safe base sv' (f sv')"
  shows "safe base sv (m \<bind> f)"
proof -
  obtain sv1 where sv1: "m = Some sv1" "ninv base sv1" "later pending sv sv1" "leads (vw sv) (vw sv1)"
    using assms(1) by (auto simp: safe_def)
  from assms(2) [OF sv1(2,3)] sv1 show ?thesis
    unfolding safe_def by (auto intro: later_trans [OF sv1(3)] rtranclp_trans [OF sv1(4)])
qed

lemma safe_after: "later pending sv sv' \<Longrightarrow> leads (vw sv) (vw sv') \<Longrightarrow> safe base sv' m \<Longrightarrow> safe base sv m"
  unfolding safe_def by (blast intro: later_trans rtranclp_trans)

lemma markClosed_safe:
  assumes inv: "ninv base sv" and i: "objs sv i = Some c"
  shows "safe base sv (markClosed i sv)"
proof -
  obtain sv' where sv': "markClosed i sv = Some sv'" "ninv base sv'" "later pending sv sv'"
      "objs sv' = (objs sv)(i \<mapsto> c\<lparr>cstate := kClosed\<rparr>)" "world sv' = world sv" "store sv' = store sv"
    by (rule markClosed_ok [OF inv i])
  have "leads (vw sv) (vw sv')"
    by (rule leads_shut [OF inv i sv'(4,6)]) (use sv'(5) in \<open>simp_all add: client_of_def Let_def\<close>)
  with sv'(1-3) show ?thesis by (rule safeI)
qed

lemma flushOutput_safe:
  assumes inv: "ninv base sv" and i: "objs sv i = Some c" and st: "cstate c \<noteq> kClosed"
  shows "safe base sv (flushOutput sys i sv)"
proof (rule flushOutput_ok [OF assms])
  fix sv' c'
  assume f: "flushOutput sys i sv = Some sv'" "ninv base sv'" "later pending sv sv'"
    "objs sv' = (objs sv)(i \<mapsto> c')" "store sv' = store sv" "connFd c' = connFd c" "inbuf c' = inbuf c"
    "sent (world sv') (cfd c) @ contents (outbuf c') = sent (world sv) (cfd c) @ contents (outbuf c)"
    "\<forall>g. g \<noteq> cfd c \<longrightarrow> sent (world sv') g = sent (world sv) g" "taken (world sv') = taken (world sv)"
    "cstate c' = kClosed \<or> cstate c' = cstate c \<and> interest c' = wanted c' \<and> (cstate c' = kClosing \<longrightarrow> contents (outbuf c') \<noteq> [])"
  have "leads (vw sv) (vw sv')"
    by (rule leads_shut [OF inv i f(4,5)]) (use f(6-11) in \<open>auto simp: client_of_def Let_def\<close>)
  with f(1-3) show ?thesis by (rule safeI)
qed

lemma onWritable_safe:
  assumes "ninv base sv" "objs sv i = Some c"
  shows "safe base sv (conn_onWritable sys i sv)"
  using assms flushOutput_safe [OF assms] safe_same [OF assms(1)] by (simp add: conn_onWritable_def conn_closed_def)

lemma onReadable_safe:
  assumes inv: "ninv base sv" and i: "objs sv i = Some c"
  shows "safe base sv (conn_onReadable ops sys i sv)"
proof (cases "cstate c = kClosed")
  case True
  then show ?thesis using i safe_same [OF inv] by (simp add: conn_onReadable_def conn_closed_def)
next
  case alive: False
  have ok: "conn_ok c" "fds (world sv) (cfd c) = Some KStream" using obj_facts(2,4) [OF inv i] .
  obtain b where b: "ensureWritable kDefaultCapacity (inbuf c) = Some b" "Buffer_inv b" "contents b = contents (inbuf c)"
      "cstate c = kOpen \<longrightarrow> Buffer_capacity b \<le> kMaxInput"
    by (rule read_room [OF ok(1)])
  obtain r w where rd: "sys_read sys (cfd c) (writableBytes b) (world sv) = (r, w)" by fastforce
  note read = read_ok [OF ok(2) rd]
  have set: "settled (world sv) w" using read by (simp add: settled_def)
  have put: "ninv base (put_conn i (c\<lparr>inbuf := b'\<rparr>) (sv\<lparr>world := w\<rparr>)) \<and>
      later pending sv (put_conn i (c\<lparr>inbuf := b'\<rparr>) (sv\<lparr>world := w\<rparr>))" if "conn_ok (c\<lparr>inbuf := b'\<rparr>)" for b'
    using wires_put [OF ninv_wires [OF ninv_settled [OF inv set]], of i c "c\<lparr>inbuf := b'\<rparr>"] i that inv set
    by (auto simp: net_inv_def later_def settled_def)
  let ?sv = "put_conn i (c\<lparr>inbuf := b\<rparr>) (sv\<lparr>world := w\<rparr>)"
  have "conn_ok (c\<lparr>inbuf := b\<rparr>)" using ok(1) b(2-4) by (simp add: conn_ok_def)
  note sv1 = put [OF this, THEN conjunct1] put [OF this, THEN conjunct2]
  have unf: "conn_onReadable ops sys i sv = (case r of
      Inr bs \<Rightarrow> (if bs \<noteq> [] then do { b \<leftarrow> write_tail bs b; b \<leftarrow> commit (length bs) b;
                  sv \<leftarrow> processInput ops sys i (put_conn i (c\<lparr>inbuf := b\<rparr>) (sv\<lparr>world := w\<rparr>)); flushOutput sys i sv }
                else markClosed i ?sv)
    | Inl e \<Rightarrow> if e = EAGAIN \<or> e = EINTR then Some ?sv else markClosed i ?sv)"
    using i alive b(1) rd by (simp add: conn_onReadable_def conn_closed_def Let_def split: sum.split)
  show ?thesis
  proof (cases "\<exists>bs. r = Inr bs \<and> bs \<noteq> []")
    case False
    then have "taken w = taken (world sv)" "sent w = sent (world sv)" using read by (auto split: sum.splits)
    then have "leads (vw sv) (vw ?sv)"
      by (intro leads_shut [OF inv i, of ?sv "c\<lparr>inbuf := b\<rparr>"]) (use b(3) in \<open>simp_all add: client_of_def Let_def\<close>)
    note after = safe_after [OF sv1(2) this]
    have "safe base sv (Some ?sv)" "safe base sv (markClosed i ?sv)"
      using after [OF safe_same [OF sv1(1)]] after [OF markClosed_safe [OF sv1(1), of i]] by simp_all
    then show ?thesis using False unfolding unf by (auto split: sum.split)
  next
    case True
    then obtain bs where bs: "r = Inr bs" "bs \<noteq> []" by blast
    show ?thesis
    proof (cases "cstate c = kOpen")
      case True
      obtain xs e rest where r: "drains command_spec (contents (inbuf c) @ bs) xs e rest" using requests.drains_total by blast
      show ?thesis
        by (rule onReadable_data [OF inv i True b(1) refl rd [unfolded bs(1)] bs(2) r]) (rule safeI)
    next
      case False
      obtain b1 b2 where b2: "write_tail bs b = Some b1" "commit (length bs) b1 = Some b2" "Buffer_inv b2"
        using write_commit [OF b(2), of bs] read bs(1) by auto
      let ?sv2 = "put_conn i (c\<lparr>inbuf := b2\<rparr>) (sv\<lparr>world := w\<rparr>)"
      have "conn_ok (c\<lparr>inbuf := b2\<rparr>)" using ok(1) b2(3) False by (simp add: conn_ok_def)
      note sv2 = put [OF this, THEN conjunct1] put [OF this, THEN conjunct2]
      have "conn_onReadable ops sys i sv = flushOutput sys i ?sv2"
        using bs b2(1,2) False unfolding unf by (simp add: processInput_def)
      moreover have "leads (vw sv) (vw ?sv2)"
      proof (rule r_into_rtranclp)
        have c: "clients (vw sv) i = Some (cl (world sv) c)" "\<not> attentive (cl (world sv) c)"
          using i False by (simp_all add: client_of_def Let_def)
        have "cl w (c\<lparr>inbuf := b2\<rparr>) = (cl (world sv) c)\<lparr>heard := heard (cl (world sv) c) @ bs\<rparr>"
          using read bs(1) False by (simp add: client_of_def Let_def)
        moreover have "\<forall>g. g \<noteq> cfd c \<longrightarrow> taken w g = taken (world sv) g \<and> sent w g = sent (world sv) g"
          using read bs(1) by simp
        ultimately show "turn (vw sv) (vw ?sv2)"
          using turn.ignore [OF c, of bs] view_upd [OF inv i, of ?sv2 "c\<lparr>inbuf := b2\<rparr>"] by (simp add: view_def)
      qed
      ultimately show ?thesis using safe_after [OF sv2(2) _ flushOutput_safe [OF sv2(1), of i]] alive by simp
    qed
  qed
qed

end

end
