(* ===== verification/Accept_Inv.thy ===== *)
theory Accept_Inv
  imports Connection_Inv
begin

text \<open>
  Accepting keeps the invariant of the network layer: the reserve descriptor is given up and taken
  again, a descriptor that \<open>accept4\<close> returns ends up in an object or closed, and the accept loop
  ends because every round uses up a queued connection or a pending interruption.
\<close>

context server_env
begin

section \<open>Descriptors in transit\<close>

text \<open>While a new descriptor has no owner it counts as one of the base.\<close>

lemma outside_opened:
  assumes inv: "ninv base sv" and o: "opens fds watched k (world sv) (Inr n, w)" and p: "pending w \<le> pending (world sv)"
  shows "ninv (base(n \<mapsto> k)) (sv\<lparr>world := w\<rparr>)" "later pending sv (sv\<lparr>world := w\<rparr>)" "base n = None" "n \<noteq> - 1"
proof -
  have n: "n \<noteq> - 1" "fds (world sv) n = None" "watched (world sv) n = None" "watched w = watched (world sv)"
      "fds w = (fds (world sv))(n \<mapsto> k)"
    using o by (simp_all add: opens_def)
  show "ninv (base(n \<mapsto> k)) (sv\<lparr>world := w\<rparr>)"
    using wires_open [OF ninv_wires [OF inv] n(2,3), of k] inv n by (simp add: net_inv_def)
  show "later pending sv (sv\<lparr>world := w\<rparr>)" using p by (simp add: later_def)
  have "n \<notin> owned_fds sv" using wires_owned(1) [OF ninv_wires [OF inv], of n] n(2) by auto
  then show "base n = None" using wires_unowned(1) [OF ninv_wires [OF inv]] n(2) by simp
  show "n \<noteq> - 1" by (rule n(1))
qed

text \<open>No client is told of a descriptor that is not its own.\<close>

lemma view_fresh:
  assumes inv: "ninv base sv" and o: "opens fds watched k (world sv) (Inr n, w)"
    and w: "taken w = (taken (world sv))(n := s)" "sent w = (sent (world sv))(n := t)"
  shows "vw (sv\<lparr>world := w\<rparr>) = vw sv"
proof (rule view_eqI)
  fix i c
  assume "objs sv i = Some c"
  then have "cfd c \<noteq> n" using obj_facts(4) [OF inv, of i c] o by (auto simp: opens_def)
  then show "cl (world (sv\<lparr>world := w\<rparr>)) c = cl (world sv) c" using w by (simp add: client_of_def Let_def)
qed simp_all

lemma outside_closed:
  assumes inv: "ninv base sv" and n: "base n \<noteq> None"
  shows "ninv (base(n := None)) (sv\<lparr>world := sys_close sys n (world sv)\<rparr>)"
    "later pending sv (sv\<lparr>world := sys_close sys n (world sv)\<rparr>)" "still (world sv) (sys_close sys n (world sv))"
proof -
  have "n \<notin> owned_fds sv" using wires_owned(2) [OF ninv_wires [OF inv], of n] n by auto
  then have "fds (world sv) n \<noteq> None" using wires_unowned(1) [OF ninv_wires [OF inv]] n by simp
  note c = close_ok [OF this refl]
  show "ninv (base(n := None)) (sv\<lparr>world := sys_close sys n (world sv)\<rparr>)"
    using wires_shut [OF ninv_wires [OF inv] n] inv c by (simp add: net_inv_def)
  show "later pending sv (sv\<lparr>world := sys_close sys n (world sv)\<rparr>)" "still (world sv) (sys_close sys n (world sv))"
    using c by (simp_all add: later_def)
qed

lemma bool_make [simp]: "UniqueFd_bool (UniqueFd_make n) \<longleftrightarrow> n \<noteq> - 1"
  by (simp add: UniqueFd_bool_def UniqueFd_make_def)

lemma dtor_make: "UniqueFd_dtor sys (UniqueFd_make n) w = (if n = - 1 then w else sys_close sys n w)"
  by (simp add: UniqueFd_dtor_def UniqueFd_make_def)

section \<open>The reserve\<close>

lemma drop_reserve:
  assumes inv: "ninv base sv" and r: "UniqueFd_reset sys (- 1) (reserveFd sv) (world sv) = (r, w)"
  shows "ninv base (sv\<lparr>reserveFd := r, world := w\<rparr>)" "later pending sv (sv\<lparr>reserveFd := r, world := w\<rparr>)"
    "r = UniqueFd_make (- 1)" "still (world sv) w"
proof -
  let ?g = "UniqueFd_get (reserveFd sv)"
  show eq: "r = UniqueFd_make (- 1)"
    using r by (auto simp: UniqueFd_reset_def UniqueFd_make_def Let_def split: if_splits)
  have "ninv base (sv\<lparr>reserveFd := r, world := w\<rparr>) \<and> later pending sv (sv\<lparr>reserveFd := r, world := w\<rparr>) \<and> still (world sv) w"
  proof (cases "?g = - 1")
    case True
    then have "w = world sv" "r = reserveFd sv" using r by (simp_all add: UniqueFd_reset_def UniqueFd_get_def)
    then show ?thesis using inv by (simp add: quiet_def)
  next
    case False
    then have w: "w = sys_close sys ?g (world sv)"
      using r by (auto simp: UniqueFd_reset_def UniqueFd_get_def Let_def)
    let ?sv = "sv\<lparr>reserveFd := UniqueFd_make (- 1)\<rparr>"
    have "ninv (base(?g \<mapsto> KNull)) ?sv"
      using wires_give_reserve [OF ninv_wires [OF inv] refl False] inv by (simp add: net_inv_def)
    note c = outside_closed [OF this, of ?g]
    have "?g \<in> owned_fds sv" using False by (simp add: owned_fds_def)
    then have "base ?g = None" by (rule wires_owned(2) [OF ninv_wires [OF inv]])
    then have "(base(?g \<mapsto> KNull))(?g := None) = base" by auto
    then show ?thesis using c by (simp add: eq w later_def)
  qed
  then show "ninv base (sv\<lparr>reserveFd := r, world := w\<rparr>)" "later pending sv (sv\<lparr>reserveFd := r, world := w\<rparr>)" "still (world sv) w" by blast+
qed

lemma refill_reserve:
  assumes inv: "ninv base sv" and o: "openReserve sys (world sv) = (u, w)"
    and a: "UniqueFd_assign sys (reserveFd sv) u w = ((r, e), w')"
  shows "ninv base (sv\<lparr>reserveFd := r, world := w'\<rparr>)" "later pending sv (sv\<lparr>reserveFd := r, world := w'\<rparr>)" "still (world sv) w'"
proof -
  obtain on w0 where on: "sys_open_null sys (world sv) = (on, w0)" by fastforce
  have ok: "opens fds watched KNull (world sv) (on, w0)" "pending w0 \<le> pending (world sv)" "still (world sv) w0"
    using open_null_ok [OF on] by simp_all
  have u: "u = UniqueFd_make (case on of Inr n \<Rightarrow> n | Inl _ \<Rightarrow> - 1)" "w = w0" using o on by (simp_all add: openReserve_def)
  have "ninv base (sv\<lparr>reserveFd := r, world := w'\<rparr>) \<and> later pending sv (sv\<lparr>reserveFd := r, world := w'\<rparr>) \<and> still (world sv) w'"
  proof (cases on)
    case (Inl err)
    have set: "settled (world sv) w" using ok Inl u(2) by (simp add: opens_def settled_def)
    have "UniqueFd_reset sys (- 1) (reserveFd (sv\<lparr>world := w\<rparr>)) (world (sv\<lparr>world := w\<rparr>)) = (r, w')"
      using a u(1) Inl by (simp add: UniqueFd_assign_def UniqueFd_release_def UniqueFd_make_def Let_def split: prod.splits)
    from drop_reserve [OF ninv_settled [OF inv set] this] later_settled [OF set]
    show ?thesis using ok(3) u(2) by (auto simp: quiet_def dest: later_trans)
  next
    case (Inr n)
    note n = outside_opened [OF inv ok(1) [unfolded Inr] ok(2), folded u(2)]
    let ?g = "UniqueFd_get (reserveFd sv)"
    obtain r0 w1 where r0: "UniqueFd_reset sys (- 1) (reserveFd sv) w = (r0, w1)" by fastforce
    have "?g \<noteq> n"
      using ok(1) Inr inv by (auto simp: opens_def net_inv_def wires_inv_def reserve_inv_def)
    then have r: "r = UniqueFd_make n" "w' = w1"
      using a r0 u(1) Inr by (auto simp: UniqueFd_assign_def UniqueFd_release_def UniqueFd_reset_def UniqueFd_make_def
          UniqueFd_get_def Let_def split: if_splits)
    have d: "ninv (base(n \<mapsto> KNull)) (sv\<lparr>reserveFd := r0, world := w1\<rparr>)"
        "later pending (sv\<lparr>world := w\<rparr>) (sv\<lparr>reserveFd := r0, world := w1\<rparr>)" "r0 = UniqueFd_make (- 1)"
        "still w w1"
      using drop_reserve [OF n(1), of r0 w1] r0 by simp_all
    have eq: "(base(n \<mapsto> KNull))(n := None) = base" using n(3) by auto
    have com: "sv\<lparr>reserveFd := r0, world := w1, reserveFd := UniqueFd_make n\<rparr> = sv\<lparr>reserveFd := UniqueFd_make n, world := w1\<rparr>"
      by simp
    have "wires_inv base (fds w1) (watched w1) (sv\<lparr>reserveFd := UniqueFd_make n, world := w1\<rparr>)"
      using wires_take_reserve [OF ninv_wires [OF d(1)], of n] d(3) n(4) unfolding eq com by simp
    then have "ninv base (sv\<lparr>reserveFd := r, world := w'\<rparr>)" using inv by (simp add: net_inv_def r)
    moreover have "later pending sv (sv\<lparr>reserveFd := r, world := w'\<rparr>)" using n(2) d(2) by (simp add: later_def r)
    ultimately show ?thesis using ok(3) u(2) d(4) r(2) by (simp add: quiet_def)
  qed
  then show "ninv base (sv\<lparr>reserveFd := r, world := w'\<rparr>)" "later pending sv (sv\<lparr>reserveFd := r, world := w'\<rparr>)" "still (world sv) w'"
    by blast+
qed

lemma shedPending_ok:
  assumes inv: "ninv base sv" and shed: "shedPending sys sv = (b, sv')"
  shows "ninv base sv'" "later pending sv sv'" "b \<Longrightarrow> pending (world sv') < pending (world sv)" "vw sv' = vw sv"
proof -
  have "ninv base sv' \<and> later pending sv sv' \<and> (b \<longrightarrow> pending (world sv') < pending (world sv)) \<and> vw sv' = vw sv"
  proof (cases "UniqueFd_bool (reserveFd sv)")
    case False
    then show ?thesis using shed inv by (auto simp: shedPending_def)
  next
    case True
    obtain r1 w1 where d: "UniqueFd_reset sys (- 1) (reserveFd sv) (world sv) = (r1, w1)" by fastforce
    let ?sv1 = "sv\<lparr>reserveFd := r1, world := w1\<rparr>"
    note sv1 = drop_reserve [OF inv d]
    obtain ac w2 where ac: "sys_accept4 sys (UniqueFd_get (acceptorFd sv)) w1 = (ac, w2)" by fastforce
    define n where "n = (case ac of Inr n \<Rightarrow> n | Inl _ \<Rightarrow> - 1)"
    obtain s3 w3 where s3: "UniqueFd_reset sys (- 1) (UniqueFd_make n) w2 = (s3, w3)" by fastforce
    let ?sv3 = "sv\<lparr>reserveFd := r1, world := w3\<rparr>"
    obtain f w4 where f: "openReserve sys w3 = (f, w4)" by fastforce
    obtain r5 f5 w5 where r5: "UniqueFd_assign sys r1 f w4 = ((r5, f5), w5)" by (metis surj_pair)
    have res: "b = (n \<noteq> - 1)" "sv' = sv\<lparr>reserveFd := r5, world := w5\<rparr>"
      using shed True unfolding shedPending_def d n_def [symmetric]
      by (simp_all add: ac s3 f r5 Let_def n_def [symmetric])
    note ok = accept4_ok [OF loop_facts(4) [OF sv1(1)], simplified, OF ac]
    have vw1: "vw ?sv1 = vw sv" by (rule view_quiet) (use sv1(4) in simp_all)
    have sv3: "ninv base ?sv3 \<and> later pending ?sv1 ?sv3 \<and> (b \<longrightarrow> pending w3 < pending w1) \<and> vw ?sv3 = vw ?sv1"
    proof (cases ac)
      case (Inl e)
      then have "n = - 1" "w3 = w2" using s3 by (simp_all add: n_def UniqueFd_reset_def UniqueFd_make_def)
      moreover have "settled w1 w2" "still w1 w2" using ok Inl by (simp_all add: settled_def opens_def)
      ultimately show ?thesis
        using ninv_settled [OF sv1(1), of w2] later_settled [of ?sv1 w2] view_quiet [of ?sv3 ?sv1 taken sent] res(1) by simp
    next
      case (Inr m)
      then have m: "opens fds watched KStream (world ?sv1) (Inr n, w2)" "pending w2 < pending w1"
          "taken w2 = (taken (world ?sv1))(n := [])" "sent w2 = (sent (world ?sv1))(n := [])" using ok by (simp_all add: n_def)
      note vw2 = view_fresh [OF sv1(1) m(1,3,4)]
      note op = outside_opened [OF sv1(1) m(1)]
      have w3: "w3 = sys_close sys n w2"
        using s3 op(4) m(2) by (auto simp: UniqueFd_reset_def UniqueFd_make_def Let_def)
      have "still w2 w3" using outside_closed(3) [OF op(1), of n] m(2) w3 by simp
      then have "vw ?sv3 = vw ?sv1" using view_quiet [of ?sv3 "?sv1\<lparr>world := w2\<rparr>" taken sent] vw2 by simp
      moreover note w3
      moreover have "(base(n \<mapsto> KStream))(n := None) = base" using op(3) m(2) by auto
      ultimately show ?thesis
        using outside_closed [OF op(1), of n] op(2) m(2) by (auto simp: later_def)
    qed
    have a5: "UniqueFd_assign sys (reserveFd ?sv3) f w4 = ((r5, f5), w5)" "openReserve sys (world ?sv3) = (f, w4)"
      using r5 f by simp_all
    note sv5 = refill_reserve [OF sv3 [THEN conjunct1] a5(2,1)]
    have "vw sv' = vw ?sv3" unfolding res(2) by (rule view_quiet) (use sv5(3) in simp_all)
    then show ?thesis using sv5 sv3 sv1(2) vw1 unfolding res(2) by (auto simp: later_def)
  qed
  then show "ninv base sv'" "later pending sv sv'" "b \<Longrightarrow> pending (world sv') < pending (world sv)" "vw sv' = vw sv" by blast+
qed

section \<open>Pausing\<close>

lemma acceptor_mod:
  assumes inv: "ninv base sv" and m: "loop_modify sys (UniqueFd_get (acceptorFd sv)) HAcceptor (if b then 0 else EPOLLIN) sv = (r, sv')"
  shows "r = None \<Longrightarrow> ninv base (sv'\<lparr>acceptPaused := b\<rparr>)" "r \<noteq> None \<Longrightarrow> ninv base sv'" "later pending sv sv'"
    "vw sv' = vw sv" "vw (sv'\<lparr>acceptPaused := b\<rparr>) = vw sv"
proof -
  let ?ac = "UniqueFd_get (acceptorFd sv)" and ?ev = "if b then 0 else EPOLLIN"
  obtain w where w: "sys_epoll_ctl sys (UniqueFd_get (epollFd (loop sv))) ?ac (CTL_MOD ?ev HAcceptor) (world sv) = (r, w)"
      "sv' = sv\<lparr>world := w\<rparr>"
    using m by (auto simp: loop_modify_def epollCtl_def Let_def split: prod.splits)
  have "watched (world sv) ?ac \<noteq> None" using loop_facts(5) [OF inv] by simp
  note ok = ctl_mod_ok [OF loop_facts(2) [OF inv] this w(1)]
  show "later pending sv sv'" using ok by (simp add: w(2) later_def)
  show "vw sv' = vw sv" "vw (sv'\<lparr>acceptPaused := b\<rparr>) = vw sv" by (rule view_quiet; use ok in \<open>simp add: w(2)\<close>)+
  show "ninv base sv'" if "r \<noteq> None" using ninv_settled [OF inv, of w] ok that by (auto simp: settled_def w(2))
  show "ninv base (sv'\<lparr>acceptPaused := b\<rparr>)" if "r = None"
  proof -
    have "wires_inv base (fds w) (watched w) (sv\<lparr>acceptPaused := b, world := w\<rparr>)"
      using wires_pause [OF ninv_wires [OF inv] refl, of b] ok that by simp
    moreover have "sv'\<lparr>acceptPaused := b\<rparr> = sv\<lparr>acceptPaused := b, world := w\<rparr>" by (simp add: w(2))
    ultimately show ?thesis using inv by (simp add: net_inv_def)
  qed
qed

lemma pauseAccepting_ok:
  assumes inv: "ninv base sv"
  shows "ninv base (pauseAccepting sys sv)" "later pending sv (pauseAccepting sys sv)" "vw (pauseAccepting sys sv) = vw sv"
proof -
  obtain r sv' where m: "loop_modify sys (UniqueFd_get (acceptorFd sv)) HAcceptor 0 sv = (r, sv')" by fastforce
  note ok = acceptor_mod [OF inv, of True, simplified, OF m]
  show "ninv base (pauseAccepting sys sv)" using inv ok m by (cases r) (simp_all add: pauseAccepting_def)
  show "later pending sv (pauseAccepting sys sv)"
    using ok(3) m by (cases r) (simp_all add: pauseAccepting_def later_def)
  show "vw (pauseAccepting sys sv) = vw sv" using ok(4,5) m by (cases r) (simp_all add: pauseAccepting_def)
qed

lemma resumeAccepting_ok:
  assumes inv: "ninv base sv"
  shows "ninv base (resumeAccepting sys sv)" "later pending sv (resumeAccepting sys sv)" "vw (resumeAccepting sys sv) = vw sv"
proof -
  obtain u w where u: "openReserve sys (world sv) = (u, w)" by fastforce
  obtain r e w' where a: "UniqueFd_assign sys (reserveFd sv) u w = ((r, e), w')" by (metis surj_pair)
  let ?sv = "sv\<lparr>reserveFd := r, world := w'\<rparr>"
  note sv1 = refill_reserve [OF inv u a]
  obtain q sv' where m: "loop_modify sys (UniqueFd_get (acceptorFd ?sv)) HAcceptor EPOLLIN ?sv = (q, sv')" by fastforce
  note ok = acceptor_mod [OF sv1(1), of False, simplified, OF m [simplified]]
  have code: "resumeAccepting sys sv = (if \<not> acceptPaused sv then sv else if \<not> UniqueFd_bool r then ?sv
      else case q of Some _ \<Rightarrow> sv' | None \<Rightarrow> sv'\<lparr>acceptPaused := False\<rparr>)"
    using m by (simp add: resumeAccepting_def u a Let_def split: option.split)
  show "ninv base (resumeAccepting sys sv)" unfolding code using inv sv1(1) ok by (cases q) simp_all
  show "later pending sv (resumeAccepting sys sv)"
    unfolding code using later_trans [OF sv1(2) ok(3)] sv1(2) by (cases q) (simp_all add: later_def)
  have "vw ?sv = vw sv" by (rule view_quiet) (use sv1(3) in simp_all)
  then show "vw (resumeAccepting sys sv) = vw sv" unfolding code using ok(4,5) by (cases q) simp_all
qed

lemma handleAcceptFailure_ok:
  assumes inv: "ninv base sv" and e: "e \<notin> misuse"
  obtains b sv' where "handleAcceptFailure sys e sv = Some (b, sv')" "ninv base sv'" "later pending sv sv'"
    "b \<longrightarrow> e \<in> transient \<or> pending (world sv') < pending (world sv)" "vw sv' = vw sv"
proof -
  obtain f where f: "classifyAcceptErrno e = Some f" "f = kRetry \<longleftrightarrow> e \<in> transient"
    using e by (cases e) (auto simp: misuse_def transient_def)
  obtain b sv1 where s: "shedPending sys sv = (b, sv1)" by fastforce
  note sh = shedPending_ok [OF inv s]
  note p = pauseAccepting_ok [OF inv] pauseAccepting_ok [OF sh(1)]
  show thesis
  proof (cases f)
    case kShed
    then show thesis
      using that [of b "if b then sv1 else pauseAccepting sys sv1"] f s sh p(4,6) later_trans [OF sh(2) p(5)]
      by (simp add: handleAcceptFailure_def split: if_splits)
  qed (use f inv p that in \<open>simp_all add: handleAcceptFailure_def\<close>)
qed

section \<open>The accept loop\<close>

lemma adopt_safe:
  assumes inv: "ninv (base(n \<mapsto> KStream)) sv" and n: "base n = None" "n \<noteq> - 1"
    and silent: "taken (world sv) n = []" "sent (world sv) n = []"
  shows "safe base sv (case Connection_make sys (UniqueFd_make n) sv of (Inl e, sv) \<Rightarrow> Some sv | (Inr i, sv) \<Rightarrow> emplace sys i sv)"
proof -
  let ?i = "nextObj sv"
  define c where "c = \<lparr>connFd = UniqueFd_make n, inbuf = Buffer_init kDefaultCapacity, outbuf = Buffer_init kDefaultCapacity,
    cstate = kOpen, interest = EPOLLIN\<rparr>"
  have c: "connFd c = UniqueFd_make n" "cstate c = kOpen" "interest c = EPOLLIN" "conn_ok c"
    by (simp_all add: c_def conn_ok_def Buffer_capacity_def) (simp add: Buffer_init_def kMaxInput_def)
  have out: "n \<notin> owned_fds sv" using wires_owned(2) [OF ninv_wires [OF inv], of n] by auto
  have open_n: "fds (world sv) n \<noteq> None" "watched (world sv) n = None"
    using wires_unowned [OF ninv_wires [OF inv] out] by simp_all
  have eq: "(base(n \<mapsto> KStream))(n := None) = base" using n(1) by auto
  obtain r w where r: "sys_epoll_ctl sys (UniqueFd_get (epollFd (loop sv))) n (CTL_ADD EPOLLIN (HConn ?i)) (world sv) = (r, w)"
    by fastforce
  note ok = ctl_add_ok [OF loop_facts(2) [OF inv] open_n r]
  have code: "Connection_make sys (UniqueFd_make n) sv = (case r of
      Some e \<Rightarrow> (Inl e, sv\<lparr>world := sys_close sys n w\<rparr>)
    | None \<Rightarrow> (Inr ?i, (put_conn ?i c (sv\<lparr>world := w\<rparr>))\<lparr>nextObj := ?i + 1\<rparr>))"
    using r n(2) by (simp add: Connection_make_def loop_add_def epollCtl_def Let_def dtor_make c_def split: option.split)
  show ?thesis
  proof (cases r)
    case (Some e)
    have set: "settled (world sv) w" using ok Some by (simp add: settled_def)
    note cl = outside_closed [OF ninv_settled [OF inv set], of n, unfolded eq]
    have same: "vw (sv\<lparr>world := sys_close sys n w\<rparr>) = vw sv" by (rule view_quiet) (use cl(3) ok in \<open>simp_all add: quiet_def\<close>)
    show ?thesis
      by (rule safeI [of _ "sv\<lparr>world := sys_close sys n w\<rparr>"])
        (use code Some cl later_trans [OF later_settled [OF set]] same in simp_all)
  next
    case None
    let ?sv = "sv\<lparr>connections := (connections sv)(n \<mapsto> ?i), objs := (objs sv)(?i \<mapsto> c), nextObj := ?i + 1, world := w\<rparr>"
    have "connections sv n = None"
    proof (cases "connections sv n")
      case (Some j)
      then have "n \<in> owned_fds sv"
        using wires_owner(1) [OF ninv_wires [OF inv]] by (auto simp: owned_fds_def conn_fds_def)
      then show ?thesis using out by blast
    qed
    then have "emplace sys ?i ((put_conn ?i c (sv\<lparr>world := w\<rparr>))\<lparr>nextObj := ?i + 1\<rparr>) = Some ?sv"
      using c(1) by (simp add: emplace_def Let_def put_conn_def)
    moreover have "ninv base ?sv"
      using wires_new [OF ninv_wires [OF inv], of n c] c n(2) ok None inv unfolding eq by (simp add: net_inv_def)
    moreover have "later pending sv ?sv" using ok by (auto simp: later_def)
    moreover have "leads (vw sv) (vw ?sv)"
    proof (rule r_into_rtranclp)
      have "objs sv ?i = None" using obj_facts(1) [OF inv, of ?i] by (cases "objs sv ?i") auto
      then have "turn (vw sv) ((vw sv)\<lparr>clients := (clients (vw sv))(?i \<mapsto> newcomer)\<rparr>)" by (intro turn.arrive) simp
      moreover have "cl w c = newcomer"
        using ok silent c(1) by (simp add: client_of_def newcomer_def quiet_def c_def Let_def)
      moreover have "cl w = cl (world sv)" using ok by (auto simp: client_of_quiet)
      ultimately show "turn (vw sv) (vw ?sv)" by (simp add: view_def fun_upd_def if_distrib cong: if_cong)
    qed
    ultimately show ?thesis using code None by (simp add: safe_def)
  qed
qed

lemma acceptPending_safe: "ninv base sv \<Longrightarrow> safe base sv (acceptPending sys sv)"
proof (induction "pending (world sv)" arbitrary: sv rule: less_induct)
  case less
  let ?ac = "UniqueFd_get (acceptorFd sv)"
  have again: "safe base sv (acceptPending sys sv')"
    if "ninv base sv'" "later pending sv sv'" "leads (vw sv) (vw sv')" "pending (world sv') < pending (world sv)" for sv'
    using safe_after [OF that(2,3) less.hyps [OF that(4,1)]] .
  obtain r w where ac: "sys_accept4 sys ?ac (world sv) = (r, w)" by fastforce
  note ok = accept4_ok [OF loop_facts(4) [OF less.prems] ac]
  show ?case
  proof (cases r)
    case (Inl e)
    then have e: "settled (world sv) w" "e \<notin> misuse" "e \<in> transient \<Longrightarrow> pending w < pending (world sv)" "still (world sv) w"
      using ok by (simp_all add: settled_def opens_def)
    obtain b sv' where h: "handleAcceptFailure sys e (sv\<lparr>world := w\<rparr>) = Some (b, sv')" "ninv base sv'"
        "later pending (sv\<lparr>world := w\<rparr>) sv'" "b \<longrightarrow> e \<in> transient \<or> pending (world sv') < pending (world (sv\<lparr>world := w\<rparr>))"
        "vw sv' = vw (sv\<lparr>world := w\<rparr>)"
      by (rule handleAcceptFailure_ok [OF ninv_settled [OF less.prems e(1)] e(2)])
    have later: "later pending sv sv'" by (rule later_trans [OF later_settled [OF e(1)] h(3)])
    have "vw (sv\<lparr>world := w\<rparr>) = vw sv" by (rule view_quiet) (use e(4) in simp_all)
    then have leads: "leads (vw sv) (vw sv')" using h(5) by simp
    have "pending (world sv') < pending (world sv)" if b
      using h(3,4) that e(1,3) by (auto simp: later_def settled_def)
    then show ?thesis
      using again [OF h(2) later leads] safeI [OF refl h(2) later leads] ac Inl h(1) by (subst acceptPending.simps) simp
  next
    case (Inr n)
    then have o: "opens fds watched KStream (world sv) (Inr n, w)" "pending w < pending (world sv)"
        "taken w = (taken (world sv))(n := [])" "sent w = (sent (world sv))(n := [])" using ok by simp_all
    note n = outside_opened [OF less.prems o(1)]
    have p: "pending w \<le> pending (world sv)" using o(2) by simp
    obtain nd w1 where nd: "sys_nodelay sys n w = (nd, w1)" by fastforce
    have "fds w n = Some KStream" using o(1) by (simp add: opens_def)
    then have set: "settled w w1" "still w w1" using nodelay_ok [OF _ nd] by (simp_all add: settled_def)
    let ?sv1 = "sv\<lparr>world := w1\<rparr>"
    have vw1: "vw ?sv1 = vw sv" using view_fresh [OF less.prems o(1,3,4)] view_quiet [of ?sv1 "sv\<lparr>world := w\<rparr>" taken sent] set(2) by simp
    have silent: "taken w1 n = []" "sent w1 n = []" using set(2) o(3,4) by (simp_all add: quiet_def)
    have sv1: "ninv (base(n \<mapsto> KStream)) ?sv1" "later pending sv ?sv1" "pending w1 < pending (world sv)"
      using ninv_settled [OF n(1) [OF p], of w1] set o(2) by (simp_all add: later_def settled_def)
    have eq: "(base(n \<mapsto> KStream))(n := None) = base" using n(3) [OF p] by auto
    show ?thesis
    proof (cases nd)
      case (Some e)
      note cl = outside_closed [OF sv1(1), of n, unfolded eq, simplified]
      have "vw (sv\<lparr>world := sys_close sys n w1\<rparr>) = vw ?sv1" by (rule view_quiet) (use cl(3) in simp_all)
      with cl have "safe base sv (acceptPending sys (sv\<lparr>world := sys_close sys n w1\<rparr>))"
        using sv1 vw1 by (intro again) (auto simp: later_def)
      then show ?thesis using ac Inr nd Some n(4) [OF p] by (subst acceptPending.simps) (simp add: dtor_make)
    next
      case None
      let ?m = "case Connection_make sys (UniqueFd_make n) ?sv1 of (Inl e, sv) \<Rightarrow> Some sv | (Inr i, sv) \<Rightarrow> emplace sys i sv"
      obtain sv2 where sv2: "?m = Some sv2" "ninv base sv2" "later pending ?sv1 sv2" "leads (vw ?sv1) (vw sv2)"
        using adopt_safe [OF sv1(1) n(3,4) [OF p]] silent by (auto simp: safe_def)
      have "safe base sv (acceptPending sys sv2)"
        using sv2 sv1(3) vw1 by (intro again later_trans [OF sv1(2)]) (auto simp: later_def)
      then show ?thesis using ac Inr nd None sv2(1) by (subst acceptPending.simps) simp
    qed
  qed
qed

end

end
