(* ===== verification/Server_Inv.thy ===== *)
theory Server_Inv
  imports Accept_Inv
begin

text \<open>
  The event loop keeps the invariant: handlers run only on objects that are alive, objects are
  destroyed only between batches of events, and one iteration always returns. What the clients see
  of it are turns of the service.
\<close>

section \<open>Destroying objects\<close>

text \<open>The state without the objects \<open>xs\<close> and without their owners.\<close>

definition shrink :: "nat list \<Rightarrow> ('p, 'w) Server \<Rightarrow> ('p, 'w) Server" where
  "shrink xs sv = sv\<lparr>connections := (\<lambda>g. case connections sv g of Some j \<Rightarrow> if j \<in> set xs then None else Some j | None \<Rightarrow> None),
     retired := filter (\<lambda>i. i \<notin> set xs) (retired sv), objs := (objs sv) |` (- set xs)\<rparr>"

lemma wires_shrink:
  assumes inv: "wires_inv base fs ws sv" and i: "objs sv i = Some c"
  shows "wires_inv base (fs(cfd c := None)) (ws(cfd c := None)) (shrink [i] sv)"
proof -
  have "(\<lambda>g. case connections sv g of Some j \<Rightarrow> if j \<in> set [i] then None else Some j | None \<Rightarrow> None) = (connections sv)(cfd c := None)"
  proof
    fix g
    show "(case connections sv g of Some j \<Rightarrow> if j \<in> set [i] then None else Some j | None \<Rightarrow> None) = ((connections sv)(cfd c := None)) g"
    proof (cases "connections sv g")
      case (Some j)
      then obtain d where d: "objs sv j = Some d" "cfd d = g" using wires_owner(1) [OF inv] by blast
      have "j = i \<longleftrightarrow> g = cfd c" using d i wires_inj [OF inv i d(1)] by auto
      then show ?thesis using Some by auto
    qed simp
  qed
  moreover have "filter (\<lambda>j. j \<notin> set [i]) (retired sv) = removeAll i (retired sv)"
    unfolding removeAll_filter_not_eq by (rule filter_cong) auto
  moreover have "objs sv |` (- set [i]) = (objs sv)(i := None)" by (simp add: restrict_complement_singleton_eq)
  ultimately have "shrink [i] sv = sv\<lparr>connections := (connections sv)(cfd c := None), retired := removeAll i (retired sv), objs := (objs sv)(i := None)\<rparr>"
    unfolding shrink_def by simp
  then show ?thesis using wires_destroy [OF inv i refl] by simp
qed

lemma shrink_simps [simp]:
  "objs (shrink xs sv) = objs sv |` (- set xs)" "world (shrink xs sv) = world sv" "loop (shrink xs sv) = loop sv"
  "store (shrink xs sv) = store sv" "cfg (shrink xs sv) = cfg sv" "retired (shrink xs sv) = filter (\<lambda>i. i \<notin> set xs) (retired sv)"
  "lastSweepMs (shrink xs sv) = lastSweepMs sv" "cachedNow (shrink xs sv) = cachedNow sv" "cachedTick (shrink xs sv) = cachedTick sv"
  "acceptorFd (shrink xs sv) = acceptorFd sv" "reserveFd (shrink xs sv) = reserveFd sv"
  "time_inv (shrink xs sv) \<longleftrightarrow> time_inv sv"
  by (simp_all add: shrink_def time_inv_def)

lemma shrink_Cons: "shrink xs (shrink [i] sv) = shrink (i # xs) sv" "shrink [] sv = sv"
  by (auto simp: shrink_def fun_eq_iff restrict_map_def conj_commute split: option.split)

lemma shrink_world: "shrink xs (sv\<lparr>world := w\<rparr>) = (shrink xs sv)\<lparr>world := w\<rparr>"
  by (simp add: shrink_def)

text \<open>Destruction looks at neither owner, nor at the reserve.\<close>

definition disown :: "(int \<rightharpoonup> nat) \<Rightarrow> nat list \<Rightarrow> UniqueFd \<Rightarrow> ('p, 'w) Server \<Rightarrow> ('p, 'w) Server" where
  "disown m r u sv = sv\<lparr>connections := m, retired := r, reserveFd := u\<rparr>"

lemma destroyAll_disown:
  "destroyAll sys xs (disown m r u sv) = map_option (disown m r u) (destroyAll sys xs sv)"
proof (induction xs arbitrary: sv)
  case (Cons i xs)
  have "Connection_dtor sys i (disown m r u sv) = map_option (disown m r u) (Connection_dtor sys i sv)"
  proof (cases "objs sv i")
    case (Some c)
    obtain q w where "sys_epoll_ctl sys (UniqueFd_get (epollFd (loop sv))) (cfd c) CTL_DEL (world sv) = (q, w)" by fastforce
    then show ?thesis using Some by (cases q) (simp_all add: Connection_dtor_def disown_def loop_remove_def epollCtl_def)
  qed (simp add: Connection_dtor_def disown_def)
  then show ?case using Cons by (cases "Connection_dtor sys i sv") simp_all
qed simp

context server_env
begin

lemma Connection_dtor_ok:
  assumes inv: "ninv base sv" and i: "objs sv i = Some c"
  obtains w where "Connection_dtor sys i sv = Some (sv\<lparr>world := w, objs := (objs sv)(i := None)\<rparr>)"
    "ninv base ((shrink [i] sv)\<lparr>world := w\<rparr>)" "still (world sv) w"
proof -
  obtain r w1 where r: "sys_epoll_ctl sys (UniqueFd_get (epollFd (loop sv))) (cfd c) CTL_DEL (world sv) = (r, w1)" by fastforce
  have "watched (world sv) (cfd c) \<noteq> None" using obj_facts(5) [OF inv i] by simp
  note ok = ctl_del_ok [OF loop_facts(2) [OF inv] this r]
  have g: "cfd c \<noteq> - 1" "fds w1 (cfd c) \<noteq> None" using obj_facts(3,4) [OF inv i] ok by simp_all
  let ?w = "sys_close sys (cfd c) w1"
  note cl = close_ok [OF g(2) refl]
  have "Connection_dtor sys i sv = Some (sv\<lparr>world := ?w, objs := (objs sv)(i := None)\<rparr>)"
    using i r ok g(1) by (simp add: Connection_dtor_def loop_remove_def epollCtl_def Let_def UniqueFd_dtor_def UniqueFd_get_def)
  moreover have "ninv base ((shrink [i] sv)\<lparr>world := ?w\<rparr>)"
    using wires_shrink [OF ninv_wires [OF inv] i] inv ok cl by (simp add: net_inv_def)
  moreover have "still (world sv) ?w" using ok cl by (simp add: quiet_def)
  ultimately show thesis by (rule that)
qed

lemma destroyAll_ok:
  assumes "ninv base sv" "distinct xs" "set xs \<subseteq> dom (objs sv)"
  shows "\<exists>w. destroyAll sys xs sv = Some (sv\<lparr>world := w, objs := objs sv |` (- set xs)\<rparr>) \<and>
    ninv base ((shrink xs sv)\<lparr>world := w\<rparr>) \<and> still (world sv) w"
  using assms
proof (induction xs arbitrary: sv)
  case Nil
  then show ?case by (intro exI [of _ "world sv"]) (simp add: shrink_Cons quiet_def)
next
  case (Cons i xs)
  obtain c where i: "objs sv i = Some c" using Cons.prems(3) by auto
  obtain w where w: "Connection_dtor sys i sv = Some (sv\<lparr>world := w, objs := (objs sv)(i := None)\<rparr>)"
      "ninv base ((shrink [i] sv)\<lparr>world := w\<rparr>)" "still (world sv) w"
    by (rule Connection_dtor_ok [OF Cons.prems(1) i])
  let ?sv = "(shrink [i] sv)\<lparr>world := w\<rparr>"
  have "distinct xs" "set xs \<subseteq> dom (objs ?sv)" using Cons.prems(2,3) by (auto simp: restrict_map_def)
  from Cons.IH [OF w(2) this] obtain w' where w':
      "destroyAll sys xs ?sv = Some (?sv\<lparr>world := w', objs := objs ?sv |` (- set xs)\<rparr>)" "ninv base ((shrink xs ?sv)\<lparr>world := w'\<rparr>)"
      "still w w'"
    by auto
  have objs: "objs ?sv |` (- set xs) = objs sv |` (- set (i # xs))" by (auto simp: restrict_map_def fun_eq_iff)
  have "sv\<lparr>world := w, objs := (objs sv)(i := None)\<rparr> = disown (connections sv) (retired sv) (reserveFd sv) ?sv"
    by (simp add: disown_def shrink_def restrict_complement_singleton_eq)
  then have "destroyAll sys (i # xs) sv = Some (disown (connections sv) (retired sv) (reserveFd sv) (?sv\<lparr>world := w', objs := objs ?sv |` (- set xs)\<rparr>))"
    using w(1) w'(1) by (simp add: destroyAll_disown)
  also have "disown (connections sv) (retired sv) (reserveFd sv) (?sv\<lparr>world := w', objs := objs ?sv |` (- set xs)\<rparr>) =
      sv\<lparr>world := w', objs := objs sv |` (- set (i # xs))\<rparr>"
    unfolding objs by (simp add: disown_def shrink_def)
  finally show ?case using w'(2,3) w(3) by (auto simp: shrink_world shrink_Cons quiet_def)
qed

text \<open>Clients whose objects are destroyed leave.\<close>

lemma leads_leave: "leads a (a\<lparr>clients := clients a |` (- set xs)\<rparr>)"
proof (induction xs)
  case (Cons i xs)
  let ?b = "a\<lparr>clients := clients a |` (- set xs)\<rparr>"
  have "(clients ?b)(i := None) = clients a |` (- set (i # xs))" by (auto simp: restrict_map_def)
  then have "turn ?b (a\<lparr>clients := clients a |` (- set (i # xs))\<rparr>)" using turn.leave [of ?b i] by simp
  with Cons show ?case by (rule rtranclp.rtrancl_into_rtrancl)
qed (simp add: restrict_map_def)

lemma leads_restrict:
  assumes "objs sv' = objs sv |` (- set xs)" "store sv' = store sv" "still (world sv) (world sv')"
  shows "leads (vw sv) (vw sv')"
proof -
  have "vw sv' = (vw sv)\<lparr>clients := clients (vw sv) |` (- set xs)\<rparr>"
    using assms client_of_quiet [OF assms(3)] by (auto simp: view_def restrict_map_def fun_eq_iff map_option_case split: option.split)
  then show ?thesis using leads_leave by simp
qed

lemma destroyRetired_ok:
  assumes inv: "ninv base sv"
  obtains w where "destroyRetired sys sv = Some (sv\<lparr>world := w, objs := objs sv |` (- set (retired sv)), retired := []\<rparr>)"
    "ninv base (sv\<lparr>world := w, objs := objs sv |` (- set (retired sv)), retired := []\<rparr>)" "still (world sv) w"
proof -
  have "set (retired sv) \<subseteq> dom (objs sv)" using wires_owner(2) [OF ninv_wires [OF inv]] by auto
  then obtain w where w: "destroyAll sys (retired sv) sv = Some (sv\<lparr>world := w, objs := objs sv |` (- set (retired sv))\<rparr>)"
      "ninv base ((shrink (retired sv) sv)\<lparr>world := w\<rparr>)" "still (world sv) w"
    using destroyAll_ok [OF inv wires_owner(3) [OF ninv_wires [OF inv]]] by blast
  have "(case connections sv g of Some j \<Rightarrow> if j \<in> set (retired sv) then None else Some j | None \<Rightarrow> None) = connections sv g" for g
    using wires_owner(1,2) [OF ninv_wires [OF inv]] by (cases "connections sv g") (simp, force)
  then have "shrink (retired sv) sv = sv\<lparr>objs := objs sv |` (- set (retired sv)), retired := []\<rparr>"
    by (simp add: shrink_def)
  then have "(shrink (retired sv) sv)\<lparr>world := w\<rparr> = sv\<lparr>world := w, objs := objs sv |` (- set (retired sv)), retired := []\<rparr>" by simp
  then show thesis using that [of w] w by (simp add: destroyRetired_def)
qed

end

section \<open>One iteration\<close>

text \<open>Between iterations no closed object is left, and the cached time is good or unused.\<close>

definition rest_inv :: "('p \<Rightarrow> addr set) \<Rightarrow> ('p \<Rightarrow> bool) \<Rightarrow> ('w \<Rightarrow> int \<rightharpoonup> fd_kind) \<Rightarrow> ('w \<Rightarrow> int \<rightharpoonup> u32 \<times> handler) \<Rightarrow>
    (int \<rightharpoonup> fd_kind) \<Rightarrow> ('p, 'w) Server \<Rightarrow> bool" where
  "rest_inv live pool_inv fds watched base sv \<longleftrightarrow> net_inv live pool_inv fds watched base sv \<and> retired sv = [] \<and>
     (clock_ok (cachedNow sv) \<or> tickCount (loop sv) = 0 \<and> cachedTick sv = - 1)"

lemma wires_loop_frame:
  "wires_inv base fs ws (sv\<lparr>loop := (loop sv)\<lparr>stopRequested := b\<rparr>\<rparr>) \<longleftrightarrow> wires_inv base fs ws sv"
  "wires_inv base fs ws (sv\<lparr>loop := (loop sv)\<lparr>tickCount := n\<rparr>\<rparr>) \<longleftrightarrow> wires_inv base fs ws sv"
  by (simp_all add: wires_inv_def obj_inv_def owners_inv_def loop_inv_def base_inv_def owned_fds_def conn_fds_def)

text \<open>The part of an iteration after the wait.\<close>

definition batch :: "'p pool_ops \<Rightarrow> 'w sys_ops \<Rightarrow> (u32 \<times> handler) list \<Rightarrow> ('p, 'w) Server \<Rightarrow> ('p, 'w) Server option" where
  "batch ops sys evs sv =
     do { sv \<leftarrow> dispatchEvents ops sys evs (sv\<lparr>loop := (loop sv)\<lparr>tickCount := tickCount (loop sv) + 1\<rparr>\<rparr>); onTick ops sys sv }"

lemma resumeAccepting_frame [simp]:
  "retired (resumeAccepting sys sv) = retired sv" "lastSweepMs (resumeAccepting sys sv) = lastSweepMs sv"
  by (simp_all add: resumeAccepting_def loop_modify_def epollCtl_def Let_def split: prod.split option.split)

context server_env
begin

abbreviation rinv :: "(int \<rightharpoonup> fd_kind) \<Rightarrow> ('p, 'w) Server \<Rightarrow> bool" where
  "rinv base sv \<equiv> rest_inv live pool_inv fds watched base sv"

definition handled :: "('p, 'w) Server \<Rightarrow> handler \<Rightarrow> bool" where
  "handled sv h \<longleftrightarrow> (case h of HAcceptor \<Rightarrow> True | HConn i \<Rightarrow> i \<in> dom (objs sv))"

lemma handled_later: "handled sv h \<Longrightarrow> later pending sv sv' \<Longrightarrow> handled sv' h"
  by (auto simp: handled_def later_def split: handler.splits)

lemma watched_handled:
  assumes "ninv base sv" "watched (world sv) g = Some (ev, h)"
  shows "handled sv h"
  using wires_owner(4) [OF ninv_wires [OF assms(1)] assms(2)] by (auto simp: handled_def)

lemma handler_safe:
  assumes inv: "ninv base sv" and h: "handled sv h"
  shows "safe base sv (onReadable ops sys h sv)" "safe base sv (onWritable sys h sv)"
proof -
  show "safe base sv (onReadable ops sys h sv)"
    using acceptPending_safe [OF inv] onReadable_safe [OF inv] h by (cases h) (auto simp: handled_def)
  show "safe base sv (onWritable sys h sv)"
    using safe_same [OF inv] onWritable_safe [OF inv] h by (cases h) (auto simp: handled_def)
qed

lemma dispatchEvent_safe:
  assumes inv: "ninv base sv" and h: "handled sv (snd ev)"
  shows "safe base sv (dispatchEvent ops sys ev sv)"
proof -
  obtain m io where ev: "ev = (m, io)" by (cases ev)
  have "safe base sv (if m AND (EPOLLIN OR EPOLLERR OR EPOLLHUP) \<noteq> 0 then onReadable ops sys io sv else Some sv)"
    using handler_safe(1) [OF inv] safe_same [OF inv] h by (simp add: ev)
  then show ?thesis
    unfolding dispatchEvent_def ev prod.case
    by (rule safe_bind) (use handler_safe(2) safe_same handled_later h in \<open>simp add: ev\<close>)
qed

lemma dispatchEvents_safe:
  "ninv base sv \<Longrightarrow> \<forall>ev \<in> set evs. handled sv (snd ev) \<Longrightarrow> safe base sv (dispatchEvents ops sys evs sv)"
proof (induction evs arbitrary: sv)
  case Nil
  then show ?case by (simp add: safe_same)
next
  case (Cons ev evs)
  have "safe base sv (dispatchEvent ops sys ev sv)" using Cons.prems by (intro dispatchEvent_safe) simp_all
  then show ?case
    unfolding dispatchEvents.simps
  proof (rule safe_bind)
    fix sv'
    assume "ninv base sv'" "later pending sv sv'"
    then show "safe base sv' (dispatchEvents ops sys evs sv')"
      using Cons.prems(2) handled_later by (intro Cons.IH) auto
  qed
qed

lemma sweep_ok:
  assumes inv: "ninv base sv" and t: "clock_ok t"
  obtains r st where "activeExpireCycle ops t n (store sv) = Some (r, st)" "ninv base (sv\<lparr>store := st, lastSweepMs := t\<rparr>)"
    "leads (vw sv) (vw (sv\<lparr>store := st, lastSweepMs := t\<rparr>))"
proof -
  have s: "sinv (store sv)" using inv by (simp add: net_inv_def)
  obtain r st where st: "activeExpireCycle ops t n (store sv) = Some (r, st)" "sinv st"
      "store_spec (t, OpCycle n) (store_abs (store sv)) (RCycle r) (store_abs st)"
    using store_step_refines [OF s, of t "OpCycle n"] by (auto split: bind_splits)
  have "ninv base (sv\<lparr>store := st, lastSweepMs := t\<rparr>)"
    using inv st(2) t by (simp add: net_inv_def time_inv_def clock_ok_def)
  moreover have "leads (vw sv) (vw (sv\<lparr>store := st, lastSweepMs := t\<rparr>))"
    using turn.sweep [of t n "vw sv" "RCycle r" "store_abs st"] st(3) by (intro r_into_rtranclp) (simp add: view_def)
  ultimately show thesis using that st(1) by blast
qed

lemma onTick_ok:
  assumes inv: "ninv base sv"
  obtains sv' where "onTick ops sys sv = Some sv'" "rinv base sv'" "loop sv' = loop sv" "cfg sv' = cfg sv"
    "leads (vw sv) (vw sv')"
proof -
  obtain w where d: "destroyRetired sys sv = Some (sv\<lparr>world := w, objs := objs sv |` (- set (retired sv)), retired := []\<rparr>)"
      "ninv base (sv\<lparr>world := w, objs := objs sv |` (- set (retired sv)), retired := []\<rparr>)" (is "ninv base ?sv1") "still (world sv) w"
    by (rule destroyRetired_ok [OF inv])
  let ?sv2 = "resumeAccepting sys ?sv1"
  note sv2 = resumeAccepting_ok [OF d(2)]
  obtain t sv3 where now: "Server_now sys ?sv2 = (t, sv3)" by fastforce
  obtain w' where n: "sv3 = ?sv2\<lparr>cachedNow := t, cachedTick := tickCount (loop ?sv2), world := w'\<rparr>" "clock_ok t" "ninv base sv3"
      "later pending ?sv2 sv3" "still (world ?sv2) w'"
    by (rule Server_now_ok [OF sv2(1) now])
  have keep: "loop sv3 = loop sv" "cfg sv3 = cfg sv" using sv2(2) n(4) by (simp_all add: later_def)
  have empty: "retired sv3 = []" "cachedNow sv3 = t" using n(1) by simp_all
  have "0 \<le> lastSweepMs sv3" "lastSweepMs sv3 \<le> INT64_MAX" using n(3) by (simp_all add: net_inv_def time_inv_def)
  then have i64: "i64 (t - lastSweepMs sv3)" using n(2) by (simp add: i64_def clock_ok_def)
  obtain r st where c: "activeExpireCycle ops t (expireSampleBuckets (cfg sv3)) (store sv3) = Some (r, st)"
      "ninv base (sv3\<lparr>store := st, lastSweepMs := t\<rparr>)" "leads (vw sv3) (vw (sv3\<lparr>store := st, lastSweepMs := t\<rparr>))"
    by (rule sweep_ok [OF n(3,2)])
  let ?sv4 = "if t - lastSweepMs sv3 \<ge> expireIntervalMs (cfg sv3) then sv3\<lparr>store := st, lastSweepMs := t\<rparr> else sv3"
  have "onTick ops sys sv = Some ?sv4"
    using d(1) now i64 c(1) by (simp add: onTick_def)
  moreover have "rinv base ?sv4" using n(2,3) c(2) empty by (simp add: rest_inv_def)
  moreover have "leads (vw sv) (vw sv3)"
  proof -
    have "leads (vw sv) (vw ?sv1)" by (rule leads_restrict) (use d(3) in simp_all)
    moreover have "vw sv3 = vw ?sv2" by (rule view_quiet) (use n(1,5) in simp_all)
    ultimately show ?thesis using sv2(3) by simp
  qed
  moreover from this have "leads (vw sv) (vw ?sv4)" using c(3) by (auto intro: rtranclp_trans)
  ultimately show thesis using that [of ?sv4] keep by simp
qed

lemma rest_stop:
  "rinv base (sv\<lparr>loop := (loop sv)\<lparr>stopRequested := b\<rparr>\<rparr>) \<longleftrightarrow> rinv base sv"
  by (simp add: rest_inv_def net_inv_def wires_loop_frame time_inv_def)

lemma rest_settled: "rinv base sv \<Longrightarrow> fds w = fds (world sv) \<Longrightarrow> watched w = watched (world sv) \<Longrightarrow> rinv base (sv\<lparr>world := w\<rparr>)"
  by (simp add: rest_inv_def net_inv_def)

lemma rest_tick:
  assumes "rinv base sv"
  shows "ninv base (sv\<lparr>loop := (loop sv)\<lparr>tickCount := tickCount (loop sv) + 1\<rparr>\<rparr>)"
  using assms by (auto simp: rest_inv_def net_inv_def wires_loop_frame time_inv_def)

lemma batch_ok:
  assumes inv: "rinv base sv" and evs: "\<And>ev h. (ev, h) \<in> set evs \<Longrightarrow> \<exists>g ev0. watched (world sv) g = Some (ev0, h)"
  obtains sv' where "batch ops sys evs sv = Some sv'" "rinv base sv'" "cfg sv' = cfg sv" "leads (vw sv) (vw sv')"
proof -
  let ?sv = "sv\<lparr>loop := (loop sv)\<lparr>tickCount := tickCount (loop sv) + 1\<rparr>\<rparr>"
  have inv1: "ninv base ?sv" by (rule rest_tick [OF inv])
  have "handled ?sv (snd ev)" if "ev \<in> set evs" for ev
    using evs [of "fst ev" "snd ev"] that watched_handled [OF inv1] by auto
  then have "safe base ?sv (dispatchEvents ops sys evs ?sv)" by (intro dispatchEvents_safe [OF inv1]) blast
  then obtain sv1 where d: "dispatchEvents ops sys evs ?sv = Some sv1" "ninv base sv1" "later pending ?sv sv1"
      "leads (vw ?sv) (vw sv1)"
    unfolding safe_def by blast
  obtain sv2 where t: "onTick ops sys sv1 = Some sv2" "rinv base sv2" "loop sv2 = loop sv1" "cfg sv2 = cfg sv1"
      "leads (vw sv1) (vw sv2)"
    by (rule onTick_ok [OF d(2)])
  have "vw ?sv = vw sv" by (simp add: view_def)
  then have "leads (vw sv) (vw sv2)" using rtranclp_trans [OF d(4) t(5)] by simp
  with t show thesis by (intro that [of sv2]) (use d in \<open>simp_all add: batch_def later_def\<close>)
qed

lemma loop_tick_ok:
  assumes inv: "rinv base sv"
  obtains st sv' where "loop_tick ops sys sv = Some (st, sv')" "rinv base sv'" "cfg sv' = cfg sv" "leads (vw sv) (vw sv')"
    "stopRequested (loop sv) \<longrightarrow> st = Stopped"
proof -
  obtain ew w where ew: "sys_epoll_wait sys (UniqueFd_get (epollFd (loop sv))) kMaxEvents (expireIntervalMs (cfg sv)) (world sv) = (ew, w)"
    by fastforce
  have n: "ninv base sv" using inv by (simp add: rest_inv_def)
  note wait = epoll_wait_ok [OF loop_facts(2) [OF n] ew]
  have inv2: "rinv base (sv\<lparr>world := w\<rparr>)" using rest_settled [OF inv] wait by blast
  let ?stop = "\<lambda>sv. sv\<lparr>loop := (loop sv)\<lparr>stopRequested := False\<rparr>\<rparr>"
  have com: "sv\<lparr>loop := l, world := w\<rparr> = sv\<lparr>world := w, loop := l\<rparr>" for l by simp
  have code: "loop_tick ops sys sv = (if stopRequested (loop sv) then Some (Stopped, ?stop sv)
      else case ew of
        Inl e \<Rightarrow> (if e = EINTR then Some (Running, sv\<lparr>world := w\<rparr>) else Some (Threw e, ?stop (sv\<lparr>world := w\<rparr>)))
      | Inr evs \<Rightarrow> do { require (length evs \<le> kMaxEvents);
          sv \<leftarrow> batch ops sys evs (sv\<lparr>world := w\<rparr>); Some (Running, sv) })"
    unfolding loop_tick_def ew by (simp add: batch_def com split: sum.split)
  have vws: "vw (?stop sv) = vw sv" "vw (sv\<lparr>world := w\<rparr>) = vw sv" "vw (?stop (sv\<lparr>world := w\<rparr>)) = vw sv"
    by (rule view_quiet; use wait in \<open>simp add: quiet_def\<close>)+
  have stops: "rinv base (?stop sv)" "rinv base (?stop (sv\<lparr>world := w\<rparr>))" using inv inv2 rest_stop by blast+
  consider "stopRequested (loop sv)" | "\<not> stopRequested (loop sv)" "ew = Inl EINTR"
    | e where "\<not> stopRequested (loop sv)" "ew = Inl e" "e \<noteq> EINTR" | evs where "\<not> stopRequested (loop sv)" "ew = Inr evs"
    by (cases ew) auto
  then show thesis
  proof cases
    case 1
    show thesis by (rule that [of Stopped "?stop sv"]) (use code 1 stops(1) vws in simp_all)
  next
    case 2
    show thesis by (rule that [of Running "sv\<lparr>world := w\<rparr>"]) (use code 2 inv2 vws in simp_all)
  next
    case (3 e)
    show thesis by (rule that [of "Threw e" "?stop (sv\<lparr>world := w\<rparr>)"]) (use code 3 stops(2) vws in simp_all)
  next
    case (4 evs)
    have "\<exists>g ev0. watched (world (sv\<lparr>world := w\<rparr>)) g = Some (ev0, h)" if "(ev, h) \<in> set evs" for ev h
      using wait 4 that by simp
    then obtain sv3 where b: "batch ops sys evs (sv\<lparr>world := w\<rparr>) = Some sv3" "rinv base sv3" "cfg sv3 = cfg sv"
        "leads (vw (sv\<lparr>world := w\<rparr>)) (vw sv3)"
      by (rule batch_ok [OF inv2]) simp_all
    have "loop_tick ops sys sv = Some (Running, sv3)" using code 4 wait b(1) by simp
    then show thesis by (rule that [OF _ b(2)]) (use b(3,4) vws 4 in simp_all)
  qed
qed

text \<open>Every object that is alive is counted.\<close>

lemma rest_count:
  assumes inv: "rinv base sv"
  shows "connectionCount sv = card (dom (objs sv))"
proof -
  have w: "wires_inv base (fds (world sv)) (watched (world sv)) sv" and r: "retired sv = []"
    using inv by (simp_all add: rest_inv_def net_inv_def)
  have up: "connections sv (cfd c) = Some i" if "objs sv i = Some c" for i c
    using wires_obj(6,7) [OF w that] r by auto
  have down: "\<exists>c. objs sv i = Some c \<and> cfd c = g" if "connections sv g = Some i" for g i
    using wires_owner(1) [OF w that] by blast
  have inj: "inj_on (\<lambda>g. the (connections sv g)) (dom (connections sv))"
  proof (rule inj_onI)
    fix g h
    assume "g \<in> dom (connections sv)" "h \<in> dom (connections sv)" "the (connections sv g) = the (connections sv h)"
    then obtain i where "connections sv g = Some i" "connections sv h = Some i" by auto
    then show "g = h" using down [of g i] down [of h i] by auto
  qed
  have "(\<lambda>g. the (connections sv g)) ` dom (connections sv) = dom (objs sv)"
  proof (intro equalityI subsetI)
    fix i
    assume "i \<in> (\<lambda>g. the (connections sv g)) ` dom (connections sv)"
    then obtain g where "connections sv g = Some i" by auto
    then show "i \<in> dom (objs sv)" using down by blast
  next
    fix i
    assume "i \<in> dom (objs sv)"
    then obtain c where "connections sv (cfd c) = Some i" using up by blast
    then show "i \<in> (\<lambda>g. the (connections sv g)) ` dom (connections sv)" by (intro image_eqI [of _ _ "cfd c"]) auto
  qed
  from card_image [OF inj, unfolded this] show ?thesis by (simp add: connectionCount_def)
qed

lemma stop_ok:
  assumes "rinv base sv"
  shows "rinv base (Server_stop sv)" "vw (Server_stop sv) = vw sv" "cfg (Server_stop sv) = cfg sv" "stopRequested (loop (Server_stop sv))"
  using assms rest_stop [where b = True and sv = sv] by (simp_all add: Server_stop_def loop_stop_def view_def)

text \<open>A run that is still going on was not told to stop.\<close>

lemma Server_run_ok:
  assumes "rinv base sv"
  shows "\<exists>st sv'. Server_run ops sys sigs sv = Some (st, sv') \<and> rinv base sv' \<and> cfg sv' = cfg sv \<and> leads (vw sv) (vw sv') \<and>
    (st = Running \<longrightarrow> True \<notin> set sigs \<and> (stopRequested (loop sv) \<longrightarrow> sigs = []))"
  using assms
proof (induction sigs arbitrary: sv)
  case Nil
  then show ?case by simp
next
  case (Cons sig sigs)
  let ?sv = "if sig then Server_stop sv else sv"
  have sv: "rinv base ?sv" "vw ?sv = vw sv" "cfg ?sv = cfg sv" using Cons.prems stop_ok by simp_all
  obtain st sv1 where t: "loop_tick ops sys ?sv = Some (st, sv1)" "rinv base sv1" "cfg sv1 = cfg ?sv" "leads (vw ?sv) (vw sv1)"
      "stopRequested (loop ?sv) \<longrightarrow> st = Stopped"
    by (rule loop_tick_ok [OF sv(1)])
  have leads: "leads (vw sv) (vw sv1)" using t(4) sv(2) by simp
  have stop: "st \<noteq> Stopped \<longrightarrow> \<not> sig \<and> \<not> stopRequested (loop sv)"
    using t(5) stop_ok(4) [OF Cons.prems] by (cases sig) auto
  have "retired sv1 = []" using t(2) by (simp add: rest_inv_def)
  then have d: "destroyRetired sys sv1 = Some sv1" by (simp add: destroyRetired_def)
  show ?case
  proof (cases st)
    case Running
    obtain st' sv' where "Server_run ops sys sigs sv1 = Some (st', sv')" "rinv base sv'" "cfg sv' = cfg sv1"
        "leads (vw sv1) (vw sv')" "st' = Running \<longrightarrow> True \<notin> set sigs"
      using Cons.IH [OF t(2)] by blast
    then show ?thesis using Running t(1,3) sv(3) stop rtranclp_trans [OF leads] by auto
  qed (use t(1-3) sv(3) leads d in auto)
qed

end

end
