(* ===== verification/Lifecycle.thy ===== *)
theory Lifecycle
  imports Server_Inv
begin

text \<open>
  Construction establishes the invariant of the network layer or undoes everything it opened;
  destruction closes every descriptor of the server and leaves those of the rest of the process.
\<close>

lemma destroyAll_append: "destroyAll sys (xs @ ys) sv = do { sv \<leftarrow> destroyAll sys xs sv; destroyAll sys ys sv }"
proof (induction xs arbitrary: sv)
  case (Cons i xs)
  then show ?case by (cases "Connection_dtor sys i sv") simp_all
qed simp

lemma Acceptor_dtor_cong:
  assumes dt: "Acceptor_dtor sys sv = Some (sv\<lparr>world := w\<rparr>)"
    and eq: "loop sv' = loop sv" "acceptorFd sv' = acceptorFd sv" "world sv' = world sv"
  shows "Acceptor_dtor sys sv' = Some (sv'\<lparr>world := w\<rparr>)"
proof -
  let ?ac = "UniqueFd_get (acceptorFd sv)"
  obtain r w0 where r: "sys_epoll_ctl sys (UniqueFd_get (epollFd (loop sv))) ?ac CTL_DEL (world sv) = (r, w0)" by fastforce
  have "Acceptor_dtor sys sv = do { require (r = None); Some (sv\<lparr>world := UniqueFd_dtor sys (acceptorFd sv) w0\<rparr>) }"
    by (cases r) (simp_all add: Acceptor_dtor_def loop_remove_def epollCtl_def r)
  then have r': "r = None \<and> sv\<lparr>world := UniqueFd_dtor sys (acceptorFd sv) w0\<rparr> = sv\<lparr>world := w\<rparr>"
    unfolding dt by (cases r) simp_all
  have "world (sv\<lparr>world := UniqueFd_dtor sys (acceptorFd sv) w0\<rparr>) = world (sv\<lparr>world := w\<rparr>)"
    using r' by (intro arg_cong [of _ _ world]) blast
  then have "UniqueFd_dtor sys (acceptorFd sv) w0 = w" by simp
  moreover have "r = None" using r' ..
  ultimately show ?thesis by (simp add: Acceptor_dtor_def loop_remove_def epollCtl_def r eq)
qed

text \<open>The configurations the store is built for.\<close>

definition config_ok :: "ServerConfig \<Rightarrow> bool" where
  "config_ok c \<longleftrightarrow> unat (initialBuckets (storeCfg c)) \<le> 2 ^ 63 \<and> unat (cfgMaxKeys (storeCfg c)) \<le> kPoolCapacity \<and>
     1 \<le> cfgLruSamples (storeCfg c) \<and> cfgLruSamples (storeCfg c) \<le> 64"

text \<open>The database of a new server.\<close>

definition fresh_db :: "Config \<Rightarrow> spec_state" where
  "fresh_db c = \<lparr>cap = (if cfgMaxKeys c = 0 then kPoolCapacity else unat (cfgMaxKeys c)), samples = unat (cfgLruSamples c),
     pol = cfgPolicy c, kvs = Map.empty\<rparr>"

context server_env
begin

section \<open>Destruction\<close>

lemma loop_dtor_ok:
  assumes inv: "ninv base sv" and none: "objs sv = Map.empty" "reserveFd sv = UniqueFd_make (- 1)"
  shows "\<exists>w1. Acceptor_dtor sys sv = Some (sv\<lparr>world := w1\<rparr>) \<and> fds (EventLoop_dtor sys (loop sv) w1) = base \<and>
    watched (EventLoop_dtor sys (loop sv) w1) = Map.empty"
proof -
  let ?ep = "UniqueFd_get (epollFd (loop sv))" and ?ac = "UniqueFd_get (acceptorFd sv)"
  note lp = loop_facts [OF inv]
  obtain r w0 where r: "sys_epoll_ctl sys ?ep ?ac CTL_DEL (world sv) = (r, w0)" by fastforce
  have "watched (world sv) ?ac \<noteq> None" using lp(5) by simp
  note del = ctl_del_ok [OF lp(2) this r]
  let ?w1 = "sys_close sys ?ac w0"
  have "fds w0 ?ac \<noteq> None" using del lp(4) by simp
  note c1 = close_ok [OF this refl]
  have ne: "?ep \<noteq> ?ac" using lp(2,4) by auto
  then have "fds ?w1 ?ep \<noteq> None" using c1 del lp(2) by simp
  note c2 = close_ok [OF this refl]
  have w: "EventLoop_dtor sys (loop sv) ?w1 = sys_close sys ?ep ?w1"
    using lp(1) by (simp add: EventLoop_dtor_def UniqueFd_dtor_def UniqueFd_get_def)
  have owned: "owned_fds sv = {?ep, ?ac}" using none by (auto simp: owned_fds_def conn_fds_def)
  have "fds (EventLoop_dtor sys (loop sv) ?w1) = base"
  proof
    fix g
    show "fds (EventLoop_dtor sys (loop sv) ?w1) g = base g"
      using wires_owned(2) [OF ninv_wires [OF inv], of g] wires_unowned(1) [OF ninv_wires [OF inv], of g] del c1 c2
      unfolding owned w by auto
  qed
  moreover have "watched (EventLoop_dtor sys (loop sv) ?w1) = Map.empty"
  proof
    fix g
    show "watched (EventLoop_dtor sys (loop sv) ?w1) g = None"
      using wires_unowned(2) [OF ninv_wires [OF inv], of g] del c1 c2 unfolding owned w by auto
  qed
  moreover have "Acceptor_dtor sys sv = Some (sv\<lparr>world := ?w1\<rparr>)"
    using r del lp(3) by (simp add: Acceptor_dtor_def loop_remove_def epollCtl_def UniqueFd_dtor_def UniqueFd_get_def)
  ultimately show ?thesis by blast
qed

lemma Server_dtor_ok:
  assumes inv: "ninv base sv" and order: "distinct order" "set order = ran (connections sv)"
  shows "\<exists>h q w. Server_dtor ops sys order sv = Some ((h, q), w) \<and> fds w = base \<and> watched w = Map.empty \<and>
    blocks h = Map.empty \<and> live q = {}"
proof -
  define u where "u = UniqueFd_make (- 1)"
  define w1 where "w1 = UniqueFd_dtor sys (reserveFd sv) (world sv)"
  let ?sv1 = "sv\<lparr>reserveFd := u, world := w1\<rparr>"
  have "UniqueFd_reset sys (- 1) (reserveFd sv) (world sv) = (u, w1)"
    by (auto simp: UniqueFd_reset_def UniqueFd_dtor_def UniqueFd_make_def u_def w1_def)
  note inv1 = drop_reserve(1) [OF inv this]
  let ?xs = "retired sv @ order"
  have owner: "\<exists>c. objs sv i = Some c \<and> cstate c \<noteq> kClosed" if i: "i \<in> set order" for i
  proof -
    obtain g where "connections sv g = Some i" using i order(2) by (auto simp: ran_def)
    then show ?thesis using wires_owner(1) [OF ninv_wires [OF inv]] by blast
  qed
  have dead: "\<exists>c. objs sv i = Some c \<and> cstate c = kClosed" if "i \<in> set (retired sv)" for i
    using wires_owner(2) [OF ninv_wires [OF inv] that] .
  have "set (retired sv) \<inter> set order = {}" using owner dead by fastforce
  then have "distinct ?xs" using order(1) wires_owner(3) [OF ninv_wires [OF inv]] by simp
  moreover have "set ?xs \<subseteq> dom (objs ?sv1)" using owner dead by fastforce
  ultimately obtain w2 where w2:
      "destroyAll sys ?xs ?sv1 = Some (?sv1\<lparr>world := w2, objs := objs ?sv1 |` (- set ?xs)\<rparr>)"
      "ninv base ((shrink ?xs ?sv1)\<lparr>world := w2\<rparr>)" using destroyAll_ok [OF inv1] by blast
  have all: "i \<in> set ?xs" if "objs sv i = Some c" for i c
    using obj_facts(6,7) [OF inv that] order(2) by (auto simp: ran_def)
  then have none: "objs ?sv1 |` (- set ?xs) = Map.empty"
    by (auto simp: restrict_map_def fun_eq_iff) (metis not_Some_eq)
  let ?sv2 = "(shrink ?xs ?sv1)\<lparr>world := w2\<rparr>"
  obtain w3 where w3: "Acceptor_dtor sys ?sv2 = Some (?sv2\<lparr>world := w3\<rparr>)"
      "fds (EventLoop_dtor sys (loop ?sv2) w3) = base" "watched (EventLoop_dtor sys (loop ?sv2) w3) = Map.empty"
    using loop_dtor_ok [OF w2(2)] none by (auto simp: u_def)
  let ?sv = "sv\<lparr>world := w1\<rparr>"
  let ?own = "disown (connections sv) (retired sv) (reserveFd sv)"
  have eq: "?sv = ?own ?sv1" by (simp add: disown_def)
  have "destroyAll sys ?xs ?sv = map_option ?own (destroyAll sys ?xs ?sv1)" unfolding eq by (rule destroyAll_disown)
  then have "destroyAll sys ?xs ?sv = Some (?own (?sv1\<lparr>world := w2, objs := Map.empty\<rparr>))" unfolding w2(1) none by simp
  also have "?own (?sv1\<lparr>world := w2, objs := Map.empty\<rparr>) = sv\<lparr>world := w2, objs := Map.empty\<rparr>" by (simp add: disown_def)
  finally have "destroyAll sys ?xs ?sv = Some (sv\<lparr>world := w2, objs := Map.empty\<rparr>)" .
  moreover have "Acceptor_dtor sys (sv\<lparr>world := w2, objs := Map.empty\<rparr>) = Some (sv\<lparr>world := w3, objs := Map.empty\<rparr>)"
    using Acceptor_dtor_cong [OF w3(1), of "sv\<lparr>world := w2, objs := Map.empty\<rparr>"] by simp
  moreover obtain h q where mem: "Store_dtor ops (store sv) = Some (h, q)" "blocks h = Map.empty" "live q = {}"
    using Store_dtor_correct [of "store sv"] inv by (auto simp: net_inv_def)
  moreover have "Server_dtor ops sys order sv =
      do { sv \<leftarrow> destroyAll sys ?xs ?sv; sv \<leftarrow> Acceptor_dtor sys sv; m \<leftarrow> Store_dtor ops (store sv);
           Some (m, EventLoop_dtor sys (loop sv) (world sv)) }"
    by (simp add: Server_dtor_def w1_def destroyAll_append)
  ultimately have "Server_dtor ops sys order sv = Some ((h, q), EventLoop_dtor sys (loop sv) w3)" by simp
  then show ?thesis using w3(2,3) mem by simp
qed

section \<open>Construction\<close>

lemma EventLoop_make_ok:
  assumes "EventLoop_make sys w = (r, w')"
  obtains (failed) e where "r = Inl e" "fds w' = fds w" "watched w' = watched w"
    | (made) n where "r = Inr \<lparr>epollFd = UniqueFd_make n, tickCount = 0, stopRequested = False\<rparr>" "n \<noteq> - 1" "fds w n = None"
        "watched w n = None" "fds w' = (fds w)(n \<mapsto> KEpoll)" "watched w' = watched w"
proof -
  obtain ac w0 where ac: "sys_epoll_create1 sys w = (ac, w0)" by fastforce
  from epoll_create1_ok [OF ac] show thesis
  proof (cases rule: opensE)
    case (failed e)
    then show thesis using that(1) [of e] assms ac by (auto simp: EventLoop_make_def)
  next
    case (opened n)
    then show thesis
      using that(2) [of n] assms ac by (auto simp: EventLoop_make_def UniqueFd_reset_def UniqueFd_make_def Let_def)
  qed
qed

lemma openListener_ok:
  assumes "openListener sys c w = (r, w')"
  obtains (failed) e where "r = Inl e" "fds w' = fds w" "watched w' = watched w"
    | (made) n where "r = Inr (UniqueFd_make n)" "n \<noteq> - 1" "fds w n = None" "watched w n = None"
        "fds w' = (fds w)(n \<mapsto> KListener)" "watched w' = watched w"
proof (cases "sys_inet_pton sys (bindAddr c)")
  case None
  then show thesis using that(1) [of InvalidBind] assms by (auto simp: openListener_def)
next
  case (Some addr)
  obtain ac w0 where ac: "sys_socket sys w = (ac, w0)" by fastforce
  from socket_ok [OF ac] show thesis
  proof (cases rule: opensE)
    case (failed e)
    then show thesis using that(1) [of "SysError e"] assms ac Some by (auto simp: openListener_def)
  next
    case (opened n)
    have leave: "fds (sys_close sys n v) = fds w \<and> watched (sys_close sys n v) = watched w"
      if v: "fds v = fds w0" "watched v = watched w0" for v
    proof -
      have "fds v n \<noteq> None" using v opened by simp
      from close_ok [OF this refl] show ?thesis using v opened by auto
    qed
    obtain r1 w1 where r1: "sys_reuseaddr sys n w0 = (r1, w1)" by fastforce
    obtain r2 w2 where r2: "sys_bind sys n addr (port c) w1 = (r2, w2)" by fastforce
    obtain r3 w3 where r3: "sys_listen sys n (backlog c) w2 = (r3, w3)" by fastforce
    have k0: "fds w0 n = Some KSocket" using opened by simp
    have s1: "fds w1 = fds w0" "watched w1 = watched w0" using setup_ok [OF k0] r1 by blast+
    have k1: "fds w1 n = Some KSocket" using s1 k0 by simp
    have s2: "fds w2 = fds w0" "watched w2 = watched w0" using setup_ok [OF k1] r2 s1 by metis+
    have k2: "fds w2 n = Some KSocket" using s2 k0 by simp
    note s3 = listen_ok [OF k2 r3]
    have code: "openListener sys c w = (if r1 \<noteq> None then (Inl (SysError (the r1)), sys_close sys n w1)
        else if r2 \<noteq> None then (Inl (SysError (the r2)), sys_close sys n w2)
        else if r3 \<noteq> None then (Inl (SysError (the r3)), sys_close sys n w3) else (Inr (UniqueFd_make n), w3))"
      using Some ac opened(1,2) r1 r2 r3
      by (simp add: openListener_def Let_def dtor_make split: option.split)
    show thesis
    proof (cases "r1 = None \<and> r2 = None \<and> r3 = None")
      case True
      then show thesis using that(2) [of n] assms code opened s2 s3 by simp
    next
      case False
      then obtain e v where "r = Inl e" "w' = sys_close sys n v" "fds v = fds w0" "watched v = watched w0"
        using assms code s1 s2 s3 by (auto split: if_splits)
      then show thesis using that(1) [of e] leave by blast
    qed
  qed
qed

text \<open>A server with its listener registered and nothing else.\<close>

lemma bare_inv:
  assumes ep: "ep \<noteq> - 1" "fs ep = None" and ac: "ac \<noteq> - 1" "fs ac = None" "ac \<noteq> ep"
    and sv: "objs sv = Map.empty" "connections sv = Map.empty" "retired sv = []" "acceptPaused sv = False"
      "epollFd (loop sv) = UniqueFd_make ep" "acceptorFd sv = UniqueFd_make ac" "reserveFd sv = UniqueFd_make (- 1)"
  shows "wires_inv fs (fs(ep \<mapsto> KEpoll, ac \<mapsto> KListener)) [ac \<mapsto> (EPOLLIN, HAcceptor)] sv"
proof (rule wiresI)
  have "owned_fds sv = {ep, ac}" using sv by (auto simp: owned_fds_def conn_fds_def)
  then show "base_inv fs (fs(ep \<mapsto> KEpoll, ac \<mapsto> KListener)) sv" using ep ac by (simp add: base_inv_def)
qed (use assms in \<open>auto simp: reserve_inv_def split: if_splits\<close>)

lemma Server_make_ok:
  assumes p: "pool_inv p" "live p = {}" and c: "config_ok c" and w: "watched w = Map.empty"
  shows "\<exists>r. Server_make p rd1 rd2 ops sys c w = Some r \<and>
    (case r of Inl (e, (h, q), w') \<Rightarrow> fds w' = fds w \<and> blocks h = Map.empty \<and> live q = {}
     | Inr sv \<Rightarrow> rinv (fds w) sv \<and> cfg sv = c \<and> vw sv = \<lparr>db = fresh_db (storeCfg c), clients = Map.empty\<rparr>)"
proof -
  obtain st where st: "Store_init p rd1 rd2 (storeCfg c) = Some st" "sinv st" "store_abs st = fresh_db (storeCfg c)"
    using Store_init_correct [OF p, of "storeCfg c" rd1 rd2] c by (auto simp: config_ok_def fresh_db_def store_abs_def)
  obtain h q where mem: "Store_dtor ops st = Some (h, q)" "blocks h = Map.empty" "live q = {}"
    using Store_dtor_correct [OF st(2)] by blast
  obtain l w1 where l: "EventLoop_make sys w = (l, w1)" by fastforce
  from this show ?thesis
  proof (cases rule: EventLoop_make_ok)
    case (failed e)
    then show ?thesis using st mem l by (simp add: Server_make_def)
  next
    case (made ep)
    let ?l = "\<lparr>epollFd = UniqueFd_make ep, tickCount = 0, stopRequested = False\<rparr>"
    let ?sv = "\<lparr>cfg = c, store = st, loop = ?l, acceptorFd = UniqueFd_make (- 1), connections = Map.empty,
       retired = [], cachedNow = 0, lastSweepMs = 0, cachedTick = - 1, reserveFd = UniqueFd_make (- 1),
       acceptPaused = False, objs = Map.empty, nextObj = 0, world = w1\<rparr>"
    have unwind: "fds (EventLoop_dtor sys ?l v) = fds w" if v: "fds v = fds w1" for v
    proof -
      have "fds v ep \<noteq> None" using v made by simp
      from close_ok [OF this refl] show ?thesis using v made by (auto simp: EventLoop_dtor_def dtor_make)
    qed
    obtain o2 w2 where o2: "openListener sys c w1 = (o2, w2)" by fastforce
    from this show ?thesis
    proof (cases rule: openListener_ok)
      case (failed e)
      then show ?thesis using st mem l made o2 unwind [of w2] by (simp add: Server_make_def Acceptor_make_def)
    next
      case ac: (made ac)
      obtain r w3 where r: "sys_epoll_ctl sys ep ac (CTL_ADD EPOLLIN HAcceptor) w2 = (r, w3)" by fastforce
      have ne: "ac \<noteq> ep" using ac made by auto
      have pre: "fds w2 ep = Some KEpoll" "fds w2 ac \<noteq> None" "watched w2 ac = None"
        using ac made w ne by auto
      note add = ctl_add_ok [OF pre r]
      have code: "Acceptor_make sys ?sv = (case r of Some e \<Rightarrow> (Some (SysError e), ?sv\<lparr>world := sys_close sys ac w3\<rparr>)
          | None \<Rightarrow> (None, ?sv\<lparr>acceptorFd := UniqueFd_make ac, world := w3\<rparr>))"
        using o2 ac(1,2) r by (simp add: Acceptor_make_def loop_add_def epollCtl_def dtor_make split: option.split)
      show ?thesis
      proof (cases r)
        case (Some e)
        have "fds w3 ac \<noteq> None" using add pre by simp
        from close_ok [OF this refl] have "fds (sys_close sys ac w3) = fds w1" using add ac by auto
        from unwind [OF this] show ?thesis using st mem l made code Some by (simp add: Server_make_def)
      next
        case None
        let ?sv3 = "?sv\<lparr>acceptorFd := UniqueFd_make ac, world := w3\<rparr>"
        have tables: "fds w3 = (fds w)(ep \<mapsto> KEpoll, ac \<mapsto> KListener)" "watched w3 = [ac \<mapsto> (EPOLLIN, HAcceptor)]"
          using add ac made w None by auto
        have "fds w ac = None" using ac(3) made(5) ne by (simp split: if_splits)
        then have "wires_inv (fds w) (fds w3) (watched w3) ?sv3"
          unfolding tables by (intro bare_inv) (use made ac ne in simp_all)
        then have inv3: "ninv (fds w) ?sv3" using st by (simp add: net_inv_def time_inv_def)
        obtain u w4 where u: "openReserve sys w3 = (u, w4)" by fastforce
        have "UniqueFd_assign sys (reserveFd ?sv3) u w4 = ((u, UniqueFd_make (- 1)), w4)"
          by (simp add: UniqueFd_assign_def UniqueFd_release_def UniqueFd_reset_def UniqueFd_make_def Let_def)
        from refill_reserve(1) [OF inv3 _ this] u have "ninv (fds w) (?sv3\<lparr>reserveFd := u, world := w4\<rparr>)" by simp
        then have "rinv (fds w) (?sv3\<lparr>reserveFd := u, world := w4\<rparr>)" by (simp add: rest_inv_def)
        then show ?thesis using st l made code None u by (simp add: Server_make_def view_def)
      qed
    qed
  qed
qed

end

end
