(* ===== verification/Loopback.thy ===== *)
theory Loopback
  imports Unique_Fd
begin

text \<open>
  An executable kernel that meets the interface \<open>kernel\<close>: a table of open descriptors with a limit,
  an interest list served level-triggered, a queue of connections, bytes waiting on each socket and
  a clock that moves with every wait. Writes are accepted 4096 bytes at a time. It shows that the
  hypotheses on the kernel can be met together and lets the examples run.
\<close>

record Kern =
  opened :: "(int \<times> fd_kind) list"
  interests :: "(int \<times> u32 \<times> handler) list"
  arrived :: "int \<Rightarrow> string"
  fetched :: "int \<Rightarrow> string"
  accepted :: "int \<Rightarrow> string"
  backlogged :: nat
  clock :: nat
  fdLimit :: nat

definition drop_key :: "'k \<Rightarrow> ('k \<times> 'v) list \<Rightarrow> ('k \<times> 'v) list" where
  "drop_key k xs = filter (\<lambda>p. fst p \<noteq> k) xs"

definition fresh_fd :: "Kern \<Rightarrow> int" where
  "fresh_fd w = 1 + foldr max (map fst (opened w) @ map fst (interests w)) 0"

definition kopen :: "fd_kind \<Rightarrow> Kern \<Rightarrow> (errno + int) \<times> Kern" where
  "kopen k w =
     (if fdLimit w \<le> length (opened w) then (Inl EMFILE, w)
      else (Inr (fresh_fd w), w\<lparr>opened := (fresh_fd w, k) # opened w\<rparr>))"

definition kread :: "int \<Rightarrow> nat \<Rightarrow> Kern \<Rightarrow> (errno + string) \<times> Kern" where
  "kread fd n w =
     (if arrived w fd = [] then (Inl EAGAIN, w)
      else (Inr (take n (arrived w fd)), w\<lparr>arrived := (arrived w)(fd := drop n (arrived w fd)),
                                             fetched := (fetched w)(fd := fetched w fd @ take n (arrived w fd))\<rparr>))"

definition kwrite :: "int \<Rightarrow> string \<Rightarrow> Kern \<Rightarrow> (errno + nat) \<times> Kern" where
  "kwrite fd v w =
     (Inr (min 4096 (length v)), w\<lparr>accepted := (accepted w)(fd := accepted w fd @ take (min 4096 (length v)) v)\<rparr>)"

definition kaccept :: "int \<Rightarrow> Kern \<Rightarrow> (errno + int) \<times> Kern" where
  "kaccept fd w =
     (if backlogged w = 0 then (Inl EAGAIN, w)
      else case kopen KStream w of
             (Inr n, w) \<Rightarrow> (Inr n, w\<lparr>backlogged := backlogged w - 1, fetched := (fetched w)(n := []), accepted := (accepted w)(n := [])\<rparr>)
           | (Inl e, w) \<Rightarrow> (Inl e, w))"

definition kclose :: "int \<Rightarrow> Kern \<Rightarrow> Kern" where
  "kclose fd w = w\<lparr>opened := drop_key fd (opened w), interests := drop_key fd (interests w)\<rparr>"

fun kctl :: "int \<Rightarrow> int \<Rightarrow> ctl \<Rightarrow> Kern \<Rightarrow> errno option \<times> Kern" where
  "kctl ep fd (CTL_ADD ev h) w =
     (if map_of (opened w) fd = None then (Some EBADF, w)
      else if map_of (interests w) fd \<noteq> None then (Some (EOTHER 17), w)
      else (None, w\<lparr>interests := (fd, ev, h) # interests w\<rparr>))"
| "kctl ep fd (CTL_MOD ev h) w =
     (if map_of (interests w) fd = None then (Some ENOENT, w)
      else (None, w\<lparr>interests := (fd, ev, h) # drop_key fd (interests w)\<rparr>))"
| "kctl ep fd CTL_DEL w =
     (if map_of (interests w) fd = None then (Some ENOENT, w)
      else (None, w\<lparr>interests := drop_key fd (interests w)\<rparr>))"

definition ready :: "Kern \<Rightarrow> int \<Rightarrow> u32 \<times> handler" where
  "ready w fd =
     (case map_of (interests w) fd of
        None \<Rightarrow> (0, HAcceptor)
      | Some (ev, h) \<Rightarrow>
          (ev AND (if map_of (opened w) fd = Some KListener then (if 0 < backlogged w then EPOLLIN else 0)
                   else (if arrived w fd \<noteq> [] then EPOLLIN else 0) OR EPOLLOUT), h))"

definition kwait :: "int \<Rightarrow> nat \<Rightarrow> int \<Rightarrow> Kern \<Rightarrow> (errno + (u32 \<times> handler) list) \<times> Kern" where
  "kwait ep n t w =
     (Inr (take n (filter (\<lambda>e. fst e \<noteq> 0) (map (ready w) (remdups (map fst (interests w)))))), w\<lparr>clock := clock w + 1\<rparr>)"

definition loopback_ops :: "Kern sys_ops" where
  "loopback_ops =
     \<lparr>sys_read = kread, sys_write = kwrite, sys_accept4 = kaccept, sys_close = kclose, sys_open_null = kopen KNull,
      sys_nodelay = \<lambda>_ w. (None, w), sys_epoll_ctl = kctl, sys_epoll_wait = kwait,
      sys_now = \<lambda>w. (1000 + int (clock w) mod 2 ^ 62, w),
      sys_epoll_create1 = kopen KEpoll, sys_socket = kopen KSocket, sys_reuseaddr = \<lambda>_ w. (None, w),
      sys_bind = \<lambda>_ _ _ w. (None, w),
      sys_listen = \<lambda>fd _ w. (None, w\<lparr>opened := (fd, KListener) # drop_key fd (opened w)\<rparr>),
      sys_inet_pton = \<lambda>a. if a = ''127.0.0.1'' then Some 0x7F000001 else None\<rparr>"

definition boot :: "nat \<Rightarrow> Kern" where
  "boot n = \<lparr>opened = [(0, KStream), (1, KStream), (2, KStream)], interests = [], arrived = \<lambda>_. [], fetched = \<lambda>_. [], accepted = \<lambda>_. [],
     backlogged = n, clock = 0, fdLimit = 1024\<rparr>"

section \<open>The interface holds\<close>

lemma map_of_drop_key [simp]: "map_of (drop_key k xs) = (map_of xs)(k := None)"
  by (induction xs) (auto simp: drop_key_def)

lemma fresh_fd_free: "map_of (opened w) (fresh_fd w) = None" "map_of (interests w) (fresh_fd w) = None" "fresh_fd w \<noteq> - 1"
proof -
  have le: "x \<in> set xs \<Longrightarrow> x \<le> foldr max xs 0" "0 \<le> foldr max xs 0" for x :: int and xs
    by (induction xs) auto
  have "x < fresh_fd w" if "x \<in> set (map fst (opened w) @ map fst (interests w))" for x
    using le(1) [OF that] by (simp add: fresh_fd_def)
  then have "fresh_fd w \<notin> set (map fst (opened w) @ map fst (interests w))" by blast
  then show "map_of (opened w) (fresh_fd w) = None" "map_of (interests w) (fresh_fd w) = None"
    by (simp_all add: map_of_eq_None_iff)
  show "fresh_fd w \<noteq> - 1"
    using le(2) [of "map fst (opened w) @ map fst (interests w)"] by (simp add: fresh_fd_def)
qed

abbreviation kquiet :: "Kern \<Rightarrow> Kern \<Rightarrow> bool" where
  "kquiet \<equiv> quiet fetched accepted"

lemma kquietI: "fetched w' = fetched w \<Longrightarrow> accepted w' = accepted w \<Longrightarrow> kquiet w w'"
  by (simp add: quiet_def)

lemma kopen_opens:
  "opens (map_of \<circ> opened) (map_of \<circ> interests) k w (kopen k w)" "backlogged (snd (kopen k w)) = backlogged w"
  "fetched (snd (kopen k w)) = fetched w" "accepted (snd (kopen k w)) = accepted w"
  using fresh_fd_free [of w] by (auto simp: opens_def kopen_def)

lemma kaccept_ok:
  "opens (map_of \<circ> opened) (map_of \<circ> interests) KStream w (kaccept fd w)"
  "backlogged (snd (kaccept fd w)) \<le> backlogged w"
  "fst (kaccept fd w) = Inr n \<Longrightarrow> backlogged (snd (kaccept fd w)) < backlogged w \<and>
     fetched (snd (kaccept fd w)) = (fetched w)(n := []) \<and> accepted (snd (kaccept fd w)) = (accepted w)(n := [])"
  "fst (kaccept fd w) = Inl e \<Longrightarrow> kquiet w (snd (kaccept fd w)) \<and> (e = EAGAIN \<or> e = EMFILE)"
  using fresh_fd_free [of w] by (auto simp: kaccept_def kopen_def opens_def quiet_def split: if_splits)

interpretation loopback: kernel loopback_ops "map_of \<circ> opened" "map_of \<circ> interests" fetched accepted backlogged
proof
  fix w fd n rd w'
  assume "sys_read loopback_ops fd n w = (rd, w')"
  then show "(map_of \<circ> opened) w' = (map_of \<circ> opened) w \<and> (map_of \<circ> interests) w' = (map_of \<circ> interests) w \<and>
      accepted w' = accepted w \<and> backlogged w' \<le> backlogged w \<and>
      (case rd of Inl e \<Rightarrow> fetched w' = fetched w
       | Inr bs \<Rightarrow> length bs \<le> n \<and> fetched w' = (fetched w)(fd := fetched w fd @ bs))"
    by (auto simp: loopback_ops_def kread_def split: if_splits)
next
  fix w fd ac
  assume "sys_accept4 loopback_ops fd w = ac"
  then have ac: "ac = kaccept fd w" by (simp add: loopback_ops_def)
  show "opens (map_of \<circ> opened) (map_of \<circ> interests) KStream w ac \<and> backlogged (snd ac) \<le> backlogged w \<and>
      (case fst ac of Inl e \<Rightarrow> kquiet w (snd ac) \<and> e \<notin> misuse \<and> (e \<in> transient \<longrightarrow> backlogged (snd ac) < backlogged w)
       | Inr n \<Rightarrow> backlogged (snd ac) < backlogged w \<and> fetched (snd ac) = (fetched w)(n := []) \<and> accepted (snd ac) = (accepted w)(n := []))"
    unfolding ac using kaccept_ok [where w = w and fd = fd] by (auto simp: misuse_def transient_def split: sum.split)
next
  fix w ep n t ew w'
  assume "sys_epoll_wait loopback_ops ep n t w = (ew, w')"
  then have ew: "ew = Inr (take n (filter (\<lambda>e. fst e \<noteq> 0) (map (ready w) (remdups (map fst (interests w))))))" "w' = w\<lparr>clock := clock w + 1\<rparr>"
    by (simp_all add: loopback_ops_def kwait_def)
  have "\<exists>fd ev0. map_of (interests w) fd = Some (ev0, h)" if mem: "(ev, h) \<in> set (take n (filter (\<lambda>e. fst e \<noteq> 0) (map (ready w) (remdups (map fst (interests w))))))" for ev h
  proof -
    obtain fd where "ready w fd = (ev, h)" "ev \<noteq> 0" using in_set_takeD [OF mem] by (auto simp: image_iff)
    then have "\<exists>ev0. map_of (interests w) fd = Some (ev0, h)" by (auto simp: ready_def split: option.splits)
    then show ?thesis by blast
  qed
  then show "(map_of \<circ> opened) w' = (map_of \<circ> opened) w \<and> (map_of \<circ> interests) w' = (map_of \<circ> interests) w \<and> kquiet w w' \<and>
      (\<forall>evs. ew = Inr evs \<longrightarrow> length evs \<le> n \<and>
        (\<forall>ev h. (ev, h) \<in> set evs \<longrightarrow> (\<exists>fd ev0. (map_of \<circ> interests) w fd = Some (ev0, h))))"
    using ew by (auto intro: kquietI)
qed (auto simp: loopback_ops_def kwrite_def kclose_def kopen_opens intro: kquietI split: if_splits)

end
