(* ===== verification/Startup.thy ===== *)
theory Startup
  imports Lifecycle Loopback
begin

text \<open>
  \<open>main.cpp\<close>: the command line, the exit status, and what a whole run leaves behind. The times
  at which signals arrive are arguments. \<open>std::strtoul\<close> and \<open>std::strtoull\<close> in
  base 10 are the same function on a 64-bit system: leading white space, an optional sign, digits;
  the result saturates, and a minus sign negates it modulo \<open>2 ^ 64\<close>. Output is left out.
\<close>

section \<open>Definitions\<close>

definition c_space :: "char \<Rightarrow> bool" where
  "c_space c \<longleftrightarrow> c = CHR 0x20 \<or> (9 \<le> (of_char c :: nat) \<and> (of_char c :: nat) \<le> 13)"

definition strtoull :: "string \<Rightarrow> u64" where
  "strtoull s =
     (let t = dropWhile c_space s;
          neg = (t \<noteq> [] \<and> hd t = CHR ''-'');
          u = (if t \<noteq> [] \<and> (hd t = CHR ''-'' \<or> hd t = CHR ''+'') then tl t else t);
          n = horner (takeWhile digit_char u) 0
      in if n \<ge> 2 ^ 64 then - 1 else if neg then - of_nat n else of_nat n)"

text \<open>The loop over \<open>argv\<close>; \<open>None\<close> is the usage message.\<close>

fun parseArgs :: "string list \<Rightarrow> ServerConfig \<Rightarrow> ServerConfig option" where
  "parseArgs [] c = Some c"
| "parseArgs [a] c = None"
| "parseArgs (a # v # rest) c =
     (if a = ''--bind'' then parseArgs rest (c\<lparr>bindAddr := v\<rparr>)
      else if a = ''--port'' then parseArgs rest (c\<lparr>port := ucast (strtoull v)\<rparr>)
      else if a = ''--maxkeys'' then parseArgs rest (c\<lparr>storeCfg := (storeCfg c)\<lparr>cfgMaxKeys := strtoull v\<rparr>\<rparr>)
      else if a = ''--buckets'' then parseArgs rest (c\<lparr>storeCfg := (storeCfg c)\<lparr>initialBuckets := strtoull v\<rparr>\<rparr>)
      else None)"

text \<open>\<open>gServer\<close> and the signal handler. The handler is installed once \<open>gServer\<close> points to the server and
  stays installed when the server is gone; using it then is undefined.\<close>

datatype 's pointer = Null | Live 's | Dangling

fun onSignal :: "('p, 'w) Server pointer \<Rightarrow> ('p, 'w) Server pointer option" where
  "onSignal Null = Some Null"
| "onSignal (Live sv) = Some (Live (Server_stop sv))"
| "onSignal Dangling = None"

definition deliver :: "bool \<Rightarrow> ('p, 'w) Server pointer \<Rightarrow> ('p, 'w) Server pointer option" where
  "deliver sig g = (if sig then onSignal g else Some g)"

text \<open>A run of the program that observes as many iterations of the loop as \<open>sigs\<close> is long; no exit
  status yet when the server is still running. Signals may arrive before the loop (\<open>early\<close>), before
  each check of the flag (\<open>sigs\<close>), and between the destruction of the server and the exit
  (\<open>late\<close>). The second result is what a destroyed store leaves of its memory.\<close>

definition main :: "'p \<Rightarrow> u32 \<Rightarrow> u32 \<Rightarrow> 'p pool_ops \<Rightarrow> 'w sys_ops \<Rightarrow> (('p, 'w) Server \<Rightarrow> nat list) \<Rightarrow>
    bool \<Rightarrow> bool list \<Rightarrow> bool \<Rightarrow> string list \<Rightarrow> 'w \<Rightarrow> (int option \<times> (CharHeap \<times> 'p) option \<times> 'w) option" where
  "main p rd1 rd2 ops sys order early sigs late args w =
     (case parseArgs args ServerConfig_default of
        None \<Rightarrow> Some (Some 2, None, w)
      | Some c \<Rightarrow>
          do { r \<leftarrow> Server_make p rd1 rd2 ops sys c w;
               case r of
                 Inl (e, m, w) \<Rightarrow> Some (Some 1, Some m, w)
               | Inr server \<Rightarrow>
                   do { gServer \<leftarrow> deliver early (Live server);
                        server \<leftarrow> (case gServer of Live sv \<Rightarrow> Some sv | _ \<Rightarrow> None);
                        (st, server) \<leftarrow> Server_run ops sys sigs server;
                        if st = Running then Some (None, None, world server)
                        else do { (m, w) \<leftarrow> Server_dtor ops sys (order server) server;
                                  gServer \<leftarrow> deliver late (Dangling :: ('p, 'w) Server pointer);
                                  Some (Some (if st = Stopped then 0 else 1), Some m, w) } } })"

section \<open>The command line\<close>

datatype setting = Bind string | Port nat | MaxKeys nat | Buckets nat

fun setting_words :: "setting \<Rightarrow> string list" where
  "setting_words (Bind a) = [''--bind'', a]"
| "setting_words (Port n) = [''--port'', dec n]"
| "setting_words (MaxKeys n) = [''--maxkeys'', dec n]"
| "setting_words (Buckets n) = [''--buckets'', dec n]"

fun apply_setting :: "setting \<Rightarrow> ServerConfig \<Rightarrow> ServerConfig" where
  "apply_setting (Bind a) c = c\<lparr>bindAddr := a\<rparr>"
| "apply_setting (Port n) c = c\<lparr>port := of_nat n\<rparr>"
| "apply_setting (MaxKeys n) c = c\<lparr>storeCfg := (storeCfg c)\<lparr>cfgMaxKeys := of_nat n\<rparr>\<rparr>"
| "apply_setting (Buckets n) c = c\<lparr>storeCfg := (storeCfg c)\<lparr>initialBuckets := of_nat n\<rparr>\<rparr>"

fun setting_fits :: "setting \<Rightarrow> bool" where
  "setting_fits (Bind a) \<longleftrightarrow> True"
| "setting_fits (Port n) \<longleftrightarrow> n < 2 ^ 16"
| "setting_fits (MaxKeys n) \<longleftrightarrow> n < 2 ^ 64"
| "setting_fits (Buckets n) \<longleftrightarrow> n < 2 ^ 64"

lemma strtoull_dec: "n < 2 ^ 64 \<Longrightarrow> strtoull (dec n) = of_nat n"
proof -
  assume n: "n < 2 ^ 64"
  obtain d ds where d: "dec n = d # ds" by (metis dec_nonempty neq_Nil_conv)
  have "digit_char d" using dec_digits [of n] by (simp add: d)
  then have "\<not> c_space d" "d \<noteq> CHR ''-''" "d \<noteq> CHR ''+''" by (auto simp: c_space_def)
  then have "dropWhile c_space (dec n) = dec n" "hd (dec n) \<noteq> CHR ''-''" "hd (dec n) \<noteq> CHR ''+''" by (simp_all add: d)
  then show ?thesis using n by (simp add: strtoull_def Let_def takeWhile_digits)
qed

lemma ucast_of_nat_port [simp]: "ucast (of_nat n :: u64) = (of_nat n :: u16)"
  by transfer (simp add: min_def)

text \<open>C39: the options of the command line are understood as written. A command line that gives any
  settings, each number in decimal and within its type, in any order and with repetitions, yields
  the configuration in which the settings are applied one after another, so the last one wins.\<close>

theorem settings_roundtrip:
  assumes "\<forall>x \<in> set xs. setting_fits x"
  shows "parseArgs (concat (map setting_words xs)) c = Some (fold apply_setting xs c)"
  using assms
proof (induction xs arbitrary: c)
  case (Cons x xs)
  then show ?case by (cases x) (simp_all add: strtoull_dec)
qed simp

theorem settings_roundtrip_witness:
  "parseArgs [''--port'', ''7000'', ''--port'', ''65535''] ServerConfig_default = Some (ServerConfig_default\<lparr>port := 65535\<rparr>)"
proof -
  have "dec 7000 = ''7000''" "dec 65535 = ''65535''" by (simp_all add: dec_small dec_big char_of_eq_iff take_bit_eq_mod)
  moreover have "parseArgs (concat (map setting_words [Port 7000, Port 65535])) ServerConfig_default =
      Some (fold apply_setting [Port 7000, Port 65535] ServerConfig_default)"
    by (rule settings_roundtrip) simp
  ultimately show ?thesis by (simp del: parseArgs.simps)
qed

text \<open>Every other word, where the option names stand.\<close>

fun option_names :: "string list \<Rightarrow> string list" where
  "option_names (a # v # rest) = a # option_names rest"
| "option_names _ = []"

text \<open>C40: a command line is refused exactly when it is malformed: an option without its value, or a
  name that is none of the four. Everything else is accepted.\<close>

theorem usage_exact:
  "parseArgs args c \<noteq> None \<longleftrightarrow>
     even (length args) \<and> set (option_names args) \<subseteq> {''--bind'', ''--port'', ''--maxkeys'', ''--buckets''}"
proof (induction args c rule: parseArgs.induct)
  case (3 a v rest c)
  consider "a = ''--bind''" | "a = ''--port''" | "a = ''--maxkeys''" | "a = ''--buckets''"
    | "a \<notin> {''--bind'', ''--port'', ''--maxkeys'', ''--buckets''}" by blast
  then show ?case using 3 by cases simp_all
qed simp_all

section \<open>A whole run\<close>

text \<open>What is known of the iteration order of a hash map: every element once.\<close>

definition iterates :: "(('p, 'w) Server \<Rightarrow> nat list) \<Rightarrow> bool" where
  "iterates order \<longleftrightarrow> (\<forall>sv. finite (ran (connections sv)) \<longrightarrow> distinct (order sv) \<and> set (order sv) = ran (connections sv))"

context server_env
begin

lemma dtor_iterates:
  assumes inv: "ninv base sv" and order: "iterates order"
  shows "\<exists>h q w. Server_dtor ops sys (order sv) sv = Some ((h, q), w) \<and> fds w = base \<and> watched w = Map.empty \<and>
    blocks h = Map.empty \<and> live q = {}"
proof -
  have "ran (connections sv) \<subseteq> {..<nextObj sv}"
    using wires_owner(1) [OF ninv_wires [OF inv]] obj_facts(1) [OF inv] by (fastforce simp: ran_def)
  then have "finite (ran (connections sv))" by (rule finite_subset) simp
  then show ?thesis using order Server_dtor_ok [OF inv] by (simp add: iterates_def)
qed

lemma main_ok:
  assumes p: "pool_inv p" "live p = {}" and w: "watched w = Map.empty" and order: "iterates order"
    and c: "\<And>c. parseArgs args ServerConfig_default = Some c \<Longrightarrow> config_ok c"
  shows "\<exists>code m w'. main p rd1 rd2 ops sys order early sigs False args w = Some (code, m, w') \<and>
    code \<in> {None, Some 0, Some 1, Some 2} \<and> (code = None \<or> fds w' = fds w) \<and>
    (code \<in> {Some 0, Some 1} \<longrightarrow> (\<exists>h q. m = Some (h, q) \<and> blocks h = Map.empty \<and> live q = {})) \<and>
    (code = Some 2 \<longleftrightarrow> parseArgs args ServerConfig_default = None) \<and>
    (code = None \<longrightarrow> True \<notin> set sigs \<and> (early \<longrightarrow> sigs = []))"
proof (cases "parseArgs args ServerConfig_default")
  case None
  then show ?thesis by (simp add: main_def)
next
  case (Some cf)
  obtain r where r: "Server_make p rd1 rd2 ops sys cf w = Some r"
      "case r of Inl (e, (h, q), w') \<Rightarrow> fds w' = fds w \<and> blocks h = Map.empty \<and> live q = {}
       | Inr sv \<Rightarrow> rinv (fds w) sv \<and> cfg sv = cf \<and> vw sv = \<lparr>db = fresh_db (storeCfg cf), clients = Map.empty\<rparr>"
    using Server_make_ok [OF p c [OF Some] w] by blast
  show ?thesis
  proof (cases r)
    case (Inl ew)
    then show ?thesis using Some r by (cases ew) (auto simp: main_def)
  next
    case (Inr sv)
    let ?sv = "if early then Server_stop sv else sv"
    have sv: "rinv (fds w) ?sv" "early \<longrightarrow> stopRequested (loop ?sv)" using r(2) Inr stop_ok [of "fds w" sv] by simp_all
    obtain st sv' where run: "Server_run ops sys sigs ?sv = Some (st, sv')" "rinv (fds w) sv'"
        "st = Running \<longrightarrow> True \<notin> set sigs \<and> (stopRequested (loop ?sv) \<longrightarrow> sigs = [])"
      using Server_run_ok [OF sv(1)] by blast
    then have "ninv (fds w) sv'" by (simp add: rest_inv_def)
    from dtor_iterates [OF this order] obtain h q w' where
      d: "Server_dtor ops sys (order sv') sv' = Some ((h, q), w')" "fds w' = fds w" "blocks h = Map.empty" "live q = {}" by blast
    have "main p rd1 rd2 ops sys order early sigs False args w =
        Some (if st = Running then (None, None, world sv') else (Some (if st = Stopped then 0 else 1), Some (h, q), w'))"
      using Some r(1) Inr run(1) d(1) by (cases early) (simp_all add: main_def deliver_def)
    then show ?thesis using Some d run(3) sv(2) by (cases "st = Running") auto
  qed
qed

end

interpretation single: server_env freelist_ops freelist_live freelist_inv loopback_ops "map_of \<circ> opened" "map_of \<circ> interests"
    fetched accepted backlogged
  by (rule server_env.intro) (rule freelist.entry_pool_axioms loopback.kernel_axioms)+

text \<open>C2: the program runs safely, stops when told to, and cleans up after itself. With any pool and any
  kernel that meet their documented behaviour, any command line whose limits the store accepts, and
  any number of loop iterations with signals at any of them, \<open>main\<close> returns: no assertion fails, no
  destroyed object is used, no loop is endless. It is still running only if no signal came. When it
  exits, with 0 after a signal, 1 after an error or 2 for a bad command line, the process has
  exactly the descriptors it started with, and if a store was built, every block of the entry pool
  and of the character heap was given back.\<close>

theorem main_leaves_nothing:
  assumes "entry_pool ops live pool_inv" "kernel sys fds watched taken sent pending"
    and "pool_inv p" "live p = {}" "watched w = Map.empty" "iterates order"
    and "\<And>c. parseArgs args ServerConfig_default = Some c \<Longrightarrow> config_ok c"
  shows "\<exists>code m w'. main p rd1 rd2 ops sys order early sigs False args w = Some (code, m, w') \<and>
    code \<in> {None, Some 0, Some 1, Some 2} \<and> (code = None \<or> fds w' = fds w) \<and>
    (code \<in> {Some 0, Some 1} \<longrightarrow> (\<exists>h q. m = Some (h, q) \<and> blocks h = Map.empty \<and> live q = {})) \<and>
    (code = Some 2 \<longleftrightarrow> parseArgs args ServerConfig_default = None) \<and>
    (code = None \<longrightarrow> True \<notin> set sigs \<and> (early \<longrightarrow> sigs = []))"
  using server_env.main_ok [OF server_env.intro [OF assms(1,2)] assms(3-7)] .

theorem main_leaves_nothing_witness:
  "\<exists>code m w'. main freelist_init 1 2 freelist_ops loopback_ops (\<lambda>sv. sorted_list_of_set (ran (connections sv)))
       False [False, False, True] False [] (boot 3) = Some (code, m, w') \<and>
     code \<noteq> None \<and> map_of (opened w') = [0 \<mapsto> KStream, 1 \<mapsto> KStream, 2 \<mapsto> KStream]"
proof -
  have "iterates (\<lambda>sv :: (addr list, Kern) Server. sorted_list_of_set (ran (connections sv)))" by (simp add: iterates_def)
  moreover have "config_ok ServerConfig_default" by (simp add: config_ok_def ServerConfig_default_def Config_default_def)
  ultimately show ?thesis
    using main_leaves_nothing [OF freelist.entry_pool_axioms loopback.kernel_axioms freelist_init_ok, of "boot 3"
        "\<lambda>sv. sorted_list_of_set (ran (connections sv))" "[]" 1 2 False "[False, False, True]"]
    by (auto simp: boot_def fun_eq_iff)
qed

section \<open>Limits of the command line\<close>

text \<open>Numbers beyond the type of a port are cut down to it; limits beyond those of the store are passed
  on to its assertions.\<close>

lemma port_keeps_low_bits: "parseArgs [''--port'', ''70000''] c = Some (c\<lparr>port := 4464\<rparr>)"
proof -
  have "dec 70000 = ''70000''" by (simp add: dec_small dec_big char_of_eq_iff take_bit_eq_mod)
  then have "strtoull ''70000'' = of_nat 70000" using strtoull_dec [of 70000] by simp
  then have "ucast (strtoull ''70000'') = (of_nat 70000 :: u16)" by (simp only: ucast_of_nat_port)
  then show ?thesis by simp
qed

lemma maxkeys_above_pool_fails:
  "kPoolCapacity < unat (cfgMaxKeys (storeCfg c)) \<Longrightarrow> Server_make p rd1 rd2 ops sys c w = None"
  by (simp add: Server_make_def Store_init_def resolveMaxKeys_def require_def Let_def)

lemma buckets_above_half_fails:
  assumes "cfgMaxKeys (storeCfg c) = 0" "2 ^ 63 < unat (initialBuckets (storeCfg c))"
  shows "Server_make p rd1 rd2 ops sys c w = None"
proof -
  have "initialBuckets (storeCfg c) \<noteq> 0" using assms(2) by auto
  then have "nextPow2 (initialBuckets (storeCfg c)) = None"
    using assms(2) by (simp add: nextPow2_def bit_ceil_def)
  then show ?thesis using assms(1) by (simp add: Server_make_def Store_init_def Table_init_def Let_def resolveMaxKeys_def)
qed

section \<open>A signal too late\<close>

text \<open>A signal that arrives after the server was destroyed makes the handler use it.\<close>

lemma late_signal_undefined:
  "main p rd1 rd2 ops sys order early sigs False args w = Some (Some 0, m, w') \<Longrightarrow>
     main p rd1 rd2 ops sys order early sigs True args w = None"
  by (auto simp: main_def deliver_def split: option.splits sum.splits bind_splits if_splits)

end
