(* ===== verification/Server_Props.thy ===== *)
theory Server_Props
  imports Startup
begin

text \<open>
  The properties of the network layer: the loop keeps the invariant, a read is answered as the
  specification of a session says, output reaches the kernel unchanged, accepting ends; and over
  whole runs the server is the service of \<open>Service\<close> to all its clients.
\<close>

section \<open>An example\<close>

text \<open>A server on the loopback kernel with one queued connection and a request on every socket.\<close>

definition demo_kernel :: Kern where
  "demo_kernel = (boot 1)\<lparr>arrived := \<lambda>_. request_bytes [''PING'']\<rparr>"

lemma reset_empty: "UniqueFd_reset sys n (UniqueFd_make (- 1)) w = (UniqueFd_make n, w)"
  by (simp add: UniqueFd_reset_def UniqueFd_make_def)

definition demo_server :: "addr list Store \<Rightarrow> (addr list, Kern) Server" where
  "demo_server st =
     \<lparr>cfg = ServerConfig_default, store = st, loop = \<lparr>epollFd = UniqueFd_make 3, tickCount = 0, stopRequested = False\<rparr>,
      acceptorFd = UniqueFd_make 4, connections = Map.empty, retired = [], cachedNow = 0, lastSweepMs = 0, cachedTick = - 1,
      reserveFd = UniqueFd_make 5, acceptPaused = False, objs = Map.empty, nextObj = 0,
      world = demo_kernel\<lparr>opened := [(5, KNull), (4, KListener), (3, KEpoll), (0, KStream), (1, KStream), (2, KStream)],
        interests := [(4, EPOLLIN, HAcceptor)]\<rparr>\<rparr>"

lemma demo_made:
  "Store_init freelist_init 1 2 Config_default = Some st \<Longrightarrow>
     Server_make freelist_init 1 2 freelist_ops loopback_ops ServerConfig_default demo_kernel = Some (Inr (demo_server st))"
  by (simp add: Server_make_def ServerConfig_default_def EventLoop_make_def Acceptor_make_def openListener_def loopback_ops_def
      kopen_def fresh_fd_def demo_kernel_def boot_def loop_add_def epollCtl_def openReserve_def drop_key_def
      reset_empty Let_def demo_server_def)

abbreviation demo_inv :: "(addr list, Kern) Server \<Rightarrow> bool" where
  "demo_inv \<equiv> net_inv freelist_live freelist_inv (map_of \<circ> opened) (map_of \<circ> interests) (map_of [(0, KStream), (1, KStream), (2, KStream)])"

lemma demo_rest:
  "\<exists>st. rest_inv freelist_live freelist_inv (map_of \<circ> opened) (map_of \<circ> interests) (map_of [(0, KStream), (1, KStream), (2, KStream)])
     (demo_server st)"
proof -
  obtain st where st: "Store_init freelist_init 1 2 Config_default = Some st" using fresh_store by blast
  have "config_ok ServerConfig_default" by (simp add: config_ok_def ServerConfig_default_def Config_default_def)
  from single.Server_make_ok [OF freelist_init_ok this, of demo_kernel 1 2] demo_made [OF st]
  show ?thesis by (auto simp: demo_kernel_def boot_def)
qed

definition demo_conn :: Connection where
  "demo_conn = \<lparr>connFd = UniqueFd_make 6, inbuf = Buffer_init kDefaultCapacity, outbuf = Buffer_init kDefaultCapacity,
     cstate = kOpen, interest = EPOLLIN\<rparr>"

definition demo_accepted :: "addr list Store \<Rightarrow> (addr list, Kern) Server" where
  "demo_accepted st = (demo_server st)
     \<lparr>connections := [6 \<mapsto> 0], objs := [0 \<mapsto> demo_conn], nextObj := 1,
      world := demo_kernel\<lparr>opened := [(6, KStream), (5, KNull), (4, KListener), (3, KEpoll), (0, KStream), (1, KStream), (2, KStream)],
        interests := [(6, EPOLLIN, HConn 0), (4, EPOLLIN, HAcceptor)], backlogged := 0\<rparr>\<rparr>"

lemma demo_accepts: "acceptPending loopback_ops (demo_server st) = Some (demo_accepted st)"
proof -
  have "acceptPending loopback_ops (demo_server st) = acceptPending loopback_ops (demo_accepted st)"
    by (subst acceptPending.simps)
      (simp add: demo_accepted_def demo_server_def loopback_ops_def kaccept_def kopen_def fresh_fd_def demo_kernel_def boot_def
        Connection_make_def loop_add_def epollCtl_def emplace_def put_conn_def demo_conn_def fun_upd_idem Let_def)
  also have "\<dots> = Some (demo_accepted st)"
    by (subst acceptPending.simps) (simp add: demo_accepted_def demo_server_def loopback_ops_def kaccept_def handleAcceptFailure_def)
  finally show ?thesis .
qed

lemma demo_ready: "\<exists>st. demo_inv (demo_server st) \<and> demo_inv (demo_accepted st)"
proof -
  obtain st where st: "demo_inv (demo_server st)" using demo_rest unfolding rest_inv_def by blast
  from single.acceptPending_safe [OF this] have "demo_inv (demo_accepted st)" by (simp add: single.safe_def demo_accepts)
  with st show ?thesis by blast
qed

lemma demo_obj: "objs (demo_accepted st) 0 = Some demo_conn" "UniqueFd_get (connFd demo_conn) = 6" "cstate demo_conn = kOpen"
  "contents (outbuf demo_conn) = []" "contents (inbuf demo_conn) = []"
  by (simp_all add: demo_accepted_def demo_conn_def)

section \<open>The loop\<close>

text \<open>C7: the event loop keeps its invariant and never gets stuck. From any state between two
  iterations, with requests to stop at any time, for any kernel with the documented behaviour and whatever it reports (events on any
  registered descriptor, interrupted calls, failing calls, lack of descriptors), any number of
  iterations returns, and again every object is owned exactly once and registered under its own
  handler, no closed object is left, descriptors and interests are exactly those of the owned
  objects, the store and all buffers are well formed, and \<open>connectionCount\<close> counts every object.\<close>

theorem run_keeps_invariant:
  assumes "entry_pool ops live pool_inv" "kernel sys fds watched taken sent pending"
    and "rest_inv live pool_inv fds watched base sv"
  shows "\<exists>st sv'. Server_run ops sys sigs sv = Some (st, sv') \<and> rest_inv live pool_inv fds watched base sv' \<and>
    connectionCount sv' = card (dom (objs sv'))"
  using server_env.Server_run_ok [OF server_env.intro [OF assms(1,2)] assms(3)]
    server_env.rest_count [OF server_env.intro [OF assms(1,2)]] by blast

theorem run_keeps_invariant_witness:
  "\<exists>sv st sv'. Server_run freelist_ops loopback_ops [False, False, True] (demo_server sv) = Some (st, sv') \<and> retired sv' = []"
proof -
  obtain st where "rest_inv freelist_live freelist_inv (map_of \<circ> opened) (map_of \<circ> interests)
      (map_of [(0, KStream), (1, KStream), (2, KStream)]) (demo_server st)"
    using demo_rest by blast
  from run_keeps_invariant [OF freelist.entry_pool_axioms loopback.kernel_axioms this, of "[False, False, True]"] show ?thesis
    unfolding rest_inv_def by blast
qed

text \<open>C14: accepting ends. However many connections are queued and whatever \<open>accept4\<close> reports, running
  out of descriptors included, the accept loop returns, destroys no connection and keeps the
  invariant.\<close>

theorem accept_returns:
  assumes "entry_pool ops live pool_inv" "kernel sys fds watched taken sent pending"
    and "net_inv live pool_inv fds watched base sv"
  shows "\<exists>sv'. acceptPending sys sv = Some sv' \<and> net_inv live pool_inv fds watched base sv' \<and> dom (objs sv) \<subseteq> dom (objs sv')"
  using server_env.acceptPending_safe [OF server_env.intro [OF assms(1,2)] assms(3)]
  unfolding server_env.safe_def [OF server_env.intro [OF assms(1,2)]] later_def by blast

theorem accept_returns_witness:
  "\<exists>st sv'. acceptPending loopback_ops (demo_server st) = Some sv' \<and> demo_inv sv' \<and> objs sv' 0 = Some demo_conn"
proof -
  obtain st where "demo_inv (demo_server st)" using demo_ready by blast
  from accept_returns [OF freelist.entry_pool_axioms loopback.kernel_axioms this]
  have "demo_inv (demo_accepted st)" unfolding demo_accepts by blast
  then show ?thesis using demo_accepts demo_obj(1) by blast
qed

section \<open>The service\<close>



context server_env
begin

lemma run_answers:
  assumes p: "pool_inv p" "live p = {}" and c: "config_ok c" and w: "watched w = Map.empty"
    and made: "Server_make p rd1 rd2 ops sys c w = Some (Inr sv)"
  shows "\<exists>st sv'. Server_run ops sys sigs sv = Some (st, sv') \<and> service_ok (vw sv')"
proof -
  have sv: "rinv (fds w) sv" "vw sv = \<lparr>db = fresh_db (storeCfg c), clients = Map.empty\<rparr>"
    using Server_make_ok [OF p c w, of rd1 rd2] made by auto
  then have "service_ok (vw sv)" by (simp add: service_ok_def)
  then show ?thesis using Server_run_ok [OF sv(1), of sigs] leads_ok by blast
qed

end

text \<open>C4: every client gets its answers. At any point of a run of a newly built server, for every
  connection: the bytes read from the socket are a sequence of commands; the bytes written to it,
  followed by those still buffered for it, decode without remainder to at most one reply per
  command, and one more for a protocol error; while the connection is open there is exactly one reply
  for each command that has arrived completely, and the input buffer holds exactly the rest.\<close>

theorem clients_answered:
  assumes "entry_pool ops live pool_inv" "kernel sys fds watched taken sent pending"
    and "pool_inv p" "live p = {}" "config_ok c" "watched w = Map.empty"
    and "Server_make p rd1 rd2 ops sys c w = Some (Inr sv)"
  shows "\<exists>st sv'. Server_run ops sys sigs sv = Some (st, sv') \<and>
    (\<forall>i k. objs sv' i = Some k \<longrightarrow>
      (\<exists>xs e rest vs. drains command_spec (taken (world sv') (cfd k)) xs e rest \<and>
        drains reply_spec (sent (world sv') (cfd k) @ contents (outbuf k)) vs None [] \<and>
        length vs \<le> asked xs + (if e = None then 0 else 1) \<and>
        (cstate k = kOpen \<longrightarrow> e = None \<and> rest = contents (inbuf k) \<and> length vs = asked xs)))"
proof -
  obtain st sv' where run: "Server_run ops sys sigs sv = Some (st, sv')" "service_ok (view taken sent sv')"
    using server_env.run_answers [OF server_env.intro [OF assms(1,2)] assms(3-7)] by blast
  have "\<exists>xs e rest vs. drains command_spec (taken (world sv') (cfd k)) xs e rest \<and>
      drains reply_spec (sent (world sv') (cfd k) @ contents (outbuf k)) vs None [] \<and>
      length vs \<le> asked xs + (if e = None then 0 else 1) \<and>
      (cstate k = kOpen \<longrightarrow> e = None \<and> rest = contents (inbuf k) \<and> length vs = asked xs)"
    if k: "objs sv' i = Some k" for i k
  proof -
    have "client_ok (client_of taken sent (world sv') k)" using run(2) k by (auto simp: service_ok_def)
    then obtain xs e rest vs where c: "drains command_spec (taken (world sv') (cfd k)) xs e rest"
        "sent (world sv') (cfd k) @ contents (outbuf k) = concat (map reply_bytes vs)" "\<forall>v \<in> set vs. encodable v"
        "length vs \<le> asked xs + (if e = None then 0 else 1)"
        "cstate k = kOpen \<longrightarrow> e = None \<and> rest = contents (inbuf k) \<and> length vs = asked xs"
      unfolding client_ok_def client_of_def Let_def by auto
    have "drains reply_spec (concat (map reply_bytes vs)) vs None []"
      using c(3) encodable_wf by (intro drains_replies) blast
    then show ?thesis using c unfolding c(2) by blast
  qed
  then show ?thesis using run(1) by blast
qed

theorem clients_answered_witness:
  "\<exists>st0 st sv'. Server_make freelist_init 1 2 freelist_ops loopback_ops ServerConfig_default demo_kernel = Some (Inr (demo_server st0)) \<and>
     Server_run freelist_ops loopback_ops [False, False] (demo_server st0) = Some (st, sv') \<and>
     (\<forall>i k. objs sv' i = Some k \<longrightarrow> (\<exists>vs. drains reply_spec (accepted (world sv') (cfd k) @ contents (outbuf k)) vs None []))"
proof -
  obtain st0 where "Store_init freelist_init 1 2 Config_default = Some st0" using fresh_store by blast
  note made = demo_made [OF this]
  have "config_ok ServerConfig_default" by (simp add: config_ok_def ServerConfig_default_def Config_default_def)
  moreover have "(map_of \<circ> interests) demo_kernel = Map.empty" by (simp add: demo_kernel_def boot_def)
  ultimately show ?thesis
    using clients_answered [OF freelist.entry_pool_axioms loopback.kernel_axioms freelist_init_ok _ _ made, of "[False, False]"] made by blast
qed

section \<open>Connections\<close>

text \<open>C5: a read is answered as a session should be. When an open connection has buffered a partial
  request and more bytes arrive, the complete commands of the two together are carried out in
  order, at one time, on the store; what the kernel was given plus what is still buffered for it
  grows by exactly their replies, and by one error reply where the input stops being a request.
  The connection then is closing exactly after QUIT or such an error, and otherwise keeps exactly
  the unfinished rest of the input. No byte goes to another connection.\<close>

theorem read_serves_session:
  assumes "entry_pool ops live pool_inv" "kernel sys fds watched taken sent pending"
    and "net_inv live pool_inv fds watched base sv" "objs sv i = Some c" "cstate c = kOpen"
    and "ensureWritable kDefaultCapacity (inbuf c) = Some b" "n = writableBytes b"
    and "sys_read sys (UniqueFd_get (connFd c)) n (world sv) = (Inr t, w)" "t \<noteq> []"
    and "drains command_spec (contents (inbuf c) @ t) xs e rest"
  shows "\<exists>sv' c' bs q. conn_onReadable ops sys i sv = Some sv' \<and> net_inv live pool_inv fds watched base sv' \<and>
    objs sv' = (objs sv)(i \<mapsto> c') \<and> connFd c' = connFd c \<and>
    serve ops (fst (Server_now sys (sv\<lparr>world := w\<rparr>))) xs (store sv) = Some (bs, q, store sv') \<and>
    sent (world sv') (cfd c) @ contents (outbuf c') =
      sent (world sv) (cfd c) @ contents (outbuf c) @ bs @ last_words q e \<and>
    (\<forall>g. g \<noteq> cfd c \<longrightarrow> sent (world sv') g = sent (world sv) g) \<and>
    (cstate c' = kClosed \<or> cstate c' = (if q \<or> e \<noteq> None then kClosing else kOpen)) \<and> (\<not> q \<longrightarrow> contents (inbuf c') = rest)"
  by (rule server_env.onReadable_data [OF server_env.intro [OF assms(1,2)] assms(3-10)]) blast

lemma ping_drains: "drains command_spec (request_bytes [''PING'']) [[''PING'']] None []"
proof (rule drains.step)
  show "command_spec (request_bytes [''PING'']) = Done [''PING''] (length (request_bytes [''PING'']))"
    using command_spec_request [of "[''PING'']" "[]"] by (simp add: kMaxArgs_def kMaxBulkLength_def)
  show "drains command_spec (drop (length (request_bytes [''PING''])) (request_bytes [''PING''])) [] None []"
    by (simp add: drains.more command_spec_def)
qed

lemma ping_served: "serve ops now [[''PING'']] s = Some (reply_bytes (Simple ''PONG''), False, s)"
proof -
  have "map lower ''PING'' = ''ping''" by code_simp
  then have "lookup_cmd ''PING'' = Some \<lparr>specName = ''ping'', specCmd = kPing, specArity = - 1\<rparr>"
    unfolding lookup_cmd_iff by (simp add: kSpecs_def)
  then show ?thesis by (simp add: plan_of_def closes_def arityOk_def)
qed

lemma room_unused: "ensureWritable n (Buffer_init n) = Some (Buffer_init n)" "writableBytes (Buffer_init n) = n"
  by (simp_all add: ensureWritable_def writableBytes_def Buffer_init_def)

theorem read_serves_session_witness:
  "\<exists>st sv' c'. conn_onReadable freelist_ops loopback_ops 0 (demo_accepted st) = Some sv' \<and> objs sv' 0 = Some c' \<and>
     accepted (world sv') 6 @ contents (outbuf c') = ''+PONG'' @ CRLF"
proof -
  obtain st where inv: "demo_inv (demo_accepted st)" using demo_ready by blast
  let ?w = "(world (demo_accepted st))\<lparr>arrived := (\<lambda>_. request_bytes [''PING''])(6 := []),
    fetched := (\<lambda>_. [])(6 := request_bytes [''PING''])\<rparr>"
  have len: "length (request_bytes [''PING'']) \<le> kDefaultCapacity" "request_bytes [''PING''] \<noteq> []"
    by (simp_all add: request_bytes_def bulk_bytes_def dec_small kDefaultCapacity_def)
  have b: "ensureWritable kDefaultCapacity (inbuf demo_conn) = Some (Buffer_init kDefaultCapacity)"
    "kDefaultCapacity = writableBytes (Buffer_init kDefaultCapacity)"
    by (simp_all add: demo_conn_def room_unused)
  have rd: "sys_read loopback_ops (UniqueFd_get (connFd demo_conn)) kDefaultCapacity (world (demo_accepted st)) =
      (Inr (request_bytes [''PING'']), ?w)"
    using len by (simp add: demo_obj loopback_ops_def kread_def demo_accepted_def demo_kernel_def boot_def)
  have dr: "drains command_spec (contents (inbuf demo_conn) @ request_bytes [''PING'']) [[''PING'']] None []"
    using ping_drains by (simp add: demo_obj)
  obtain sv' c' bs q where r: "conn_onReadable freelist_ops loopback_ops 0 (demo_accepted st) = Some sv'"
      "objs sv' = (objs (demo_accepted st))(0 \<mapsto> c')"
      "serve freelist_ops (fst (Server_now loopback_ops ((demo_accepted st)\<lparr>world := ?w\<rparr>))) [[''PING'']] (store (demo_accepted st)) =
         Some (bs, q, store sv')"
      "accepted (world sv') (cfd demo_conn) @ contents (outbuf c') =
         accepted (world (demo_accepted st)) (cfd demo_conn) @ contents (outbuf demo_conn) @ bs @ last_words q None"
    using read_serves_session [OF freelist.entry_pool_axioms loopback.kernel_axioms inv demo_obj(1,3) b rd len(2) dr] by blast
  have "bs = ''+PONG'' @ CRLF" using r(3) unfolding ping_served by simp
  moreover have "accepted (world (demo_accepted st)) 6 = []" by (simp add: demo_accepted_def demo_kernel_def boot_def)
  ultimately show ?thesis
    by (intro exI [of _ st] exI [of _ sv'] exI [of _ c']) (use r(1,2,4) in \<open>simp add: demo_obj last_words_def\<close>)
qed

context server_env
begin

lemma flush_stream:
  assumes "ninv base sv" "objs sv i = Some c" "cstate c \<noteq> kClosed"
  shows "\<exists>sv' c'. flushOutput sys i sv = Some sv' \<and> ninv base sv' \<and>
    objs sv' = (objs sv)(i \<mapsto> c') \<and> store sv' = store sv \<and> inbuf c' = inbuf c \<and>
    sent (world sv') (cfd c) @ contents (outbuf c') = sent (world sv) (cfd c) @ contents (outbuf c) \<and>
    (\<forall>g. g \<noteq> cfd c \<longrightarrow> sent (world sv') g = sent (world sv) g) \<and>
    (cstate c' = kClosed \<or>
     watched (world sv') (cfd c) = Some (wanted c', HConn i) \<and> cstate c' = cstate c \<and>
       (cstate c' = kClosing \<longrightarrow> contents (outbuf c') \<noteq> []))"
proof -
  obtain sv' c' where f: "flushOutput sys i sv = Some sv'" "ninv base sv'" "later pending sv sv'"
      "objs sv' = (objs sv)(i \<mapsto> c')" "store sv' = store sv" "connFd c' = connFd c" "inbuf c' = inbuf c"
      "sent (world sv') (cfd c) @ contents (outbuf c') = sent (world sv) (cfd c) @ contents (outbuf c)"
      "\<forall>g. g \<noteq> cfd c \<longrightarrow> sent (world sv') g = sent (world sv) g"
      "cstate c' = kClosed \<or> cstate c' = cstate c \<and> interest c' = wanted c' \<and> (cstate c' = kClosing \<longrightarrow> contents (outbuf c') \<noteq> [])"
    by (rule flushOutput_ok [OF assms])
  have "objs sv' i = Some c'" using f(4) by simp
  from obj_facts(5) [OF f(2) this] have "watched (world sv') (cfd c) = Some (interest c', HConn i)" using f(6) by simp
  then show ?thesis by (intro exI [of _ sv'] exI [of _ c']) (use f in auto)
qed

end

text \<open>C9: replies reach the kernel unchanged. Flushing a connection, with short writes, interrupted and
  failing calls, always returns; the bytes handed to the kernel followed by the bytes still
  buffered are what they were before, so none is lost, repeated or reordered; other connections
  are untouched. Afterwards the connection is closed, or the kernel watches it for exactly what it
  needs: for writing if and only if output is left, for reading if and only if it is open. A
  closing connection stays only while it has output.\<close>

theorem flush_keeps_stream:
  assumes "entry_pool ops live pool_inv" "kernel sys fds watched taken sent pending"
    and "net_inv live pool_inv fds watched base sv" "objs sv i = Some c" "cstate c \<noteq> kClosed"
  shows "\<exists>sv' c'. flushOutput sys i sv = Some sv' \<and> net_inv live pool_inv fds watched base sv' \<and>
    objs sv' = (objs sv)(i \<mapsto> c') \<and> store sv' = store sv \<and> inbuf c' = inbuf c \<and>
    sent (world sv') (cfd c) @ contents (outbuf c') = sent (world sv) (cfd c) @ contents (outbuf c) \<and>
    (\<forall>g. g \<noteq> cfd c \<longrightarrow> sent (world sv') g = sent (world sv) g) \<and>
    (cstate c' = kClosed \<or>
     watched (world sv') (cfd c) = Some (wanted c', HConn i) \<and> cstate c' = cstate c \<and>
       (cstate c' = kClosing \<longrightarrow> contents (outbuf c') \<noteq> []))"
  using server_env.flush_stream [OF server_env.intro [OF assms(1,2)] assms(3-5)] .

theorem flush_keeps_stream_witness:
  "\<exists>st sv' c'. flushOutput loopback_ops 0 (demo_accepted st) = Some sv' \<and> objs sv' 0 = Some c' \<and>
     accepted (world sv') 6 @ contents (outbuf c') = []"
proof -
  obtain st where inv: "demo_inv (demo_accepted st)" using demo_ready by blast
  have "cstate demo_conn \<noteq> kClosed" by (simp add: demo_obj)
  then obtain sv' c' where r: "flushOutput loopback_ops 0 (demo_accepted st) = Some sv'" "objs sv' = (objs (demo_accepted st))(0 \<mapsto> c')"
      "accepted (world sv') (cfd demo_conn) @ contents (outbuf c') =
         accepted (world (demo_accepted st)) (cfd demo_conn) @ contents (outbuf demo_conn)"
    using flush_keeps_stream [OF freelist.entry_pool_axioms loopback.kernel_axioms inv demo_obj(1)] by blast
  have "accepted (world (demo_accepted st)) 6 = []" by (simp add: demo_accepted_def demo_kernel_def boot_def)
  then show ?thesis
    by (intro exI [of _ st] exI [of _ sv'] exI [of _ c']) (use r in \<open>simp add: demo_obj\<close>)
qed

end
