(* ===== verification/Table_Props.thy ===== *)
theory Table_Props
  imports Table_Scan
begin

text \<open>
  What the table promises its client: lookups agree with the abstract view, growth does not
  change what a lookup returns, and insertion, assignment, removal and clearing act as
  updates of the view without leaving any memory behind.
\<close>

text \<open>A lookup is determined by the view: it returns the one address that holds the key.\<close>

lemma Table_find_iff:
  assumes wf: "table_wf css t"
  shows "Table_find key t = Some (Some a) \<longleftrightarrow> (\<exists>x. table_view t a = Some x \<and> kvKey x = key)"
    and "Table_find key t = Some None \<longleftrightarrow> (\<forall>a x. table_view t a = Some x \<longrightarrow> kvKey x \<noteq> key)"
proof -
  obtain r where r: "Table_find key t = Some r"
    "case r of Some a \<Rightarrow> (\<exists>x. table_view t a = Some x \<and> kvKey x = key)
     | None \<Rightarrow> (\<forall>a x. table_view t a = Some x \<longrightarrow> kvKey x \<noteq> key)"
    using Table_find_correct [OF wf] by blast
  have uniq: "a = b" if "table_view t a = Some x" "table_view t b = Some y" "kvKey x = kvKey y" for a b x y
    using table_wfD(4) [OF wf] that unfolding table_keyed_def by blast
  show "Table_find key t = Some (Some a) \<longleftrightarrow> (\<exists>x. table_view t a = Some x \<and> kvKey x = key)"
  proof (cases r)
    case None
    then show ?thesis using r by simp
  next
    case (Some b)
    then obtain y where "table_view t b = Some y" "kvKey y = key" using r(2) by auto
    then show ?thesis using r(1) Some uniq [of b y a] by auto
  qed
  show "Table_find key t = Some None \<longleftrightarrow> (\<forall>a x. table_view t a = Some x \<longrightarrow> kvKey x \<noteq> key)"
    using r by (cases r) auto
qed

lemma Table_find_cong:
  assumes wf: "table_wf css t" "table_wf css' t'"
    and same: "\<And>b. (\<exists>x. table_view t' b = Some x \<and> kvKey x = key) \<longleftrightarrow> (\<exists>x. table_view t b = Some x \<and> kvKey x = key)"
  shows "Table_find key t' = Table_find key t"
proof -
  obtain r where r: "Table_find key t = Some r" using Table_find_correct [OF wf(1)] by blast
  show ?thesis
  proof (cases r)
    case None
    then have "\<forall>b x. table_view t' b = Some x \<longrightarrow> kvKey x \<noteq> key"
      using r Table_find_iff(2) [OF wf(1)] same by blast
    then show ?thesis using r None Table_find_iff(2) [OF wf(2), of key] by simp
  next
    case (Some b)
    then have "\<exists>x. table_view t' b = Some x \<and> kvKey x = key"
      using r Table_find_iff(1) [OF wf(1), of key b] same by blast
    then show ?thesis using r Some Table_find_iff(1) [OF wf(2), of key b] by simp
  qed
qed

section \<open>Properties\<close>

text \<open>
  C13: doubling the bucket array succeeds on a well-formed table, keeps it well-formed, and
  every lookup returns the same entry, at the same address, as before.
\<close>

theorem rehash_preserves_find:
  assumes "table_wf css t" "bucketCount t = 2 ^ k" "k < 63"
  shows "\<exists>css' t'. Table_rehash (bucketCount t * 2) t = Some t' \<and> table_wf css' t' \<and>
    bucketCount t' = 2 * bucketCount t \<and> table_view t' = table_view t \<and>
    (\<forall>key. Table_find key t' = Table_find key t)"
proof -
  obtain css' t' where t': "Table_rehash (bucketCount t * 2) t = Some t'" "table_wf css' t'"
    "bucketCount t' = 2 ^ Suc k" "same_entries (slab t) (slab t')"
    "t' = t\<lparr>slab := slab t', buckets := buckets t'\<rparr>"
    using Table_rehash_correct [OF assms] by blast
  have "chars t' = chars t" by (subst t'(5)) simp
  then have "table_view t' = table_view t" using same_entries_mem(2) [OF t'(4)] by simp
  then show ?thesis using t'(1-3) assms(2) Table_find_cong [OF assms(1) t'(2)] by auto
qed

text \<open>A table of one bucket row, as the constructor leaves it.\<close>

definition empty_table :: "unit Table" where
  "empty_table = \<lparr>buckets = replicate 4 None, slab = Map.empty, chars = empty_heap, pool = (),
     liveCount = 0, hashSeed = 0\<rparr>"

lemma empty_table_wf: "table_wf (replicate 4 []) empty_table" "bucketCount empty_table = 2 ^ 2"
proof -
  show bc: "bucketCount empty_table = 2 ^ 2" by (simp add: empty_table_def bucketCount_def)
  then show "table_wf (replicate 4 []) empty_table"
    using mem_ok_empty
    by (auto simp: table_wf_def table_shape_def table_chains_def table_keyed_def empty_table_def
        mem_view_def intro: exI [of _ 2])
qed

theorem rehash_preserves_find_witness:
  "\<exists>css' t'. Table_rehash (bucketCount empty_table * 2) empty_table = Some t' \<and> table_wf css' t' \<and>
     bucketCount t' = 2 * bucketCount empty_table \<and> table_view t' = table_view empty_table \<and>
     (\<forall>key. Table_find key t' = Table_find key empty_table)"
  using rehash_preserves_find [OF empty_table_wf] by simp

text \<open>
  C15: inserting an absent key while the pool has a block left succeeds (whether or not the
  table grows), keeps the table invariant, and afterwards the new key is found at the
  returned address with exactly the given value and no deadline, while every other lookup is
  unchanged.
\<close>

theorem insert_then_find:
  assumes pool: "entry_pool ops live pool_inv" and inv: "Table_inv live pool_inv t"
    and room: "Table_size t < kPoolCapacity" and len: "length key + length val < 2 ^ 32"
    and absent: "Table_find key t = Some None"
  shows "\<exists>a t'. Table_insert ops key val t = Some (Some a, t') \<and> Table_inv live pool_inv t' \<and>
    Table_size t' = Table_size t + 1 \<and> Table_find key t' = Some (Some a) \<and>
    table_view t' a = Some \<lparr>kvKey = key, kvVal = val, kvExp = kNoExpiry, kvLru = 0\<rparr> \<and>
    (\<forall>key'. key' \<noteq> key \<longrightarrow> Table_find key' t' = Table_find key' t)"
proof -
  note inv_wf = entry_pool.inv_wf [OF pool] and inv_size = entry_pool.inv_size [OF pool]
  obtain css where wf: "table_wf css t" using inv_wf [OF inv] by blast
  have abs: "kvKey x \<noteq> key" if "table_view t b = Some x" for b x
    using absent that Table_find_iff(2) [OF wf] by blast
  obtain a t' where t': "Table_insert ops key val t = Some (Some a, t')" "Table_inv live pool_inv t'"
    "table_view t a = None"
    "table_view t' = (table_view t)(a \<mapsto> \<lparr>kvKey = key, kvVal = val, kvExp = kNoExpiry, kvLru = 0\<rparr>)"
    using entry_pool.Table_insert_correct [OF pool inv room len] abs by blast
  obtain css' where wf': "table_wf css' t'" using inv_wf [OF t'(2)] by blast
  have "finite (dom (table_view t))" using finite_slab [OF table_wfD(3) [OF wf]] by simp
  then have "card (dom (table_view t')) = card (dom (table_view t)) + 1"
    using t'(3) unfolding t'(4) by (simp add: card_insert_if domIff del: mem_view_dom)
  then have size: "Table_size t' = Table_size t + 1" using inv_size [OF inv] inv_size [OF t'(2)] by simp
  have other: "Table_find key' t' = Table_find key' t" if "key' \<noteq> key" for key'
    by (rule Table_find_cong [OF wf wf']) (use t'(3,4) that in auto)
  have "Table_find key t' = Some (Some a)" using Table_find_iff(1) [OF wf'] t'(4) by simp
  then show ?thesis using t'(1,2,4) size other by auto
qed

theorem insert_then_find_witness:
  "\<exists>t a t'. Table_init freelist_init 4 7 = Some t \<and> Table_insert freelist_ops ''k'' ''v'' t = Some (Some a, t') \<and>
     Table_size t' = 1 \<and> Table_find ''k'' t' = Some (Some a)"
proof -
  obtain t where t: "Table_init freelist_init 4 7 = Some t" "Table_inv freelist_live freelist_inv t"
    "table_view t = Map.empty"
    using Table_init_correct [of 4 freelist_inv freelist_init freelist_live 7] freelist_init_ok by auto
  obtain css where wf: "table_wf css t" using freelist.inv_wf [OF t(2)] by blast
  have size: "Table_size t = 0" using freelist.inv_size [OF t(2)] arg_cong [OF t(3), of dom] by simp
  have absent: "Table_find ''k'' t = Some None" using Table_find_iff(2) [OF wf] t(3) by simp
  show ?thesis
    using insert_then_find [OF freelist.entry_pool_axioms t(2) _ _ absent, of "''v''"] size t(1)
    by (auto simp: kPoolCapacity_def)
qed

text \<open>
  C20: assigning a new value in place works across the inline/heap boundary in both
  directions: the entry keeps its address, key, deadline and recency, its value becomes the
  given string, all other entries are untouched, and no character block leaks.
\<close>

theorem assign_replaces_value:
  assumes "entry_pool ops live pool_inv" "Table_inv live pool_inv t" "table_view t a = Some x"
    "length (kvKey x) + length val < 2 ^ 32"
  shows "\<exists>t'. Table_assign a val t = Some t' \<and> Table_inv live pool_inv t' \<and>
    table_view t' = (table_view t)(a \<mapsto> x\<lparr>kvVal := val\<rparr>) \<and> bucketCount t' = bucketCount t"
  using entry_pool.Table_assign_correct [OF assms] by blast

text \<open>
  C21: removing an entry succeeds for every position in its chain, returns its block to the
  pool and its heap bytes to the heap, and takes exactly that entry out of the view.
\<close>

theorem remove_takes_one:
  assumes pool: "entry_pool ops live pool_inv" and inv: "Table_inv live pool_inv t" and x: "table_view t a = Some x"
  shows "\<exists>t'. Table_remove ops a t = Some t' \<and> Table_inv live pool_inv t' \<and>
    table_view t' = (table_view t)(a := None) \<and> live (Table.pool t') = live (Table.pool t) - {a} \<and>
    Table_find (kvKey x) t' = Some None"
proof -
  obtain t' where t': "Table_remove ops a t = Some t'" "Table_inv live pool_inv t'"
    "table_view t' = (table_view t)(a := None)"
    using entry_pool.Table_remove_correct [OF pool inv x] by blast
  obtain css css' where wf: "table_wf css t" "table_wf css' t'"
    using entry_pool.inv_wf [OF pool inv] entry_pool.inv_wf [OF pool t'(2)] by blast
  have uniq: "b = a" if "table_view t b = Some y" "kvKey y = kvKey x" for b y
    using table_wfD(4) [OF wf(1)] x that unfolding table_keyed_def by metis
  have "Table_find (kvKey x) t' = Some None"
    using Table_find_iff(2) [OF wf(2)] uniq unfolding t'(3) by fastforce
  moreover have "live (Table.pool t') = live (Table.pool t) - {a}"
    using inv t'(2) arg_cong [OF t'(3), of dom] by (simp add: Table_inv_def)
  ultimately show ?thesis using t' by blast
qed

text \<open>A table with one entry, for the examples.\<close>

lemma one_entry_table:
  "\<exists>t a. Table_inv freelist_live freelist_inv t \<and>
     table_view t a = Some \<lparr>kvKey = ''k'', kvVal = ''v'', kvExp = kNoExpiry, kvLru = 0\<rparr>"
proof -
  obtain t where t: "Table_inv freelist_live freelist_inv t" "table_view t = Map.empty"
    using Table_init_correct [of 4 freelist_inv freelist_init freelist_live 7] freelist_init_ok by auto
  have "Table_size t = 0" using freelist.inv_size [OF t(1)] arg_cong [OF t(2), of dom] by simp
  then show ?thesis
    using freelist.Table_insert_correct [OF t(1), of "''k''" "''v''"] t(2) by (auto simp: kPoolCapacity_def)
qed

theorem assign_replaces_value_witness:
  "\<exists>t a t'. Table_assign a (replicate 40 CHR ''x'') t = Some (t' :: addr list Table) \<and>
     map_option kvVal (table_view t' a) = Some (replicate 40 CHR ''x'')"
proof -
  obtain t a where t: "Table_inv freelist_live freelist_inv t"
    "table_view t a = Some \<lparr>kvKey = ''k'', kvVal = ''v'', kvExp = kNoExpiry, kvLru = 0\<rparr>"
    using one_entry_table by blast
  obtain t' where "Table_assign a (replicate 40 CHR ''x'') t = Some t'"
    "map_option kvVal (table_view t' a) = Some (replicate 40 CHR ''x'')"
    using assign_replaces_value [OF freelist.entry_pool_axioms t, of "replicate 40 CHR ''x''"] by auto
  then show ?thesis by blast
qed

theorem remove_takes_one_witness:
  "\<exists>t a t'. Table_remove freelist_ops a t = Some t' \<and> Table_find ''k'' t' = Some None"
proof -
  obtain t a where t: "Table_inv freelist_live freelist_inv t"
    "table_view t a = Some \<lparr>kvKey = ''k'', kvVal = ''v'', kvExp = kNoExpiry, kvLru = 0\<rparr>"
    using one_entry_table by blast
  show ?thesis using remove_takes_one [OF freelist.entry_pool_axioms t] by auto
qed

end
