(* ===== verification/Spec2Isabelle.thy ===== *)
theory Spec2Isabelle
  imports Hash Server_Props Table_Props Store_Props Dispatch_Props
begin

text \<open>
  Verification of tiny-redis, a single-threaded, in-memory key-value server that speaks RESP2 over
  TCP. File names are relative to \<^verbatim>\<open>src/src\<close>.

  \<^bold>\<open>The program.\<close> \<^verbatim>\<open>main.cpp\<close> reads the command line, builds a \<open>Server\<close> and runs it. The server
  (\<^verbatim>\<open>net/server.cpp\<close>) owns the store, an epoll loop (\<^verbatim>\<open>net/event_loop.cpp\<close>), a listening acceptor
  and one \<open>Connection\<close> (\<^verbatim>\<open>net/connection.cpp\<close>) per client; every descriptor is held by a \<open>UniqueFd\<close>
  (\<^verbatim>\<open>net/unique_fd.cpp\<close>). An iteration of the loop waits for events, lets the handlers read and
  write, then runs the tick: destroy retired connections, resume accepting, sweep expired keys. A
  readable connection reads into a \<open>Buffer\<close> (\<^verbatim>\<open>core/buffer.cpp\<close>), parses commands from it
  (\<^verbatim>\<open>core/resp.cpp\<close>), has each one dispatched (\<^verbatim>\<open>core/command.cpp\<close>) on the \<open>Store\<close>
  (\<^verbatim>\<open>core/store.cpp\<close>), and writes the replies. The store adds expiry, eviction and counters to a
  chained hash \<open>Table\<close> (\<^verbatim>\<open>core/table.cpp\<close>) of \<open>Entry\<close> blocks (\<^verbatim>\<open>core/entry.h\<close>), hashed with
  SipHash-1-3 (\<^verbatim>\<open>core/hash.cpp\<close>) and scanned with a reverse-binary cursor (\<^verbatim>\<open>core/bits.cpp\<close>).

  \<^bold>\<open>Conventions.\<close> A definition has the name of the function it models, with the class in front where
  the bare name would clash (\<open>Store_set\<close>, \<open>Buffer_append\<close>, \<open>conn_onReadable\<close>). An operation takes
  the object and returns it updated, in the \<open>option\<close> monad: \<open>None\<close> is a failed assertion, an access
  outside an array or to freed memory, a signed overflow, a use of a destroyed object, or a loop
  that does not end. Every theorem of the form \<open>\<exists>r. f x = Some r \<and> \<dots>\<close> therefore includes that the
  code returns and has none of these faults. Exceptions and error returns are values of a sum type.
  \<open>std::size_t\<close> and \<open>std::uint64_t\<close> are \<open>64 word\<close> where they can wrap (hashes, cursors, generator,
  parsed lengths) and \<open>nat\<close> where they count objects in memory; \<open>std::int64_t\<close> is \<open>int\<close> with the
  range \<open>i64\<close> required at each addition that could leave it.

  \<^bold>\<open>Theories.\<close>
  \<^item> \<open>Prelude\<close>: machine types, the requirement monad, shared lemmas and the named collections.
  \<^item> \<open>Bits\<close>, \<open>Hash\<close>: \<^verbatim>\<open>core/bits.cpp\<close>, \<^verbatim>\<open>core/hash.cpp\<close>. The cursor visits every bucket once and
    survives a doubling of the table; the hash equals its reference definition.
  \<^item> \<open>Entry\<close>, \<open>Pool\<close>, \<open>Table\<close>: \<^verbatim>\<open>core/entry.h\<close>, the pool interface, \<^verbatim>\<open>core/table.h\<close> and
    \<^verbatim>\<open>core/table.cpp\<close>. Entries live at addresses in \<open>slab\<close>, chains are linked by \<open>nextp\<close>, bytes that
    do not fit inline are blocks of a character heap. \<open>Memory\<close> abstracts this memory to a map,
    \<open>Table_inv\<close> (in \<open>Table_Inv\<close>) is the well-formedness of buckets, chains, hashes, pool and heap;
    \<open>Table_Ops\<close> and \<open>Table_Scan\<close> show that every operation keeps it and what it does to the map;
    \<open>Table_Props\<close> holds the properties.
  \<^item> \<open>Store\<close>: \<^verbatim>\<open>core/store.cpp\<close>. \<open>Store_Inv\<close>, \<open>Store_Ops\<close>, \<open>Store_Evict\<close>, \<open>Store_Write\<close>,
    \<open>Store_Set\<close> and \<open>Store_Cycle\<close> prove each operation correct; \<open>Simulation\<close> lifts single steps to
    sequences and \<open>Store_Spec\<close> applies it to a specification over maps; \<open>Store_Sweep\<close> shows that the
    expire cycle covers the table while it grows; \<open>Store_Props\<close> holds the properties.
  \<^item> \<open>Buffer\<close>: \<^verbatim>\<open>core/buffer.cpp\<close>, refining a byte queue.
  \<^item> \<open>Resp\<close>: \<^verbatim>\<open>core/resp.cpp\<close>. \<open>Stream_Parser\<close> is the interface of a parser on input that is still
    arriving; \<open>Resp_Line\<close> and \<open>Resp_Parse\<close> refine the request parser to the grammar
    \<open>command_spec\<close>; \<open>Resp_Reply\<close> treats the encoders and round trips.
  \<^item> \<open>Dispatch\<close>: \<^verbatim>\<open>core/command.cpp\<close>. \<open>Dispatch_Spec\<close> gives each command a plan (store operations
    and a reply), \<open>Dispatch_Refine\<close> shows that every handler follows it, \<open>Dispatch_Props\<close> holds the
    properties.
  \<^item> \<open>Kernel\<close>: the system calls as a parameter and their documented behaviour; \<open>Loopback\<close>: an
    executable kernel that has it. \<open>Unique_Fd\<close>: \<^verbatim>\<open>net/unique_fd.cpp\<close>.
  \<^item> \<open>Net_State\<close>, \<open>Connection\<close>, \<open>Server\<close>: \<^verbatim>\<open>net/event_loop.cpp\<close>, \<^verbatim>\<open>net/connection.cpp\<close>,
    \<^verbatim>\<open>net/server.cpp\<close> on the one state \<open>Server\<close>, in which objects are numbered and a destroyed one
    is absent from \<open>objs\<close>. \<open>Session\<close> shows what a connection does with its buffers. \<open>Service\<close>
    specifies the whole server as a database and clients that take turns, with what a client can
    rely on as its invariant, and \<open>view\<close> reads its state off that of the server. \<open>Net_Inv\<close>
    is the invariant (who owns which descriptor and object, what epoll watches, buffer bounds);
    \<open>Connection_Inv\<close>, \<open>Accept_Inv\<close> and \<open>Server_Inv\<close> show that every handler, the accept loop and a
    whole iteration keep it and are turns of the service; \<open>Lifecycle\<close> that construction establishes it and destruction closes
    everything; \<open>Server_Props\<close> holds the properties.
  \<^item> \<open>Startup\<close>: \<^verbatim>\<open>main.cpp\<close>, the signal handler, and a whole run of the program.

  \<^bold>\<open>Interfaces.\<close> \<open>entry_pool\<close> (what the table needs of the pool, interpreted by a free list),
  \<open>byte_queue\<close> (the buffer), \<open>simulation\<close> (sequences of operations, for the buffer and the store),
  \<open>stream_parser\<close> (requests and replies), \<open>kernel\<close> (system calls, interpreted by the loopback
  kernel), and \<open>server_env\<close>, which joins the pool and the kernel.

  \<^bold>\<open>Assumptions.\<close> The pool gives out a free block or none and takes back live ones. The kernel's
  descriptors are fresh when opened, \<open>close\<close> removes a descriptor from the interest list,
  \<open>epoll_wait\<close> reports registered handlers only, \<open>write\<close> accepts a prefix, bytes move in \<open>read\<close>
  and \<open>write\<close> only (\<open>taken\<close> and \<open>sent\<close> record them for each socket), and a call does not
  report interruptions or queued connections for ever (\<open>pending\<close> counts those to come): this is
  what the accept loop and the retries after \<open>EINTR\<close> need in order to end. The clock is at least
  500 ms and within 64 bits: TTL adds 500 to a remaining time of at most \<open>INT64_MAX - now\<close>. A key and
  its value are together shorter than \<open>2 ^ 32\<close> bytes, as the parser ensures. The store is configured
  within its own assertions: at most \<open>kPoolCapacity\<close> keys, 1 to 64 samples, at most \<open>2 ^ 63\<close> buckets.

  \<^bold>\<open>Bounds.\<close> Loops over chains, samples, buffers and input are \<open>partial_function\<close>s or functions with a
  termination proof, and are shown to return; none has fuel. Bounded in the code itself are the
  passes of an expire cycle (\<open>kMaxPasses\<close>) and the buckets of a pass; the recursions count these down.
  \<open>Server_run\<close> takes a list with one element for each loop iteration to observe, which says whether
  \<open>stop\<close> was called before the flag is checked; the server runs until then, and the theorems hold
  for every list. The order in which the destructor visits the hash map
  of connections is an argument, of which only is assumed that it lists each element once.

  \<^bold>\<open>Not modelled.\<close>
  \<^item> The pool allocator is fetched at build time and the kernel is not part of the sources: both are
    parameters. So are the random device (two words given to \<open>Store_init\<close>) and the clock.
  \<^item> The instant of a signal: the handler sets a flag that is read at the loop's check only, so the
    model tells apart between which two checks it ran, and whether it ran before the loop or after
    the server was destroyed. A signal before the handlers are installed ends the process.
  \<^item> Messages on \<open>stdout\<close> and \<open>stderr\<close>, and \<open>std::bad_alloc\<close>: allocation of vectors and of
    character blocks succeeds. Exhaustion of the entry pool is modelled.
  \<^item> The layout of entries in cache lines, deleted copy operations and other compile-time facts.
  \<^item> The benchmarks, which are not written yet, and the tests.
\<close>

end
